(* ===== verification/Prelude.thy ===== *)
theory Prelude
  imports Main "HOL-Library.Word" "HOL-Library.Signed_Division"
begin

unbundle bit_operations_syntax

text \<open>
  What every component of the development shares: the ways an operation of the C++ code can
  stop (\<open>fault\<close>), the result type of an operation that may stop (\<open>res\<close>) with its
  sequencing, the machine arithmetic of the code (\<open>size_t\<close> subtraction, casts to a 32-bit
  \<open>int\<close>), bounded copies into a vector, and the lemma collections the components use.

  The build file sets \<open>CMAKE_BUILD_TYPE\<close> to \<open>Debug\<close>, so \<open>assert\<close> is active: a failed
  assertion is the fault \<open>Assert_failed\<close> and not an ignored comment.
\<close>

section \<open>Faults and results\<close>

datatype fault =
    Assert_failed          \<comment> \<open>\<open>assert\<close> of \<open>assert.h\<close>\<close>
  | Length_error           \<comment> \<open>\<open>std::length_error\<close>\<close>
  | Out_of_range           \<comment> \<open>\<open>std::out_of_range\<close>\<close>
  | Logic_error string     \<comment> \<open>\<open>std::logic_error\<close> with its message\<close>
  | Fatal_log              \<comment> \<open>\<open>LOG_FATAL\<close> and \<open>LOG_SYSFATAL\<close>: the log line, then \<open>abort\<close>\<close>
  | Null_deref             \<comment> \<open>a null pointer is dereferenced\<close>
  | Bad_function_call      \<comment> \<open>an empty \<open>std::function\<close> is called\<close>
  | Terminate              \<comment> \<open>\<open>std::terminate\<close>: a thread object destroyed while joinable\<close>
  | Bad_alloc              \<comment> \<open>\<open>operator new\<close> finds no memory\<close>
  | Undefined              \<comment> \<open>other undefined behaviour: memory out of range\<close>

type_synonym 'a res = "fault + 'a"

definition bindR :: "'a res \<Rightarrow> ('a \<Rightarrow> 'b res) \<Rightarrow> 'b res" where
  "bindR m f = (case m of Inl e \<Rightarrow> Inl e | Inr x \<Rightarrow> f x)"

definition assertR :: "bool \<Rightarrow> 'a res \<Rightarrow> 'a res" where
  "assertR P k = (if P then k else Inl Assert_failed)"

named_theorems res_simps \<open>sequencing of results\<close>

lemma bindR_Inr [simp]: "bindR (Inr x) f = f x"
  by (simp add: bindR_def)

lemma bindR_Inl [simp]: "bindR (Inl e) f = Inl e"
  by (simp add: bindR_def)

lemma bindR_eq_Inr [res_simps]: "bindR m f = Inr y \<longleftrightarrow> (\<exists>x. m = Inr x \<and> f x = Inr y)"
  by (cases m) auto

lemma bindR_eq_Inl:
  "bindR m f = Inl e \<longleftrightarrow> m = Inl e \<or> (\<exists>x. m = Inr x \<and> f x = Inl e)"
  by (cases m) auto

lemma bindR_assoc: "bindR (bindR m f) g = bindR m (\<lambda>x. bindR (f x) g)"
  by (cases m) auto

lemma bindR_cong [fundef_cong]:
  "m = m' \<Longrightarrow> (\<And>x. m' = Inr x \<Longrightarrow> f x = g x) \<Longrightarrow> bindR m f = bindR m' g"
  by (cases m') auto

lemma assertR_True [simp]: "assertR True k = k"
  by (simp add: assertR_def)

lemma assertR_False [simp]: "assertR False k = Inl Assert_failed"
  by (simp add: assertR_def)

lemma assertR_eq_Inr [res_simps]: "assertR P k = Inr y \<longleftrightarrow> P \<and> k = Inr y"
  by (simp add: assertR_def)

lemma assertR_pass: "P \<Longrightarrow> assertR P k = k"
  by simp

definition isOk :: "'a res \<Rightarrow> bool" where
  "isOk r \<longleftrightarrow> (case r of Inl _ \<Rightarrow> False | Inr _ \<Rightarrow> True)"

lemma isOk_simps [simp]: "isOk (Inr x)" "\<not> isOk (Inl e)"
  by (simp_all add: isOk_def)

lemma isOk_iff: "isOk r \<longleftrightarrow> (\<exists>x. r = Inr x)"
  by (cases r) auto

text \<open>Running an operation over a list, stopping at the first fault.\<close>

fun foldR :: "('a \<Rightarrow> 's \<Rightarrow> 's res) \<Rightarrow> 'a list \<Rightarrow> 's \<Rightarrow> 's res" where
  "foldR f [] s = Inr s"
| "foldR f (x # xs) s = bindR (f x s) (foldR f xs)"

lemma foldR_append: "foldR f (xs @ ys) s = bindR (foldR f xs s) (foldR f ys)"
proof (induction xs arbitrary: s)
  case Nil
  then show ?case by simp
next
  case (Cons x xs)
  then show ?case by (cases "f x s") auto
qed

lemma foldR_invariant:
  assumes "foldR f xs s = Inr t" and "I s"
    and "\<And>x s t. x \<in> set xs \<Longrightarrow> I s \<Longrightarrow> f x s = Inr t \<Longrightarrow> I t"
  shows "I t"
  using assms
proof (induction xs arbitrary: s)
  case Nil
  then show ?case by simp
next
  case (Cons x xs)
  from Cons.prems(1) obtain u where u: "f x s = Inr u" "foldR f xs u = Inr t"
    by (auto simp: res_simps)
  from Cons.prems(2,3) u(1) have "I u" by auto
  with u(2) show ?case
    by (rule Cons.IH) (use Cons.prems(3) in auto)
qed

lemma foldR_total:
  assumes "I s" and "\<And>x s. x \<in> set xs \<Longrightarrow> I s \<Longrightarrow> \<exists>t. f x s = Inr t \<and> I t"
  shows "\<exists>t. foldR f xs s = Inr t \<and> I t"
  using assms
proof (induction xs arbitrary: s)
  case Nil
  then show ?case by simp
next
  case (Cons x xs)
  from Cons.prems obtain u where "f x s = Inr u" "I u" by fastforce
  with Cons.IH [of u] Cons.prems(2) show ?case by auto
qed

section \<open>Machine arithmetic\<close>

text \<open>
  A \<open>size_t\<close> is a natural number below \<open>2 ^ 64\<close>; subtraction wraps. A \<open>std::vector<char>\<close>
  holds at most \<open>max_size\<close> elements and \<open>resize\<close> throws beyond it. An \<open>int\<close> is an
  integer in the 32-bit signed range (\<open>i32_ok\<close>), and \<open>to_i32\<close> is the cast to it.
\<close>

definition sz_sub :: "nat \<Rightarrow> nat \<Rightarrow> nat" where
  "sz_sub a b = (if b \<le> a then a - b else a + 2 ^ 64 - b)"

definition sz_add :: "nat \<Rightarrow> nat \<Rightarrow> nat" where
  "sz_add a b = (a + b) mod 2 ^ 64"

definition max_size :: nat where
  "max_size = 2 ^ 63 - 1"

definition i32_ok :: "int \<Rightarrow> bool" where
  "i32_ok x \<longleftrightarrow> - (2 ^ 31) \<le> x \<and> x < 2 ^ 31"

definition to_i32 :: "int \<Rightarrow> int" where
  "to_i32 x = (x + 2 ^ 31) mod 2 ^ 32 - 2 ^ 31"

definition i32_to_size :: "int \<Rightarrow> nat" where
  "i32_to_size x = nat (x mod 2 ^ 64)"

lemma sz_sub_le [simp]: "b \<le> a \<Longrightarrow> sz_sub a b = a - b"
  by (simp add: sz_sub_def)

lemma sz_add_small: "a + b < 2 ^ 64 \<Longrightarrow> sz_add a b = a + b"
  by (simp add: sz_add_def)

lemma max_size_less: "a \<le> max_size \<Longrightarrow> b \<le> max_size \<Longrightarrow> a + b < 2 ^ 64"
  by (simp add: max_size_def)

lemma to_i32_id: "- (2 ^ 31) \<le> x \<Longrightarrow> x < 2 ^ 31 \<Longrightarrow> to_i32 x = x"
  by (simp add: to_i32_def)

lemma to_i32_range: "- (2 ^ 31) \<le> to_i32 x \<and> to_i32 x < 2 ^ 31"
  by (simp add: to_i32_def)

lemma i32_to_size_nonneg: "0 \<le> x \<Longrightarrow> x < 2 ^ 31 \<Longrightarrow> i32_to_size x = nat x"
  by (simp add: i32_to_size_def)

text \<open>C++ division truncates; on non-negative numbers it is \<open>div\<close> and \<open>mod\<close>.\<close>

lemma sdiv_nonneg: "0 \<le> x \<Longrightarrow> 0 < c \<Longrightarrow> (x :: int) sdiv c = x div c"
  by (cases "x = 0") (simp_all add: signed_divide_int_def)

lemma smod_nonneg: "0 \<le> x \<Longrightarrow> 0 < c \<Longrightarrow> (x :: int) smod c = x mod c"
  by (cases "x = 0") (simp_all add: signed_modulo_int_def)

section \<open>Memory\<close>

text \<open>
  \<open>std::copy\<close> and \<open>memcpy\<close> into a block of memory. A copy that runs past the block is
  undefined behaviour.
\<close>

definition copy_into :: "'a list \<Rightarrow> nat \<Rightarrow> 'a list \<Rightarrow> 'a list res" where
  "copy_into v i xs =
     (if i + length xs \<le> length v then Inr (take i v @ xs @ drop (i + length xs) v)
      else Inl Undefined)"

lemma copy_into_Inr [simp]:
  "i + length xs \<le> length v \<Longrightarrow> copy_into v i xs = Inr (take i v @ xs @ drop (i + length xs) v)"
  by (simp add: copy_into_def)

lemma copy_into_eq_Inr [res_simps]:
  "copy_into v i xs = Inr w \<longleftrightarrow>
     i + length xs \<le> length v \<and> w = take i v @ xs @ drop (i + length xs) v"
  by (auto simp: copy_into_def)

section \<open>Lists\<close>

lemma take_drop_window:
  assumes "i + length xs \<le> length v"
  shows "take (length xs) (drop i (take i v @ xs @ ys)) = xs"
  using assms by simp

lemma take_min_length [simp]: "take (min (length xs) n) xs = take n xs"
  by (simp add: min_def)

lemma length_copy:
  assumes "i + length xs \<le> length v"
  shows "length (take i v @ xs @ drop (i + length xs) v) = length v"
  using assms by simp

section \<open>Positions on a ring\<close>

lemma mod_wrap: "(x :: nat) < N + N \<Longrightarrow> x mod N = (if x < N then x else x - N)"
  by (simp add: le_mod_geq)

lemma add_mod_inj:
  assumes "(h :: nat) < N" "k < N" "l < N" "(h + k) mod N = (h + l) mod N"
  shows "k = l"
  using assms mod_wrap [of "h + k" N] mod_wrap [of "h + l" N] by (simp split: if_splits)

lemma span_wrap: "(h :: nat) < N \<Longrightarrow> t < N \<Longrightarrow> (t + N - h) mod N = (if h \<le> t then t - h else t + N - h)"
  using mod_wrap [of "t + N - h" N] by auto

lemma span_push:
  assumes "(h :: nat) < N" "t < N" "(t + N - h) mod N \<noteq> N - 1"
  shows "(Suc t mod N + N - h) mod N = Suc ((t + N - h) mod N)"
proof -
  have d: "(if h \<le> t then t - h else t + N - h) \<noteq> N - 1" using assms(3) unfolding span_wrap [OF assms(1,2)] .
  show ?thesis
  proof (cases "Suc t = N")
    case True
    then have "Suc t mod N = 0" by simp
    then have eq: "(Suc t mod N + N - h) mod N = (if h = 0 then 0 else N - h)"
      using span_wrap [of h N 0] assms(1) by simp
    show ?thesis unfolding eq span_wrap [OF assms(1,2)] using d True assms(1) by (auto split: if_splits)
  next
    case False
    with assms(2) have "Suc t < N" by simp
    then have eq: "(Suc t mod N + N - h) mod N = (if h \<le> Suc t then Suc t - h else Suc t + N - h)"
      using span_wrap [of h N "Suc t"] assms(1) by simp
    show ?thesis unfolding eq span_wrap [OF assms(1,2)] using d \<open>Suc t < N\<close> assms(1) by (auto split: if_splits)
  qed
qed

lemma span_pop:
  assumes "(h :: nat) < N" "t < N" "(t + N - h) mod N \<noteq> 0"
  shows "Suc ((t + N - Suc h mod N) mod N) = (t + N - h) mod N"
proof -
  have d: "(if h \<le> t then t - h else t + N - h) \<noteq> 0" using assms(3) unfolding span_wrap [OF assms(1,2)] .
  show ?thesis
  proof (cases "Suc h = N")
    case True
    then have "Suc h mod N = 0" by simp
    then have eq: "(t + N - Suc h mod N) mod N = t" using assms(2) by simp
    show ?thesis unfolding eq span_wrap [OF assms(1,2)] using d True assms(2) by (auto split: if_splits)
  next
    case False
    with assms(1) have "Suc h < N" by simp
    then have eq: "(t + N - Suc h mod N) mod N = (if Suc h \<le> t then t - Suc h else t + N - Suc h)"
      using span_wrap [of "Suc h" N t] assms(2) by simp
    show ?thesis unfolding eq span_wrap [OF assms(1,2)] using d assms(2) \<open>Suc h < N\<close> by (auto split: if_splits)
  qed
qed

lemma add_mod_self: "(h :: nat) < N \<Longrightarrow> t < N \<Longrightarrow> (h + (t + N - h) mod N) mod N = t"
  by (simp add: mod_add_right_eq)

section \<open>Reachable states\<close>

text \<open>
  The states a step relation reaches from initial states, and the contract of an inductive
  invariant; every component with interleavings interprets the locale on its own steps.
\<close>

inductive reachable :: "('s \<Rightarrow> bool) \<Rightarrow> ('s \<Rightarrow> 's \<Rightarrow> bool) \<Rightarrow> 's \<Rightarrow> bool"
  for init step where
  reachable_init: "init s \<Longrightarrow> reachable init step s"
| reachable_step: "reachable init step s \<Longrightarrow> step s t \<Longrightarrow> reachable init step t"

locale state_invariant =
  fixes init :: "'s \<Rightarrow> bool" and step :: "'s \<Rightarrow> 's \<Rightarrow> bool" and inv :: "'s \<Rightarrow> bool"
  assumes inv_init: "init s \<Longrightarrow> inv s"
    and inv_step: "step s t \<Longrightarrow> inv s \<Longrightarrow> inv t"
begin

lemma inv_reachable: "reachable init step s \<Longrightarrow> inv s"
  by (induction rule: reachable.induct) (auto intro: inv_init inv_step)

lemma inv_run: "step\<^sup>*\<^sup>* s t \<Longrightarrow> inv s \<Longrightarrow> inv t"
  by (induction rule: rtranclp_induct) (auto intro: inv_step)

end

end
