(* ===== verification/Endians.thy ===== *)
theory Endians
  imports Prelude
begin

text \<open>
  \<open>src/src/net/Endian.h\<close>: host and network byte order. The host is little-endian (Linux on
  x86-64, what \<open>endian.h\<close> selects there), so an integer object of \<open>n\<close> bytes holds
  \<open>le_bytes n x\<close> and the conversions to and from network order reverse the bytes.
\<close>

type_synonym byte = "8 word"

section \<open>Object representation of integers\<close>

fun le_bytes :: "nat \<Rightarrow> 'a::len word \<Rightarrow> byte list" where
  "le_bytes 0 w = []"
| "le_bytes (Suc n) w = ucast w # le_bytes n (drop_bit 8 w)"

fun from_le :: "byte list \<Rightarrow> 'a::len word" where
  "from_le [] = 0"
| "from_le (b # bs) = ucast b OR push_bit 8 (from_le bs)"

definition bswap :: "nat \<Rightarrow> 'a::len word \<Rightarrow> 'a word" where
  "bswap n w = from_le (rev (le_bytes n w))"

section \<open>The conversions of \<open>Endian.h\<close>\<close>

definition hostToNetwork64 :: "64 word \<Rightarrow> 64 word" where
  "hostToNetwork64 host64 = bswap 8 host64"

definition hostToNetwork32 :: "32 word \<Rightarrow> 32 word" where
  "hostToNetwork32 host32 = bswap 4 host32"

definition hostToNetwork16 :: "16 word \<Rightarrow> 16 word" where
  "hostToNetwork16 host16 = bswap 2 host16"

definition networkToHost64 :: "64 word \<Rightarrow> 64 word" where
  "networkToHost64 net64 = bswap 8 net64"

definition networkToHost32 :: "32 word \<Rightarrow> 32 word" where
  "networkToHost32 net32 = bswap 4 net32"

definition networkToHost16 :: "16 word \<Rightarrow> 16 word" where
  "networkToHost16 net16 = bswap 2 net16"

lemmas endian_defs =
  hostToNetwork64_def hostToNetwork32_def hostToNetwork16_def
  networkToHost64_def networkToHost32_def networkToHost16_def

section \<open>Bytes and words\<close>

lemma length_le_bytes [simp]: "length (le_bytes n w) = n"
  by (induction n arbitrary: w) auto

lemma nth_le_bytes: "k < n \<Longrightarrow> le_bytes n w ! k = ucast (drop_bit (8 * k) w)"
proof (induction n arbitrary: k w)
  case 0
  then show ?case by simp
next
  case (Suc n)
  then show ?case by (cases k) (simp_all add: ac_simps)
qed

lemma bit_from_le:
  "bit (from_le bs :: 'a::len word) i \<longleftrightarrow>
     i < LENGTH('a) \<and> i div 8 < length bs \<and> bit (bs ! (i div 8)) (i mod 8)"
proof (induction bs arbitrary: i)
  case Nil
  then show ?case by simp
next
  case (Cons b bs)
  show ?case
  proof (cases "i < 8")
    case True
    then show ?thesis by (auto simp: bit_simps)
  next
    case False
    then obtain j where j: "i = j + 8" by (metis le_Suc_ex not_less add.commute)
    have "\<not> bit b i" using False by (auto dest: bit_imp_le_length)
    moreover have "(j + 8) div 8 = Suc (j div 8)" and "(j + 8) mod 8 = j mod 8" by simp_all
    ultimately show ?thesis
      using Cons.IH [of j] by (auto simp: j bit_simps)
  qed
qed

lemma from_le_le_bytes:
  assumes "LENGTH('a) = 8 * n"
  shows "from_le (le_bytes n w) = (w :: 'a::len word)"
proof (rule bit_word_eqI)
  fix i assume i: "i < LENGTH('a)"
  with assms have "i div 8 < n" by auto
  then have "bit (le_bytes n w ! (i div 8)) (i mod 8) = bit w i"
    by (simp add: nth_le_bytes bit_simps)
  with i \<open>i div 8 < n\<close> show "bit (from_le (le_bytes n w) :: 'a word) i = bit w i"
    by (simp add: bit_from_le)
qed

lemma le_bytes_from_le:
  assumes "LENGTH('a) = 8 * length bs"
  shows "le_bytes (length bs) (from_le bs :: 'a::len word) = bs"
proof (rule nth_equalityI)
  fix k assume "k < length (le_bytes (length bs) (from_le bs :: 'a word))"
  then have k: "k < length bs" by simp
  show "le_bytes (length bs) (from_le bs :: 'a word) ! k = bs ! k"
  proof (rule bit_word_eqI)
    fix i assume i: "i < LENGTH(8)"
    with k assms have "8 * k + i < LENGTH('a)" by auto
    with i k show "bit (le_bytes (length bs) (from_le bs :: 'a word) ! k) i = bit (bs ! k) i"
      by (simp add: nth_le_bytes bit_simps bit_from_le)
  qed
qed simp

text \<open>What the memory of a converted integer holds: the bytes, most significant first.\<close>

lemma le_bytes_bswap:
  assumes "LENGTH('a) = 8 * n"
  shows "le_bytes n (bswap n (w :: 'a::len word)) = rev (le_bytes n w)"
  using le_bytes_from_le [where 'a = 'a, of "rev (le_bytes n w)"] assms by (simp add: bswap_def)

lemma bswap_bswap:
  assumes "LENGTH('a) = 8 * n"
  shows "bswap n (bswap n w) = (w :: 'a::len word)"
  unfolding bswap_def [of n "bswap n w"] le_bytes_bswap [OF assms]
  using from_le_le_bytes [OF assms] by simp

end
