(* ===== verification/Buffers.thy ===== *)
theory Buffers
  imports Endians
begin

text \<open>
  \<open>src/src/net/Buffer.h\<close> and \<open>Buffer.cc\<close>: the byte buffer of a connection, a vector with a
  reader index and a writer index. A pointer into the vector is the index it points at, so
  \<open>peek()\<close> is \<open>readerIndex\<close> and \<open>beginWrite()\<close> is \<open>writerIndex\<close>; a null pointer is
  \<open>None\<close>. The operations that assert, or that can throw through \<open>vector::resize\<close>, return
  a result. The system call \<open>readv\<close> is an argument of \<open>readFd\<close>: what it returned.
\<close>

section \<open>The state and its observers\<close>

record buffer =
  bufvec :: "byte list"
  readerIndex :: nat
  writerIndex :: nat

definition kCheapPrepend :: nat where
  "kCheapPrepend = 8"

definition kInitialSize :: nat where
  "kInitialSize = 1024"

definition kCRLF :: "byte list" where
  "kCRLF = [13, 10]"

definition readableBytes :: "buffer \<Rightarrow> nat" where
  "readableBytes b = sz_sub (writerIndex b) (readerIndex b)"

definition writableBytes :: "buffer \<Rightarrow> nat" where
  "writableBytes b = sz_sub (length (bufvec b)) (writerIndex b)"

definition prependableBytes :: "buffer \<Rightarrow> nat" where
  "prependableBytes b = readerIndex b"

definition peek :: "buffer \<Rightarrow> nat" where
  "peek b = readerIndex b"

definition beginWrite :: "buffer \<Rightarrow> nat" where
  "beginWrite b = writerIndex b"

lemmas buffer_observers =
  readableBytes_def writableBytes_def prependableBytes_def peek_def beginWrite_def

definition newBuffer :: "nat \<Rightarrow> buffer res" where
  "newBuffer initialSize =
     (let b = \<lparr>bufvec = replicate (kCheapPrepend + initialSize) 0,
               readerIndex = kCheapPrepend, writerIndex = kCheapPrepend\<rparr>
      in assertR (readableBytes b = 0)
          (assertR (writableBytes b = initialSize)
            (assertR (prependableBytes b = kCheapPrepend) (Inr b))))"

text \<open>\<open>vector::resize\<close>: new elements are zero; it throws beyond the maximal size.\<close>

definition vec_resize :: "byte list \<Rightarrow> nat \<Rightarrow> byte list res" where
  "vec_resize v n =
     (if n > max_size then Inl Length_error
      else Inr (take n v @ replicate (n - length v) 0))"

section \<open>Searching\<close>

text \<open>
  \<open>std::search\<close> over \<open>[first, last)\<close>: the first position where the pattern matches, or
  \<open>last\<close>.
\<close>

function std_search :: "byte list \<Rightarrow> nat \<Rightarrow> nat \<Rightarrow> byte list \<Rightarrow> nat" where
  "std_search v first stop pat =
     (if stop < first + length pat then stop
      else if take (length pat) (drop first v) = pat then first
      else std_search v (Suc first) stop pat)"
  by pat_completeness auto
termination
proof (relation "measure (\<lambda>(v, first, stop, pat). stop - first)")
  fix v :: "byte list" and first stop :: nat and pat :: "byte list"
  assume "\<not> stop < first + length pat" "take (length pat) (drop first v) \<noteq> pat"
  then show "((v, Suc first, stop, pat), v, first, stop, pat)
      \<in> measure (\<lambda>(v, first, stop, pat). stop - first)"
    by (cases pat) auto
qed simp

declare std_search.simps [simp del]

text \<open>\<open>memchr\<close> over \<open>[first, stop)\<close>.\<close>

function memchr :: "byte list \<Rightarrow> nat \<Rightarrow> nat \<Rightarrow> byte \<Rightarrow> nat option" where
  "memchr v first stop c =
     (if stop \<le> first then None
      else if v ! first = c then Some first
      else memchr v (Suc first) stop c)"
  by pat_completeness auto
termination
  by (relation "measure (\<lambda>(v, first, stop, c). stop - first)") auto

declare memchr.simps [simp del]

definition findCRLF :: "buffer \<Rightarrow> nat option" where
  "findCRLF b =
     (let crlf = std_search (bufvec b) (peek b) (beginWrite b) kCRLF
      in if crlf = beginWrite b then None else Some crlf)"

definition findCRLF_from :: "buffer \<Rightarrow> nat \<Rightarrow> nat option res" where
  "findCRLF_from b start =
     assertR (peek b \<le> start) (assertR (start \<le> beginWrite b)
       (let crlf = std_search (bufvec b) start (beginWrite b) kCRLF
        in Inr (if crlf = beginWrite b then None else Some crlf)))"

definition findEOL :: "buffer \<Rightarrow> nat option" where
  "findEOL b = memchr (bufvec b) (peek b) (peek b + readableBytes b) 10"

definition findEOL_from :: "buffer \<Rightarrow> nat \<Rightarrow> nat option res" where
  "findEOL_from b start =
     assertR (peek b \<le> start) (assertR (start \<le> beginWrite b)
       (Inr (memchr (bufvec b) start (beginWrite b) 10)))"

section \<open>Taking data out\<close>

definition retrieveAll :: "buffer \<Rightarrow> buffer" where
  "retrieveAll b = b\<lparr>readerIndex := kCheapPrepend, writerIndex := kCheapPrepend\<rparr>"

definition retrieve :: "nat \<Rightarrow> buffer \<Rightarrow> buffer res" where
  "retrieve len b =
     assertR (len \<le> readableBytes b)
       (if len < readableBytes b then Inr (b\<lparr>readerIndex := readerIndex b + len\<rparr>)
        else Inr (retrieveAll b))"

definition retrieveUntil :: "nat \<Rightarrow> buffer \<Rightarrow> buffer res" where
  "retrieveUntil endp b =
     assertR (peek b \<le> endp) (assertR (endp \<le> beginWrite b) (retrieve (endp - peek b) b))"

definition retrieveInt64 :: "buffer \<Rightarrow> buffer res" where
  "retrieveInt64 b = retrieve 8 b"

definition retrieveInt32 :: "buffer \<Rightarrow> buffer res" where
  "retrieveInt32 b = retrieve 4 b"

definition retrieveInt16 :: "buffer \<Rightarrow> buffer res" where
  "retrieveInt16 b = retrieve 2 b"

definition retrieveInt8 :: "buffer \<Rightarrow> buffer res" where
  "retrieveInt8 b = retrieve 1 b"

definition retrieveAsString :: "nat \<Rightarrow> buffer \<Rightarrow> (byte list \<times> buffer) res" where
  "retrieveAsString len b =
     assertR (len \<le> readableBytes b)
       (let result = take len (drop (peek b) (bufvec b))
        in bindR (retrieve len b) (\<lambda>b'. Inr (result, b')))"

definition retrieveAllAsString :: "buffer \<Rightarrow> (byte list \<times> buffer) res" where
  "retrieveAllAsString b = retrieveAsString (readableBytes b) b"

text \<open>
  A \<open>StringPiece\<close> over bytes: the memory from its pointer on, and its length, an \<open>int\<close>.
\<close>

record piece =
  piece_mem :: "byte list"
  piece_len :: int

definition toStringPiece :: "buffer \<Rightarrow> piece" where
  "toStringPiece b =
     \<lparr>piece_mem = drop (peek b) (bufvec b), piece_len = to_i32 (int (readableBytes b))\<rparr>"

section \<open>Putting data in\<close>

definition makeSpace :: "nat \<Rightarrow> buffer \<Rightarrow> buffer res" where
  "makeSpace len b =
     (if sz_add (writableBytes b) (prependableBytes b) < sz_add len kCheapPrepend then
        bindR (vec_resize (bufvec b) (sz_add (writerIndex b) len)) (\<lambda>v. Inr (b\<lparr>bufvec := v\<rparr>))
      else
        assertR (kCheapPrepend < readerIndex b)
         (let readable = readableBytes b
          in bindR (copy_into (bufvec b) kCheapPrepend
                     (take (writerIndex b - readerIndex b) (drop (readerIndex b) (bufvec b))))
              (\<lambda>v. let b' = b\<lparr>bufvec := v, readerIndex := kCheapPrepend,
                              writerIndex := kCheapPrepend + readable\<rparr>
                   in assertR (readable = readableBytes b') (Inr b'))))"

definition ensureWritableBytes :: "nat \<Rightarrow> buffer \<Rightarrow> buffer res" where
  "ensureWritableBytes len b =
     bindR (if writableBytes b < len then makeSpace len b else Inr b)
       (\<lambda>b. assertR (writableBytes b \<ge> len) (Inr b))"

definition hasWritten :: "nat \<Rightarrow> buffer \<Rightarrow> buffer res" where
  "hasWritten len b =
     assertR (len \<le> writableBytes b) (Inr (b\<lparr>writerIndex := writerIndex b + len\<rparr>))"

definition unwrite :: "nat \<Rightarrow> buffer \<Rightarrow> buffer res" where
  "unwrite len b =
     assertR (len \<le> readableBytes b) (Inr (b\<lparr>writerIndex := writerIndex b - len\<rparr>))"

text \<open>\<open>append(const char*, size_t)\<close>: reading past the source memory is undefined.\<close>

definition append_mem :: "byte list \<Rightarrow> nat \<Rightarrow> buffer \<Rightarrow> buffer res" where
  "append_mem data len b =
     bindR (ensureWritableBytes len b)
       (\<lambda>b. if length data < len then Inl Undefined
            else bindR (copy_into (bufvec b) (beginWrite b) (take len data))
                   (\<lambda>v. hasWritten len (b\<lparr>bufvec := v\<rparr>)))"

definition append_piece :: "piece \<Rightarrow> buffer \<Rightarrow> buffer res" where
  "append_piece str b = append_mem (piece_mem str) (i32_to_size (piece_len str)) b"

definition prepend :: "byte list \<Rightarrow> nat \<Rightarrow> buffer \<Rightarrow> buffer res" where
  "prepend data len b =
     assertR (len \<le> prependableBytes b)
       (let r = readerIndex b - len
        in if length data < len then Inl Undefined
           else bindR (copy_into (bufvec b) r (take len data))
                  (\<lambda>v. Inr (b\<lparr>bufvec := v, readerIndex := r\<rparr>)))"

definition appendInt64 :: "64 word \<Rightarrow> buffer \<Rightarrow> buffer res" where
  "appendInt64 x b = (let be64 = hostToNetwork64 x in append_mem (le_bytes 8 be64) 8 b)"

definition appendInt32 :: "32 word \<Rightarrow> buffer \<Rightarrow> buffer res" where
  "appendInt32 x b = (let be32 = hostToNetwork32 x in append_mem (le_bytes 4 be32) 4 b)"

definition appendInt16 :: "16 word \<Rightarrow> buffer \<Rightarrow> buffer res" where
  "appendInt16 x b = (let be16 = hostToNetwork16 x in append_mem (le_bytes 2 be16) 2 b)"

definition appendInt8 :: "8 word \<Rightarrow> buffer \<Rightarrow> buffer res" where
  "appendInt8 x b = append_mem [x] 1 b"

definition prependInt64 :: "64 word \<Rightarrow> buffer \<Rightarrow> buffer res" where
  "prependInt64 x b = (let be64 = hostToNetwork64 x in prepend (le_bytes 8 be64) 8 b)"

definition prependInt32 :: "32 word \<Rightarrow> buffer \<Rightarrow> buffer res" where
  "prependInt32 x b = (let be32 = hostToNetwork32 x in prepend (le_bytes 4 be32) 4 b)"

definition prependInt16 :: "16 word \<Rightarrow> buffer \<Rightarrow> buffer res" where
  "prependInt16 x b = (let be16 = hostToNetwork16 x in prepend (le_bytes 2 be16) 2 b)"

definition prependInt8 :: "8 word \<Rightarrow> buffer \<Rightarrow> buffer res" where
  "prependInt8 x b = prepend [x] 1 b"

section \<open>Reading integers\<close>

definition peekInt64 :: "buffer \<Rightarrow> 64 word res" where
  "peekInt64 b =
     assertR (readableBytes b \<ge> 8)
       (let be64 = from_le (take 8 (drop (peek b) (bufvec b))) in Inr (networkToHost64 be64))"

definition peekInt32 :: "buffer \<Rightarrow> 32 word res" where
  "peekInt32 b =
     assertR (readableBytes b \<ge> 4)
       (let be32 = from_le (take 4 (drop (peek b) (bufvec b))) in Inr (networkToHost32 be32))"

definition peekInt16 :: "buffer \<Rightarrow> 16 word res" where
  "peekInt16 b =
     assertR (readableBytes b \<ge> 2)
       (let be16 = from_le (take 2 (drop (peek b) (bufvec b))) in Inr (networkToHost16 be16))"

definition peekInt8 :: "buffer \<Rightarrow> 8 word res" where
  "peekInt8 b = assertR (readableBytes b \<ge> 1) (Inr (bufvec b ! peek b))"

definition readInt64 :: "buffer \<Rightarrow> (64 word \<times> buffer) res" where
  "readInt64 b =
     bindR (peekInt64 b) (\<lambda>result. bindR (retrieveInt64 b) (\<lambda>b. Inr (result, b)))"

definition readInt32 :: "buffer \<Rightarrow> (32 word \<times> buffer) res" where
  "readInt32 b =
     bindR (peekInt32 b) (\<lambda>result. bindR (retrieveInt32 b) (\<lambda>b. Inr (result, b)))"

definition readInt16 :: "buffer \<Rightarrow> (16 word \<times> buffer) res" where
  "readInt16 b =
     bindR (peekInt16 b) (\<lambda>result. bindR (retrieveInt16 b) (\<lambda>b. Inr (result, b)))"

definition readInt8 :: "buffer \<Rightarrow> (8 word \<times> buffer) res" where
  "readInt8 b =
     bindR (peekInt8 b) (\<lambda>result. bindR (retrieveInt8 b) (\<lambda>b. Inr (result, b)))"

section \<open>Whole-buffer operations and \<open>readFd\<close>\<close>

definition swap :: "buffer \<Rightarrow> buffer \<Rightarrow> buffer \<times> buffer" where
  "swap b rhs = (rhs, b)"

definition shrink :: "nat \<Rightarrow> buffer \<Rightarrow> buffer res" where
  "shrink reserve b =
     bindR (newBuffer kInitialSize) (\<lambda>other.
     bindR (ensureWritableBytes (sz_add (readableBytes b) reserve) other) (\<lambda>other.
     bindR (append_piece (toStringPiece b) other) (\<lambda>other.
     Inr (fst (swap b other)))))"

text \<open>
  What \<open>readv\<close> did: it failed with an \<open>errno\<close>, or it stored these bytes into the two blocks
  of the vector, the first block first.
\<close>

datatype readv_result = Rv_error int | Rv_data "byte list"

definition extrabuf_size :: nat where
  "extrabuf_size = 65536"

definition readv_capacity :: "buffer \<Rightarrow> nat" where
  "readv_capacity b =
     (let writable = writableBytes b
      in if writable < extrabuf_size then writable + extrabuf_size else writable)"

text \<open>The result is the returned \<open>ssize_t\<close>, the \<open>errno\<close> that was saved, and the buffer.\<close>

definition readFd :: "readv_result \<Rightarrow> buffer \<Rightarrow> (int \<times> int option \<times> buffer) res" where
  "readFd rv b =
     (let writable = writableBytes b
      in case rv of
           Rv_error err \<Rightarrow> Inr (-1, Some err, b)
         | Rv_data bytes \<Rightarrow>
             if length bytes > readv_capacity b then Inl Undefined
             else
               bindR (copy_into (bufvec b) (writerIndex b) (take writable bytes)) (\<lambda>v.
               if length bytes \<le> writable
               then Inr (int (length bytes), None,
                         b\<lparr>bufvec := v, writerIndex := writerIndex b + length bytes\<rparr>)
               else
                 bindR (append_mem (drop writable bytes) (length bytes - writable)
                         (b\<lparr>bufvec := v, writerIndex := length v\<rparr>))
                   (\<lambda>b'. Inr (int (length bytes), None, b'))))"

section \<open>The invariant and the abstraction\<close>

text \<open>
  A well-formed buffer keeps its indices in order and inside the vector. It stands for the
  queue of bytes between them.
\<close>

definition wf_buffer :: "buffer \<Rightarrow> bool" where
  "wf_buffer b \<longleftrightarrow> readerIndex b \<le> writerIndex b \<and> writerIndex b \<le> length (bufvec b)
     \<and> kCheapPrepend \<le> length (bufvec b) \<and> length (bufvec b) \<le> max_size"

definition contents :: "buffer \<Rightarrow> byte list" where
  "contents b = take (writerIndex b - readerIndex b) (drop (readerIndex b) (bufvec b))"

lemma wf_bufferD:
  assumes "wf_buffer b"
  shows "readerIndex b \<le> writerIndex b" "writerIndex b \<le> length (bufvec b)"
    "length (bufvec b) \<le> max_size" "kCheapPrepend \<le> length (bufvec b)"
  using assms by (simp_all add: wf_buffer_def)

lemma wf_observers:
  assumes "wf_buffer b"
  shows "readableBytes b = writerIndex b - readerIndex b"
    "writableBytes b = length (bufvec b) - writerIndex b"
  using wf_bufferD [OF assms] by (simp_all add: buffer_observers)

lemma length_contents: "wf_buffer b \<Longrightarrow> length (contents b) = readableBytes b"
  using wf_bufferD [of b] by (simp add: contents_def wf_observers)

lemma newBuffer_ok:
  assumes "n \<le> max_size - kCheapPrepend"
  shows "\<exists>b. newBuffer n = Inr b \<and> wf_buffer b \<and> contents b = [] \<and> writableBytes b = n"
  using assms
  by (simp add: newBuffer_def buffer_observers wf_buffer_def contents_def kCheapPrepend_def
      max_size_def)

subsection \<open>Space\<close>

lemma wf_sums:
  assumes "wf_buffer b" and "len \<le> max_size"
  shows "sz_add (writableBytes b) (prependableBytes b)
      = length (bufvec b) - writerIndex b + readerIndex b"
    "sz_add len kCheapPrepend = len + 8" "sz_add (writerIndex b) len = writerIndex b + len"
  using wf_bufferD [OF assms(1)] assms(2)
  by (simp_all add: wf_observers [OF assms(1)] prependableBytes_def sz_add_def
      kCheapPrepend_def max_size_def)

lemma makeSpace_grow:
  assumes wf: "wf_buffer b" and len: "writerIndex b + len \<le> max_size"
    and need: "writableBytes b < len"
    and tight: "length (bufvec b) - writerIndex b + readerIndex b < len + 8"
  shows "makeSpace len b =
    Inr (b\<lparr>bufvec := bufvec b @ replicate (writerIndex b + len - length (bufvec b)) 0\<rparr>)"
proof -
  from len have "len \<le> max_size" by simp
  then show ?thesis
    using assms wf_bufferD [OF wf] unfolding makeSpace_def wf_sums [OF wf \<open>len \<le> max_size\<close>]
    by (simp add: vec_resize_def wf_observers [OF wf])
qed

lemma makeSpace_slide:
  assumes wf: "wf_buffer b" and len: "len \<le> max_size"
    and need: "writableBytes b < len"
    and room: "\<not> length (bufvec b) - writerIndex b + readerIndex b < len + 8"
  shows "\<exists>v. makeSpace len b = Inr (b\<lparr>bufvec := v, readerIndex := kCheapPrepend,
       writerIndex := kCheapPrepend + length (contents b)\<rparr>)
     \<and> length v = length (bufvec b)
     \<and> take (length (contents b)) (drop kCheapPrepend v) = contents b
     \<and> kCheapPrepend < readerIndex b"
proof -
  note d = wf_bufferD [OF wf]
  have r: "kCheapPrepend < readerIndex b"
    using need room d by (simp add: wf_observers [OF wf] kCheapPrepend_def)
  have fit: "kCheapPrepend + length (contents b) \<le> length (bufvec b)"
    using r d by (simp add: length_contents [OF wf] wf_observers [OF wf])
  have cp: "copy_into (bufvec b) kCheapPrepend
      (take (writerIndex b - readerIndex b) (drop (readerIndex b) (bufvec b)))
    = Inr (take kCheapPrepend (bufvec b) @ contents b
        @ drop (kCheapPrepend + length (contents b)) (bufvec b))"
    using fit by (simp add: contents_def)
  have lc: "length (contents b) = writerIndex b - readerIndex b"
    by (simp add: length_contents [OF wf] wf_observers [OF wf])
  let ?v = "take kCheapPrepend (bufvec b) @ contents b
      @ drop (kCheapPrepend + length (contents b)) (bufvec b)"
  have "makeSpace len b = Inr (b\<lparr>bufvec := ?v, readerIndex := kCheapPrepend,
      writerIndex := kCheapPrepend + length (contents b)\<rparr>)"
    using r room lc unfolding makeSpace_def wf_sums [OF wf len] cp
    by (simp add: readableBytes_def Let_def wf_bufferD [OF wf])
  moreover have "length ?v = length (bufvec b)"
    and "take (length (contents b)) (drop kCheapPrepend ?v) = contents b"
    using fit by simp_all
  ultimately show ?thesis using r by blast
qed

text \<open>
  \<open>ensureWritableBytes\<close> keeps the invariant and the contents and provides the space. Its
  assertions, the one of \<open>makeSpace\<close> included, never fail; it can only throw when the
  vector would pass its maximal size.
\<close>

lemma ensureWritableBytes_ok:
  assumes wf: "wf_buffer b" and len: "writerIndex b + len \<le> max_size"
  shows "\<exists>b'. ensureWritableBytes len b = Inr b' \<and> wf_buffer b' \<and> contents b' = contents b
     \<and> len \<le> writableBytes b' \<and> readerIndex b' \<ge> min kCheapPrepend (readerIndex b)
     \<and> writerIndex b' \<le> writerIndex b"
proof (cases "writableBytes b < len")
  case False
  then show ?thesis using wf by (auto simp: ensureWritableBytes_def)
next
  case need: True
  note d = wf_bufferD [OF wf]
  from len have len': "len \<le> max_size" by simp
  show ?thesis
  proof (cases "length (bufvec b) - writerIndex b + readerIndex b < len + 8")
    case True
    let ?b = "b\<lparr>bufvec := bufvec b @ replicate (writerIndex b + len - length (bufvec b)) 0\<rparr>"
    have wf': "wf_buffer ?b" using d need len by (simp add: wf_buffer_def wf_observers [OF wf])
    have "contents ?b = contents b" using d by (simp add: contents_def)
    moreover have "len \<le> writableBytes ?b"
      using d need by (simp add: wf_observers [OF wf'] wf_observers [OF wf])
    ultimately show ?thesis
      using need wf' by (simp add: ensureWritableBytes_def makeSpace_grow [OF wf len need True])
  next
    case False
    from makeSpace_slide [OF wf len' need False] obtain v where
      m: "makeSpace len b = Inr (b\<lparr>bufvec := v, readerIndex := kCheapPrepend,
            writerIndex := kCheapPrepend + length (contents b)\<rparr>)" (is "_ = Inr ?b")
      and v: "length v = length (bufvec b)"
      "take (length (contents b)) (drop kCheapPrepend v) = contents b"
      and r: "kCheapPrepend < readerIndex b"
      by blast
    have lc: "length (contents b) = writerIndex b - readerIndex b"
      by (simp add: length_contents [OF wf] wf_observers [OF wf])
    have wf': "wf_buffer ?b" using d r v(1) lc by (simp add: wf_buffer_def) linarith
    have "writableBytes ?b = length v - (kCheapPrepend + length (contents b))"
      unfolding wf_observers [OF wf'] by simp
    then have "len \<le> writableBytes ?b"
      using False d r v(1) lc by (simp add: kCheapPrepend_def)
    moreover have "contents ?b = contents b" using v by (simp add: contents_def)
    ultimately show ?thesis
      using need wf' r d lc by (simp add: ensureWritableBytes_def m)
  qed
qed

subsection \<open>The operations on the queue of bytes\<close>

lemma copy_window:
  assumes "i + length xs \<le> length v"
  shows "take (length xs) (drop i (take i v @ xs @ drop (i + length xs) v)) = xs"
    "length (take i v @ xs @ drop (i + length xs) v) = length v"
  using assms by simp_all

lemma append_mem_ok:
  assumes wf: "wf_buffer b" and room: "writerIndex b + length data \<le> max_size"
  shows "\<exists>b'. append_mem data (length data) b = Inr b' \<and> wf_buffer b'
     \<and> contents b' = contents b @ data \<and> readerIndex b' \<ge> min kCheapPrepend (readerIndex b)
     \<and> writerIndex b' \<le> writerIndex b + length data"
proof -
  from ensureWritableBytes_ok [OF wf room] obtain c where
    c: "ensureWritableBytes (length data) b = Inr c" "wf_buffer c" "contents c = contents b"
    "length data \<le> writableBytes c" "readerIndex c \<ge> min kCheapPrepend (readerIndex b)"
    "writerIndex c \<le> writerIndex b" by blast
  note d = wf_bufferD [OF c(2)]
  have fit: "writerIndex c + length data \<le> length (bufvec c)"
    using c(4) d by (simp add: wf_observers [OF c(2)])
  let ?v = "take (writerIndex c) (bufvec c) @ data @ drop (writerIndex c + length data) (bufvec c)"
  let ?b = "c\<lparr>bufvec := ?v, writerIndex := writerIndex c + length data\<rparr>"
  have "append_mem data (length data) b = Inr ?b"
    using fit c(1) by (simp add: append_mem_def beginWrite_def hasWritten_def
        writableBytes_def assertR_def)
  moreover have "wf_buffer ?b" using fit d by (simp add: wf_buffer_def)
  moreover have "contents ?b = contents c @ data"
    using fit d by (simp add: contents_def drop_take)
  ultimately show ?thesis using c by auto
qed

lemma contents_drop:
  "drop len (contents b)
     = take (writerIndex b - (readerIndex b + len)) (drop (readerIndex b + len) (bufvec b))"
  by (simp add: contents_def drop_take add.commute [of len])

lemma contents_take:
  "take (writerIndex b - readerIndex b - len) (contents b)
     = take (writerIndex b - readerIndex b - len) (drop (readerIndex b) (bufvec b))"
  by (simp add: contents_def min_def)

lemma retrieve_ok:
  assumes wf: "wf_buffer b" and len: "len \<le> readableBytes b"
  shows "\<exists>b'. retrieve len b = Inr b' \<and> wf_buffer b' \<and> contents b' = drop len (contents b)
     \<and> kCheapPrepend \<le> max kCheapPrepend (readerIndex b') \<and> writerIndex b' \<le> max kCheapPrepend (writerIndex b)"
  using assms wf_bufferD [OF wf]
  unfolding contents_drop
  by (auto simp: retrieve_def retrieveAll_def wf_buffer_def contents_def wf_observers [OF wf])

lemma retrieve_fails: "readableBytes b < len \<Longrightarrow> retrieve len b = Inl Assert_failed"
  by (simp add: retrieve_def)

lemma retrieve_some:
  "wf_buffer b \<Longrightarrow> retrieve len b = Inr b' \<Longrightarrow>
     wf_buffer b' \<and> contents b' = drop len (contents b) \<and> len \<le> readableBytes b"
  using retrieve_ok [of b len] retrieve_fails [of b len] by (cases "len \<le> readableBytes b") auto

lemma retrieveAll_ok: "wf_buffer b \<Longrightarrow> wf_buffer (retrieveAll b) \<and> contents (retrieveAll b) = []"
  by (auto simp: retrieveAll_def wf_buffer_def contents_def)

lemma window_contents:
  "wf_buffer b \<Longrightarrow> len \<le> readableBytes b \<Longrightarrow>
     take len (drop (peek b) (bufvec b)) = take len (contents b)"
  by (simp add: contents_def peek_def wf_observers min_absorb1)

lemma retrieveAsString_ok:
  assumes wf: "wf_buffer b" and len: "len \<le> readableBytes b"
  shows "\<exists>b'. retrieveAsString len b = Inr (take len (contents b), b') \<and> wf_buffer b'
     \<and> contents b' = drop len (contents b)"
  using retrieve_ok [OF assms] len
  by (auto simp: retrieveAsString_def window_contents [OF assms])

lemma retrieveAllAsString_ok:
  assumes wf: "wf_buffer b"
  shows "\<exists>b'. retrieveAllAsString b = Inr (contents b, b') \<and> wf_buffer b' \<and> contents b' = []"
  using retrieveAsString_ok [OF wf le_refl]
  by (simp add: retrieveAllAsString_def length_contents [OF wf, symmetric])

lemma prepend_ok:
  assumes wf: "wf_buffer b" and len: "length data \<le> prependableBytes b"
  shows "\<exists>b'. prepend data (length data) b = Inr b' \<and> wf_buffer b' \<and> contents b' = data @ contents b
     \<and> writerIndex b' = writerIndex b"
proof -
  note d = wf_bufferD [OF wf]
  let ?r = "readerIndex b - length data"
  let ?v = "take ?r (bufvec b) @ data @ drop (readerIndex b) (bufvec b)"
  have len': "length data \<le> readerIndex b" using len by (simp add: prependableBytes_def)
  have "prepend data (length data) b = Inr (b\<lparr>bufvec := ?v, readerIndex := ?r\<rparr>)"
    using len len' d by (simp add: prepend_def prependableBytes_def Let_def)
  moreover have "wf_buffer (b\<lparr>bufvec := ?v, readerIndex := ?r\<rparr>)"
    using len' d by (auto simp: wf_buffer_def)
  moreover have "contents (b\<lparr>bufvec := ?v, readerIndex := ?r\<rparr>) = data @ contents b"
    using len' d by (simp add: contents_def)
  ultimately show ?thesis by auto
qed

lemma unwrite_ok:
  assumes wf: "wf_buffer b" and len: "len \<le> readableBytes b"
  shows "\<exists>b'. unwrite len b = Inr b' \<and> wf_buffer b'
     \<and> contents b' = take (length (contents b) - len) (contents b)"
  using assms wf_bufferD [OF wf]
  unfolding length_contents [OF wf] wf_observers [OF wf] contents_take
  by (auto simp: unwrite_def wf_buffer_def wf_observers [OF wf])
    (simp add: contents_def diff_commute add.commute [of len])

subsection \<open>Integers in network byte order\<close>

lemma peek_window:
  assumes "wf_buffer b" and "contents b = xs @ ys"
  shows "take (length xs) (drop (peek b) (bufvec b)) = xs" "length xs \<le> readableBytes b"
  using window_contents [OF assms(1), of "length xs"] length_contents [OF assms(1)] assms(2)
  by auto

lemma peekInt_append:
  fixes x :: "'a::len word"
  assumes wf: "wf_buffer b" and c: "contents b = le_bytes n (bswap n x) @ ys"
    and n: "LENGTH('a) = 8 * n"
  shows "bswap n (from_le (take n (drop (peek b) (bufvec b)))) = x" "n \<le> readableBytes b"
  using peek_window [OF wf c] bswap_bswap [OF n] from_le_le_bytes [OF n] by auto

lemma le_bytes_bswap_code: "le_bytes 1 (x :: 8 word) = [x]"
  by simp

lemma endian_wire:
  "le_bytes 8 (hostToNetwork64 x64) = rev (le_bytes 8 x64)"
  "le_bytes 4 (hostToNetwork32 x32) = rev (le_bytes 4 x32)"
  "le_bytes 2 (hostToNetwork16 x16) = rev (le_bytes 2 x16)"
  by (simp_all add: endian_defs le_bytes_bswap)

lemma appendInt_ok:
  assumes wf: "wf_buffer b" and room: "writerIndex b + 8 \<le> max_size"
  shows "\<exists>c. appendInt64 x64 b = Inr c \<and> wf_buffer c
      \<and> contents c = contents b @ le_bytes 8 (hostToNetwork64 x64)"
    "\<exists>c. appendInt32 x32 b = Inr c \<and> wf_buffer c
      \<and> contents c = contents b @ le_bytes 4 (hostToNetwork32 x32)"
    "\<exists>c. appendInt16 x16 b = Inr c \<and> wf_buffer c
      \<and> contents c = contents b @ le_bytes 2 (hostToNetwork16 x16)"
    "\<exists>c. appendInt8 x8 b = Inr c \<and> wf_buffer c \<and> contents c = contents b @ [x8]"
  using append_mem_ok [OF wf, of "le_bytes 8 (hostToNetwork64 x64)"]
    append_mem_ok [OF wf, of "le_bytes 4 (hostToNetwork32 x32)"]
    append_mem_ok [OF wf, of "le_bytes 2 (hostToNetwork16 x16)"]
    append_mem_ok [OF wf, of "[x8]"] room
  by (auto simp: appendInt64_def appendInt32_def appendInt16_def appendInt8_def Let_def
      simp del: le_bytes.simps)

lemma readInt64_ok:
  assumes wf: "wf_buffer b" and c: "contents b = le_bytes 8 (hostToNetwork64 x) @ ys"
  shows "\<exists>b'. readInt64 b = Inr (x, b') \<and> wf_buffer b' \<and> contents b' = ys"
proof -
  note p = peekInt_append [OF wf c [unfolded hostToNetwork64_def], simplified]
  from retrieve_ok [OF wf p(2)] p c show ?thesis
    by (auto simp: readInt64_def peekInt64_def retrieveInt64_def networkToHost64_def)
qed

lemma readInt32_ok:
  assumes wf: "wf_buffer b" and c: "contents b = le_bytes 4 (hostToNetwork32 x) @ ys"
  shows "\<exists>b'. readInt32 b = Inr (x, b') \<and> wf_buffer b' \<and> contents b' = ys"
proof -
  note p = peekInt_append [OF wf c [unfolded hostToNetwork32_def], simplified]
  from retrieve_ok [OF wf p(2)] p c show ?thesis
    by (auto simp: readInt32_def peekInt32_def retrieveInt32_def networkToHost32_def)
qed

lemma readInt16_ok:
  assumes wf: "wf_buffer b" and c: "contents b = le_bytes 2 (hostToNetwork16 x) @ ys"
  shows "\<exists>b'. readInt16 b = Inr (x, b') \<and> wf_buffer b' \<and> contents b' = ys"
proof -
  note p = peekInt_append [OF wf c [unfolded hostToNetwork16_def], simplified]
  from retrieve_ok [OF wf p(2)] p c show ?thesis
    by (auto simp: readInt16_def peekInt16_def retrieveInt16_def networkToHost16_def)
qed

lemma readInt8_ok:
  assumes wf: "wf_buffer b" and c: "contents b = x # ys"
  shows "\<exists>b'. readInt8 b = Inr (x, b') \<and> wf_buffer b' \<and> contents b' = ys"
proof -
  have c': "contents b = [x] @ ys" using c by simp
  note p = peek_window [OF wf c', simplified]
  from p(1) obtain zs where "drop (peek b) (bufvec b) = x # zs"
    by (cases "drop (peek b) (bufvec b)") auto
  then have "bufvec b ! peek b = x" by (rule nth_via_drop)
  then show ?thesis
    using retrieve_ok [OF wf, of 1] p(2) c
    by (auto simp: readInt8_def peekInt8_def retrieveInt8_def)
qed

subsection \<open>Finding a line end\<close>

lemma std_search_spec:
  assumes "first \<le> stop" and "pat \<noteq> []"
  shows "first \<le> std_search v first stop pat \<and> std_search v first stop pat \<le> stop
    \<and> (\<forall>i. first \<le> i \<longrightarrow> i < std_search v first stop pat \<longrightarrow> i + length pat \<le> stop \<longrightarrow>
          take (length pat) (drop i v) \<noteq> pat)
    \<and> (std_search v first stop pat < stop \<longrightarrow>
         std_search v first stop pat + length pat \<le> stop
         \<and> take (length pat) (drop (std_search v first stop pat) v) = pat)"
  using assms
proof (induction v first stop pat rule: std_search.induct)
  case (1 v first stop pat)
  show ?case
  proof (cases "stop < first + length pat \<or> take (length pat) (drop first v) = pat")
    case True
    with 1 show ?thesis by (subst (1 2 3 4 5 6) std_search.simps) auto
  next
    case False
    then have e: "std_search v first stop pat = std_search v (Suc first) stop pat"
      by (subst std_search.simps) auto
    from False 1 have "Suc first \<le> stop" by (cases pat) auto
    with "1.IH" False "1.prems" show ?thesis
      unfolding e by (auto simp: Suc_le_eq) (metis le_less)+
  qed
qed

text \<open>
  \<open>findCRLF\<close> returns the first position of CR LF in the readable bytes, and null when there
  is none. A CR LF of the contents is at a position relative to \<open>peek()\<close>.
\<close>

definition crlf_at :: "byte list \<Rightarrow> nat \<Rightarrow> bool" where
  "crlf_at xs i \<longleftrightarrow> take 2 (drop i xs) = kCRLF"

lemma crlf_at_contents:
  assumes wf: "wf_buffer b" and i: "peek b \<le> i"
  shows "i + 2 \<le> beginWrite b \<and> take 2 (drop i (bufvec b)) = kCRLF
     \<longleftrightarrow> crlf_at (contents b) (i - peek b)"
proof -
  note d = wf_bufferD [OF wf]
  have e: "drop (i - peek b) (contents b) = take (beginWrite b - i) (drop i (bufvec b))"
    using i by (simp add: contents_def drop_take peek_def beginWrite_def)
  show ?thesis
  proof (cases "i + 2 \<le> beginWrite b")
    case True
    then have "min 2 (beginWrite b - i) = 2" by auto
    with True show ?thesis by (simp add: crlf_at_def e)
  next
    case False
    then have "length (take 2 (take (beginWrite b - i) (drop i (bufvec b)))) < 2" by auto
    then have "take 2 (take (beginWrite b - i) (drop i (bufvec b))) \<noteq> kCRLF"
      by (metis kCRLF_def length_Cons list.size(3) less_irrefl numeral_2_eq_2)
    with False show ?thesis by (simp add: crlf_at_def e)
  qed
qed

lemma findCRLF_spec:
  assumes wf: "wf_buffer b"
  shows "findCRLF b = None \<longrightarrow> (\<forall>i. \<not> crlf_at (contents b) i)"
    "findCRLF b = Some p \<longrightarrow> peek b \<le> p \<and> crlf_at (contents b) (p - peek b)
       \<and> (\<forall>i < p - peek b. \<not> crlf_at (contents b) i)"
proof -
  let ?s = "std_search (bufvec b) (peek b) (beginWrite b) kCRLF"
  have k: "kCRLF \<noteq> []" "length kCRLF = 2" by (simp_all add: kCRLF_def)
  have le: "peek b \<le> beginWrite b" using wf_bufferD [OF wf] by (simp add: peek_def beginWrite_def)
  note sp = std_search_spec [OF le k(1), of "bufvec b", unfolded k(2)]
  have none: "\<not> crlf_at (contents b) i" if "peek b + i < ?s" for i
    using sp that crlf_at_contents [OF wf, of "peek b + i"] by auto
  have none': "\<not> crlf_at (contents b) i" if "?s = beginWrite b" for i
  proof (cases "peek b + i < ?s")
    case False
    with that show ?thesis using crlf_at_contents [OF wf, of "peek b + i"] by auto
  qed (rule none)
  show "findCRLF b = None \<longrightarrow> (\<forall>i. \<not> crlf_at (contents b) i)"
    using none' by (auto simp: findCRLF_def Let_def split: if_splits)
  show "findCRLF b = Some p \<longrightarrow> peek b \<le> p \<and> crlf_at (contents b) (p - peek b)
       \<and> (\<forall>i < p - peek b. \<not> crlf_at (contents b) i)"
    using sp none crlf_at_contents [OF wf, of ?s]
    by (auto simp: findCRLF_def Let_def split: if_splits)
qed

subsection \<open>\<open>shrink\<close> and \<open>readFd\<close>\<close>

lemma append_piece_ok:
  assumes wf: "wf_buffer b" and src: "wf_buffer s" and small: "readableBytes s < 2 ^ 31"
    and room: "writerIndex b + readableBytes s \<le> max_size"
  shows "\<exists>b'. append_piece (toStringPiece s) b = Inr b' \<and> wf_buffer b'
     \<and> contents b' = contents b @ contents s"
proof -
  have n: "i32_to_size (piece_len (toStringPiece s)) = length (contents s)"
    using small by (simp add: toStringPiece_def to_i32_id i32_to_size_nonneg length_contents [OF src])
  have m: "take (length (contents s)) (piece_mem (toStringPiece s)) = contents s"
    "length (contents s) \<le> length (piece_mem (toStringPiece s))"
    using window_contents [OF src order_refl] wf_bufferD [OF src]
    by (simp_all add: toStringPiece_def length_contents [OF src] wf_observers [OF src] peek_def
        contents_def)
  have "append_mem (piece_mem (toStringPiece s)) (length (contents s)) b
      = append_mem (contents s) (length (contents s)) b"
    using m by (simp add: append_mem_def)
  then show ?thesis
    using append_mem_ok [OF wf, of "contents s"] room
    by (auto simp: append_piece_def n length_contents [OF src])
qed

lemma shrink_setup:
  assumes small: "n \<le> 2 ^ 62"
  shows "\<exists>o1 o2. newBuffer kInitialSize = Inr o1 \<and> ensureWritableBytes n o1 = Inr o2
     \<and> wf_buffer o2 \<and> contents o2 = [] \<and> writerIndex o2 \<le> 8"
proof -
  obtain o1 where o1: "newBuffer kInitialSize = Inr o1" "wf_buffer o1" "contents o1 = []"
    "writerIndex o1 = 8"
    using newBuffer_ok [of kInitialSize]
    by (auto simp: kInitialSize_def max_size_def kCheapPrepend_def newBuffer_def res_simps
        Let_def)
  with ensureWritableBytes_ok [OF o1(2), of n] small show ?thesis
    by (auto simp: max_size_def)
qed

lemma shrink_ok:
  assumes wf: "wf_buffer b" and small: "readableBytes b < 2 ^ 31"
    and room: "readableBytes b + reserve \<le> 2 ^ 62"
  shows "\<exists>b'. shrink reserve b = Inr b' \<and> wf_buffer b' \<and> contents b' = contents b"
proof -
  from shrink_setup [OF room] obtain o1 o2 where
    o: "newBuffer kInitialSize = Inr o1" "ensureWritableBytes (readableBytes b + reserve) o1 = Inr o2"
    "wf_buffer o2" "contents o2 = []" "writerIndex o2 \<le> 8" by blast
  have sum: "sz_add (readableBytes b) reserve = readableBytes b + reserve"
    using room by (simp add: sz_add_def)
  from append_piece_ok [OF o(3) wf small] o(5) small obtain o3 where
    "append_piece (toStringPiece b) o2 = Inr o3" "wf_buffer o3" "contents o3 = contents b"
    by (auto simp: max_size_def o(4))
  with o(1,2) show ?thesis by (simp add: shrink_def sum swap_def)
qed

text \<open>
  With \<open>2 ^ 31\<close> readable bytes or more the length of the piece is negative, and as a \<open>size_t\<close>
  it is more than a vector can hold.
\<close>

lemma piece_len_negative:
  assumes "2 ^ 31 \<le> readableBytes b" and "readableBytes b < 2 ^ 32"
  shows "i32_to_size (piece_len (toStringPiece b)) = 2 ^ 64 - 2 ^ 32 + readableBytes b"
proof -
  let ?n = "int (readableBytes b)"
  have "(?n + 2 ^ 31) mod 2 ^ 32 = (?n - 2 ^ 31 + 2 ^ 32) mod 2 ^ 32"
    by (simp add: algebra_simps)
  also have "\<dots> = ?n - 2 ^ 31"
    unfolding mod_add_self2 using assms by (intro mod_pos_pos_trivial) simp_all
  finally have "piece_len (toStringPiece b) = ?n - 2 ^ 32"
    by (simp add: toStringPiece_def to_i32_def)
  moreover have "(?n - 2 ^ 32) mod 2 ^ 64 = (?n - 2 ^ 32 + 2 ^ 64) mod 2 ^ 64"
    by (simp only: mod_add_self2)
  then have "(?n - 2 ^ 32) mod 2 ^ 64 = ?n - 2 ^ 32 + 2 ^ 64"
    using assms(2) by simp
  ultimately show ?thesis by (simp add: i32_to_size_def)
qed

lemma append_mem_too_long:
  assumes wf: "wf_buffer b" and big: "2 ^ 63 \<le> len" "writerIndex b + len < 2 ^ 64" "len + 8 < 2 ^ 64"
  shows "append_mem data len b = Inl Length_error"
proof -
  note d = wf_bufferD [OF wf]
  have w: "writableBytes b < len" using big(1) d by (simp add: wf_observers [OF wf] max_size_def)
  have "writableBytes b + prependableBytes b \<le> max_size"
    using d by (simp add: wf_observers [OF wf] prependableBytes_def)
  then have "sz_add (writableBytes b) (prependableBytes b) < sz_add len kCheapPrepend"
    using big by (simp add: sz_add_def max_size_def kCheapPrepend_def)
  moreover have "max_size < sz_add (writerIndex b) len"
    using big by (simp add: sz_add_def max_size_def)
  ultimately show ?thesis
    using w by (simp add: append_mem_def ensureWritableBytes_def makeSpace_def vec_resize_def)
qed

lemma shrink_throws:
  assumes wf: "wf_buffer b" and big: "2 ^ 31 \<le> readableBytes b" "readableBytes b < 2 ^ 32 - 8"
    and reserve: "reserve \<le> 2 ^ 60"
  shows "shrink reserve b = Inl Length_error"
proof -
  have sum: "sz_add (readableBytes b) reserve = readableBytes b + reserve"
    using big(2) reserve by (simp add: sz_add_def)
  from big(2) reserve have "readableBytes b + reserve \<le> 2 ^ 62" by simp
  from shrink_setup [OF this] obtain o1 o2 where
    o: "newBuffer kInitialSize = Inr o1" "ensureWritableBytes (readableBytes b + reserve) o1 = Inr o2"
    "wf_buffer o2" "writerIndex o2 \<le> 8" by blast
  have "append_piece (toStringPiece b) o2 = Inl Length_error"
    unfolding append_piece_def
    by (rule append_mem_too_long [OF o(3)]) (use piece_len_negative [OF big(1)] big o(4) in simp_all)
  with o(1,2) show ?thesis by (simp add: shrink_def sum)
qed

lemma readFd_ok:
  assumes wf: "wf_buffer b" and cap: "length bytes \<le> readv_capacity b"
    and room: "length (bufvec b) + extrabuf_size \<le> max_size"
  shows "\<exists>b'. readFd (Rv_data bytes) b = Inr (int (length bytes), None, b') \<and> wf_buffer b'
     \<and> contents b' = contents b @ bytes"
proof -
  note d = wf_bufferD [OF wf]
  let ?w = "writableBytes b"
  have w: "?w = length (bufvec b) - writerIndex b" by (simp add: wf_observers [OF wf])
  have fit: "writerIndex b + length (take ?w bytes) \<le> length (bufvec b)" using d w by auto
  let ?v = "take (writerIndex b) (bufvec b) @ take ?w bytes
      @ drop (writerIndex b + length (take ?w bytes)) (bufvec b)"
  have len: "length ?v = length (bufvec b)" using fit by simp
  let ?c = "b\<lparr>bufvec := ?v, writerIndex := writerIndex b + length (take ?w bytes)\<rparr>"
  have c: "wf_buffer ?c" "contents ?c = contents b @ take ?w bytes"
    using d fit len by (simp_all add: wf_buffer_def contents_def drop_take)
  show ?thesis
  proof (cases "length bytes \<le> ?w")
    case True
    with c cap fit show ?thesis by (simp add: readFd_def Let_def)
  next
    case False
    then have e: "?c = b\<lparr>bufvec := ?v, writerIndex := length ?v\<rparr>"
      unfolding len using d w by simp
    have "length (drop ?w bytes) \<le> extrabuf_size"
      using cap False by (auto simp: readv_capacity_def Let_def split: if_splits)
    then have "writerIndex ?c + length (drop ?w bytes) \<le> max_size"
      using room fit by simp
    from append_mem_ok [OF c(1) this] obtain b' where
      "append_mem (drop ?w bytes) (length (drop ?w bytes)) ?c = Inr b'" "wf_buffer b'"
      "contents b' = contents ?c @ drop ?w bytes" by blast
    with False cap c(2) show ?thesis
      unfolding e by (simp add: readFd_def Let_def copy_into_Inr [OF fit])
  qed
qed

section \<open>The interface a connection uses\<close>

text \<open>
  A connection uses its buffers as byte queues: it appends what it receives or cannot send yet
  and removes what was consumed. \<open>level\<close> bounds the memory the queue needs.
\<close>

datatype io = Put "byte list" | Get nat

fun put_bytes :: "io list \<Rightarrow> byte list" where
  "put_bytes [] = []"
| "put_bytes (Put d # ios) = d @ put_bytes ios"
| "put_bytes (Get n # ios) = put_bytes ios"

fun io_run :: "(byte list \<Rightarrow> 'q \<Rightarrow> 'q res) \<Rightarrow> (nat \<Rightarrow> 'q \<Rightarrow> 'q res) \<Rightarrow> ('q \<Rightarrow> byte list)
    \<Rightarrow> io list \<Rightarrow> 'q \<Rightarrow> (byte list \<times> 'q) res" where
  "io_run put get q_bytes [] q = Inr ([], q)"
| "io_run put get q_bytes (Put d # ios) q = bindR (put d q) (io_run put get q_bytes ios)"
| "io_run put get q_bytes (Get n # ios) q =
     bindR (get n q) (\<lambda>q'. bindR (io_run put get q_bytes ios q')
       (\<lambda>(out, q''). Inr (take n (q_bytes q) @ out, q'')))"

text \<open>A script of operations never takes more than there is.\<close>

fun io_within :: "io list \<Rightarrow> nat \<Rightarrow> bool" where
  "io_within [] k = True"
| "io_within (Put d # ios) k = io_within ios (k + length d)"
| "io_within (Get n # ios) k = (n \<le> k \<and> io_within ios (k - n))"

locale byte_queue =
  fixes put :: "byte list \<Rightarrow> 'q \<Rightarrow> 'q res"
    and get :: "nat \<Rightarrow> 'q \<Rightarrow> 'q res"
    and q_bytes :: "'q \<Rightarrow> byte list"
    and q_inv :: "'q \<Rightarrow> bool"
    and level :: "'q \<Rightarrow> nat"
    and base :: nat
  assumes put_ok: "q_inv q \<Longrightarrow> level q + length d \<le> max_size \<Longrightarrow>
      \<exists>q'. put d q = Inr q' \<and> q_inv q' \<and> q_bytes q' = q_bytes q @ d
        \<and> level q' \<le> level q + length d"
    and get_ok: "q_inv q \<Longrightarrow> n \<le> length (q_bytes q) \<Longrightarrow>
      \<exists>q'. get n q = Inr q' \<and> q_inv q' \<and> q_bytes q' = drop n (q_bytes q)
        \<and> level q' \<le> max base (level q)"
    and get_fail: "q_inv q \<Longrightarrow> length (q_bytes q) < n \<Longrightarrow> get n q = Inl Assert_failed"
begin

lemma io_run_ok:
  assumes "q_inv q" and "max base (level q) + length (put_bytes ios) \<le> max_size"
    and "io_within ios (length (q_bytes q))"
  shows "\<exists>out q'. io_run put get q_bytes ios q = Inr (out, q') \<and> q_inv q'
     \<and> out @ q_bytes q' = q_bytes q @ put_bytes ios"
  using assms
proof (induction ios arbitrary: q)
  case Nil
  then show ?case by simp
next
  case (Cons io ios)
  show ?case
  proof (cases io)
    case (Put d)
    have "level q + length d \<le> max_size" using Cons.prems(2) Put by simp
    from put_ok [OF Cons.prems(1) this] obtain p where
      p: "put d q = Inr p" "q_inv p" "q_bytes p = q_bytes q @ d" "level p \<le> level q + length d"
      by auto
    with Cons.IH [OF p(2)] Cons.prems(2,3) Put show ?thesis by auto
  next
    case (Get n)
    from get_ok [OF Cons.prems(1), of n] Cons.prems(3) Get obtain p where
      p: "get n q = Inr p" "q_inv p" "q_bytes p = drop n (q_bytes q)" "level p \<le> max base (level q)"
      by auto
    from Cons.prems(2,3) p Get have "max base (level p) + length (put_bytes ios) \<le> max_size"
      and "io_within ios (length (q_bytes p))" by auto
    from Cons.IH [OF p(2) this] p Get show ?thesis
      by (auto simp flip: append_assoc) (metis append_assoc append_take_drop_id)
  qed
qed

end

interpretation buf: byte_queue "\<lambda>d. append_mem d (length d)" retrieve contents wf_buffer writerIndex
  kCheapPrepend
proof unfold_locales
  fix q and d :: "byte list" assume "wf_buffer q" "writerIndex q + length d \<le> max_size"
  then show "\<exists>q'. append_mem d (length d) q = Inr q' \<and> wf_buffer q' \<and> contents q' = contents q @ d
      \<and> writerIndex q' \<le> writerIndex q + length d"
    using append_mem_ok by blast
next
  fix q n assume "wf_buffer q" "n \<le> length (contents q)"
  then show "\<exists>q'. retrieve n q = Inr q' \<and> wf_buffer q' \<and> contents q' = drop n (contents q)
      \<and> writerIndex q' \<le> max kCheapPrepend (writerIndex q)"
    using retrieve_ok [of q n] by (auto simp: length_contents)
next
  fix q n assume "wf_buffer q" "length (contents q) < n"
  then show "retrieve n q = Inl Assert_failed"
    by (simp add: length_contents retrieve_fails)
qed

section \<open>Properties\<close>

text \<open>
  C8. A buffer is a byte stream. From any well-formed buffer, every script of \<open>append\<close> and
  \<open>retrieve\<close> calls that never retrieves more than is readable runs without a failed assertion
  and without an exception (as long as the vector may grow that far), and the bytes that came
  out followed by the bytes still readable are the bytes that were readable followed by the
  bytes appended: nothing is lost, duplicated or reordered by growing or sliding the vector.
\<close>

theorem buffer_stream:
  assumes "wf_buffer b"
    and "max kCheapPrepend (writerIndex b) + length (put_bytes ios) \<le> max_size"
    and "io_within ios (length (contents b))"
  shows "\<exists>out b'. io_run (\<lambda>d. append_mem d (length d)) retrieve contents ios b = Inr (out, b')
     \<and> wf_buffer b' \<and> out @ contents b' = contents b @ put_bytes ios"
  by (rule buf.io_run_ok [OF assms])

text \<open>A buffer with two readable bytes, used by the witnesses.\<close>

definition example_buffer :: buffer where
  "example_buffer = \<lparr>bufvec = [0, 0, 0, 0, 0, 0, 0, 0, 7, 9, 0, 0], readerIndex = 8, writerIndex = 10\<rparr>"

lemma example_buffer_wf: "wf_buffer example_buffer" "contents example_buffer = [7, 9]"
  by (simp_all add: example_buffer_def wf_buffer_def contents_def kCheapPrepend_def max_size_def)

theorem buffer_stream_witness:
  "\<exists>out b'. io_run (\<lambda>d. append_mem d (length d)) retrieve contents
       [Put [1, 2, 3], Get 4, Put [5]] example_buffer = Inr (out, b')
     \<and> wf_buffer b' \<and> out @ contents b' = [7, 9, 1, 2, 3, 5]"
  using buffer_stream [of example_buffer "[Put [1, 2, 3], Get 4, Put [5]]"] example_buffer_wf
  by (simp add: example_buffer_def max_size_def kCheapPrepend_def)

text \<open>
  C20. Round trip of the integer encodings: an integer appended to an empty buffer in network
  byte order is read back unchanged and the buffer is empty again, for the widths 64, 32, 16
  and 8; the bytes on the wire are most significant first.
\<close>

theorem integer_roundtrip:
  assumes "wf_buffer b" and "contents b = []" and "writerIndex b + 8 \<le> max_size"
  shows "(\<exists>c d. appendInt64 x64 b = Inr c \<and> contents c = rev (le_bytes 8 x64)
       \<and> readInt64 c = Inr (x64, d) \<and> contents d = [])
    \<and> (\<exists>c d. appendInt32 x32 b = Inr c \<and> contents c = rev (le_bytes 4 x32)
       \<and> readInt32 c = Inr (x32, d) \<and> contents d = [])
    \<and> (\<exists>c d. appendInt16 x16 b = Inr c \<and> contents c = rev (le_bytes 2 x16)
       \<and> readInt16 c = Inr (x16, d) \<and> contents d = [])
    \<and> (\<exists>c d. appendInt8 x8 b = Inr c \<and> contents c = [x8]
       \<and> readInt8 c = Inr (x8, d) \<and> contents d = [])"
  using appendInt_ok(1) [OF assms(1,3), of x64] appendInt_ok(2) [OF assms(1,3), of x32]
    appendInt_ok(3) [OF assms(1,3), of x16] appendInt_ok(4) [OF assms(1,3), of x8] assms(2)
    readInt64_ok [of _ x64 "[]"] readInt32_ok [of _ x32 "[]"] readInt16_ok [of _ x16 "[]"]
    readInt8_ok [of _ x8 "[]"]
  by (simp add: endian_wire) meson

theorem integer_roundtrip_witness:
  "contents (retrieveAll example_buffer) = [] \<and>
   (\<exists>c d. appendInt32 258 (retrieveAll example_buffer) = Inr c \<and> contents c = rev (le_bytes 4 (258 :: 32 word))
       \<and> readInt32 c = Inr (258, d) \<and> contents d = [])"
  using integer_roundtrip [of "retrieveAll example_buffer" 0 258 0 0]
    retrieveAll_ok [OF example_buffer_wf(1)]
  by (simp add: retrieveAll_def kCheapPrepend_def max_size_def)

text \<open>
  \<open>readFd\<close> delivers exactly what the kernel read. When \<open>readv\<close> stored bytes into the
  writable part of the vector and, beyond it, into the 64 KiB stack block, the call returns
  their number and the bytes are appended in order, whether or not the vector had to grow;
  when \<open>readv\<close> failed, the call returns -1 with the saved \<open>errno\<close> and the buffer is untouched.
\<close>

theorem readFd_delivers:
  assumes "wf_buffer b" and "length bytes \<le> readv_capacity b"
    and "length (bufvec b) + extrabuf_size \<le> max_size"
  shows "(\<exists>b'. readFd (Rv_data bytes) b = Inr (int (length bytes), None, b') \<and> wf_buffer b'
       \<and> contents b' = contents b @ bytes)
    \<and> readFd (Rv_error err) b = Inr (-1, Some err, b)"
  using readFd_ok [OF assms] by (simp add: readFd_def)

theorem readFd_delivers_witness:
  "(\<exists>b'. readFd (Rv_data [1, 2, 3, 4]) example_buffer = Inr (4, None, b') \<and> wf_buffer b'
       \<and> contents b' = [7, 9, 1, 2, 3, 4])
    \<and> readFd (Rv_error 11) example_buffer = Inr (-1, Some 11, example_buffer)"
  using readFd_delivers [of example_buffer "[1, 2, 3, 4]" 11] example_buffer_wf
  by (simp add: example_buffer_def readv_capacity_def extrabuf_size_def max_size_def
      writableBytes_def)

text \<open>
  \<open>findCRLF\<close> finds the first line end: it returns null exactly when the readable bytes hold
  no CR LF, and otherwise the pointer of the first one.
\<close>

theorem findCRLF_first:
  assumes "wf_buffer b"
  shows "case findCRLF b of
      None \<Rightarrow> \<forall>i. \<not> crlf_at (contents b) i
    | Some p \<Rightarrow> peek b \<le> p \<and> crlf_at (contents b) (p - peek b)
        \<and> (\<forall>i < p - peek b. \<not> crlf_at (contents b) i)"
  using findCRLF_spec [OF assms] by (auto split: option.splits)

definition crlf_buffer :: buffer where
  "crlf_buffer = \<lparr>bufvec = [0, 0, 0, 0, 0, 0, 0, 0, 65, 13, 10, 66], readerIndex = 8, writerIndex = 12\<rparr>"

lemma crlf_buffer_wf: "wf_buffer crlf_buffer"
  by (simp add: crlf_buffer_def wf_buffer_def kCheapPrepend_def max_size_def)

theorem findCRLF_first_witness:
  "findCRLF crlf_buffer = Some 9 \<and> crlf_at (contents crlf_buffer) 1"
proof -
  have "findCRLF crlf_buffer = Some 9"
    by (simp add: findCRLF_def crlf_buffer_def peek_def beginWrite_def kCRLF_def std_search.simps)
  with findCRLF_first [OF crlf_buffer_wf] show ?thesis
    by (simp add: crlf_buffer_def peek_def)
qed

text \<open>
  \<open>shrink\<close> keeps the readable bytes as long as there are fewer than \<open>2 ^ 31\<close> of them. From
  \<open>2 ^ 31\<close> bytes on (up to \<open>2 ^ 32 - 9\<close>) it throws \<open>std::length_error\<close>, because
  \<open>toStringPiece\<close> casts the length to a negative \<open>int\<close>.
\<close>

theorem shrink_contents:
  assumes "wf_buffer b" and "readableBytes b < 2 ^ 32 - 8" and "reserve \<le> 2 ^ 60"
  shows "if readableBytes b < 2 ^ 31
     then \<exists>b'. shrink reserve b = Inr b' \<and> wf_buffer b' \<and> contents b' = contents b
     else shrink reserve b = Inl Length_error"
proof (cases "readableBytes b < 2 ^ 31")
  case True
  with shrink_ok [OF assms(1) True, of reserve] assms(3) show ?thesis by simp
next
  case False
  with shrink_throws [OF assms(1), of reserve] assms(2,3) show ?thesis by simp
qed

theorem shrink_contents_witness:
  "\<exists>b'. shrink 16 example_buffer = Inr b' \<and> wf_buffer b' \<and> contents b' = [7, 9]"
  using shrink_contents [of example_buffer 16] example_buffer_wf
  by (simp add: example_buffer_def readableBytes_def)

end
