(* ===== verification/StringPieces.thy ===== *)
theory StringPieces
  imports Buffers "HOL-Library.Sublist"
begin

text \<open>
  \<open>src/src/base/StringPiece.h\<close>: a pointer and an \<open>int\<close> length. A piece is the memory readable from its
  pointer on and that length (\<open>piece\<close> of the theory Buffers); \<open>memcmp\<close> of \<open>n\<close> bytes is undefined when
  fewer are readable on either side, and its result has the sign of the first difference.
\<close>

section \<open>Operations\<close>

fun memcmp_loop :: "nat \<Rightarrow> byte list \<Rightarrow> byte list \<Rightarrow> int" where
  "memcmp_loop (Suc n) (x # xs) (y # ys) = (if x = y then memcmp_loop n xs ys else uint x - uint y)"
| "memcmp_loop _ _ _ = 0"

definition memcmp :: "byte list \<Rightarrow> byte list \<Rightarrow> nat \<Rightarrow> int res" where
  "memcmp p q n = (if n \<le> length p \<and> n \<le> length q then Inr (memcmp_loop n p q) else Inl Undefined)"

definition strlen :: "byte list \<Rightarrow> nat res" where
  "strlen p = (if 0 \<in> set p then Inr (length (takeWhile (\<lambda>b. b \<noteq> 0) p)) else Inl Undefined)"

text \<open>A \<open>StringArg\<close> is a pointer to a C string; that of a \<open>std::string\<close> ends with the terminator of \<open>c_str\<close>.\<close>

definition arg_of_cstr :: "byte list \<Rightarrow> byte list" where
  "arg_of_cstr str = str"

definition arg_of_string :: "byte list \<Rightarrow> byte list" where
  "arg_of_string str = str @ [0]"

definition new_piece :: piece where
  "new_piece = \<lparr>piece_mem = [], piece_len = 0\<rparr>"

definition piece_of_cstr :: "byte list \<Rightarrow> piece res" where
  "piece_of_cstr str = bindR (strlen str) (\<lambda>n. Inr \<lparr>piece_mem = str, piece_len = to_i32 (int n)\<rparr>)"

definition piece_of_mem :: "byte list \<Rightarrow> int \<Rightarrow> piece" where
  "piece_of_mem offset len = \<lparr>piece_mem = offset, piece_len = len\<rparr>"

definition piece_of_string :: "byte list \<Rightarrow> piece" where
  "piece_of_string str = \<lparr>piece_mem = str, piece_len = to_i32 (int (length str))\<rparr>"

definition piece_clear :: "piece \<Rightarrow> piece" where
  "piece_clear s = \<lparr>piece_mem = [], piece_len = 0\<rparr>"

definition piece_set :: "byte list \<Rightarrow> int \<Rightarrow> piece \<Rightarrow> piece" where
  "piece_set buffer len s = \<lparr>piece_mem = buffer, piece_len = len\<rparr>"

definition piece_set_cstr :: "byte list \<Rightarrow> piece \<Rightarrow> piece res" where
  "piece_set_cstr str s = bindR (strlen str) (\<lambda>n. Inr \<lparr>piece_mem = str, piece_len = to_i32 (int n)\<rparr>)"

definition piece_set_void :: "byte list \<Rightarrow> int \<Rightarrow> piece \<Rightarrow> piece" where
  "piece_set_void buffer len s = \<lparr>piece_mem = buffer, piece_len = len\<rparr>"

definition piece_empty :: "piece \<Rightarrow> bool" where
  "piece_empty s \<longleftrightarrow> piece_len s = 0"

definition piece_index :: "piece \<Rightarrow> int \<Rightarrow> byte res" where
  "piece_index s i =
     (if 0 \<le> i \<and> nat i < length (piece_mem s) then Inr (piece_mem s ! nat i) else Inl Undefined)"

text \<open>Moving the pointer past the readable memory is undefined.\<close>

definition remove_prefix :: "int \<Rightarrow> piece \<Rightarrow> piece res" where
  "remove_prefix n s =
     (if 0 \<le> n \<and> nat n \<le> length (piece_mem s)
      then Inr \<lparr>piece_mem = drop (nat n) (piece_mem s), piece_len = piece_len s - n\<rparr>
      else Inl Undefined)"

definition remove_suffix :: "int \<Rightarrow> piece \<Rightarrow> piece" where
  "remove_suffix n s = s\<lparr>piece_len := piece_len s - n\<rparr>"

definition piece_eq :: "piece \<Rightarrow> piece \<Rightarrow> bool res" where
  "piece_eq s x =
     (if piece_len s = piece_len x
      then bindR (memcmp (piece_mem s) (piece_mem x) (i32_to_size (piece_len s))) (\<lambda>r. Inr (r = 0))
      else Inr False)"

definition piece_neq :: "piece \<Rightarrow> piece \<Rightarrow> bool res" where
  "piece_neq s x = bindR (piece_eq s x) (\<lambda>b. Inr (\<not> b))"

definition common_cmp :: "piece \<Rightarrow> piece \<Rightarrow> int res" where
  "common_cmp s x =
     memcmp (piece_mem s) (piece_mem x)
       (i32_to_size (if piece_len s < piece_len x then piece_len s else piece_len x))"

text \<open>The macro \<open>STRINGPIECE_BINARY_PREDICATE(cmp, auxcmp)\<close> and its four uses.\<close>

definition binary_predicate :: "(int \<Rightarrow> int \<Rightarrow> bool) \<Rightarrow> (int \<Rightarrow> int \<Rightarrow> bool) \<Rightarrow> piece \<Rightarrow> piece \<Rightarrow> bool res" where
  "binary_predicate cmp auxcmp s x =
     bindR (common_cmp s x) (\<lambda>r. Inr (auxcmp r 0 \<or> r = 0 \<and> cmp (piece_len s) (piece_len x)))"

definition piece_less :: "piece \<Rightarrow> piece \<Rightarrow> bool res" where
  "piece_less = binary_predicate (<) (<)"

definition piece_less_eq :: "piece \<Rightarrow> piece \<Rightarrow> bool res" where
  "piece_less_eq = binary_predicate (\<le>) (<)"

definition piece_greater_eq :: "piece \<Rightarrow> piece \<Rightarrow> bool res" where
  "piece_greater_eq = binary_predicate (\<ge>) (>)"

definition piece_greater :: "piece \<Rightarrow> piece \<Rightarrow> bool res" where
  "piece_greater = binary_predicate (>) (>)"

definition compare :: "piece \<Rightarrow> piece \<Rightarrow> int res" where
  "compare s x =
     bindR (common_cmp s x) (\<lambda>r.
       Inr (if r = 0 then if piece_len s < piece_len x then -1 else if piece_len s > piece_len x then 1 else r
            else r))"

definition as_string :: "piece \<Rightarrow> byte list res" where
  "as_string s =
     (if i32_to_size (piece_len s) \<le> length (piece_mem s)
      then Inr (take (i32_to_size (piece_len s)) (piece_mem s)) else Inl Undefined)"

definition starts_with :: "piece \<Rightarrow> piece \<Rightarrow> bool res" where
  "starts_with s x =
     (if piece_len s \<ge> piece_len x
      then bindR (memcmp (piece_mem s) (piece_mem x) (i32_to_size (piece_len x))) (\<lambda>r. Inr (r = 0))
      else Inr False)"

section \<open>Pieces as strings\<close>

definition wf_piece :: "piece \<Rightarrow> bool" where
  "wf_piece s \<longleftrightarrow> 0 \<le> piece_len s \<and> piece_len s < 2 ^ 31 \<and> nat (piece_len s) \<le> length (piece_mem s)"

definition text_of_piece :: "piece \<Rightarrow> byte list" where
  "text_of_piece s = take (nat (piece_len s)) (piece_mem s)"

lemma length_text_of_piece: "wf_piece s \<Longrightarrow> int (length (text_of_piece s)) = piece_len s"
  by (simp add: wf_piece_def text_of_piece_def)

text \<open>A piece of a C string is the string up to its terminator, that of a string with no zero byte the whole string.\<close>

lemma piece_of_cstr_text:
  assumes "0 \<in> set str" "length (takeWhile (\<lambda>b. b \<noteq> 0) str) < 2 ^ 31"
  shows "\<exists>s. piece_of_cstr str = Inr s \<and> wf_piece s \<and> text_of_piece s = takeWhile (\<lambda>b. b \<noteq> 0) str
    \<and> as_string s = Inr (takeWhile (\<lambda>b. b \<noteq> 0) str)"
proof -
  let ?n = "length (takeWhile (\<lambda>b. b \<noteq> 0) str)"
  have "take ?n str = takeWhile (\<lambda>b. b \<noteq> 0) str" by (rule takeWhile_eq_take [symmetric])
  moreover have "to_i32 (int ?n) = int ?n" "i32_to_size (int ?n) = ?n"
    using assms(2) by (simp_all add: to_i32_id i32_to_size_nonneg)
  ultimately show ?thesis using assms length_takeWhile_le [of "\<lambda>b. b \<noteq> 0" str]
    by (simp add: piece_of_cstr_def strlen_def wf_piece_def text_of_piece_def as_string_def)
qed

lemma piece_of_arg:
  assumes "0 \<notin> set str" "length str < 2 ^ 31"
  shows "\<exists>s. piece_of_cstr (arg_of_string str) = Inr s \<and> as_string s = Inr str"
proof -
  have "takeWhile (\<lambda>b. b \<noteq> 0) (str @ [0]) = str" using assms(1) by (subst takeWhile_append2) auto
  with piece_of_cstr_text [of "str @ [0]"] assms(2) show ?thesis by (auto simp: arg_of_string_def)
qed

lemma memcmp_take: "memcmp_loop n p q = memcmp_loop n (take n p) (take n q)"
  by (induction n p q rule: memcmp_loop.induct) auto

lemma uint_eq: "uint x = uint y \<longleftrightarrow> x = (y :: byte)"
  by (metis word_uint_eqI)

lemma memcmp_loop_zero: "length xs = length ys \<Longrightarrow> memcmp_loop (length xs) xs ys = 0 \<longleftrightarrow> xs = ys"
  by (induction xs ys rule: list_induct2) (auto simp: uint_eq)

text \<open>The common part decides, and then the lengths do.\<close>

lemma lexordp_memcmp:
  "ord_class.lexordp xs ys \<longleftrightarrow> (let r = memcmp_loop (min (length xs) (length ys)) xs ys in r < 0 \<or> r = 0 \<and> length xs < length ys)"
proof (induction xs arbitrary: ys)
  case Nil
  then show ?case by (cases ys) simp_all
next
  case (Cons x xs)
  show ?case
  proof (cases ys)
    case (Cons y ys')
    show ?thesis
    proof (cases x y rule: linorder_cases)
      case less
      then have "x \<noteq> y" "uint x < uint y" by (auto simp: word_less_def)
      then show ?thesis by (simp add: Cons word_less_def Let_def)
    next
      case equal
      then show ?thesis using Cons.IH [of ys'] by (simp add: Cons)
    next
      case greater
      then have "x \<noteq> y" "uint y < uint x" by (auto simp: word_less_def)
      then show ?thesis by (simp add: Cons word_less_def Let_def)
    qed
  qed simp
qed

lemma memcmp_swap: "memcmp_loop n q p = - memcmp_loop n p q"
  by (induction n p q rule: memcmp_loop.induct) auto

lemma common_cmp_ok:
  assumes "wf_piece s" "wf_piece x"
  shows "common_cmp s x = Inr (memcmp_loop (min (length (text_of_piece s)) (length (text_of_piece x)))
    (text_of_piece s) (text_of_piece x))"
proof -
  let ?n = "min (length (text_of_piece s)) (length (text_of_piece x))"
  have n: "i32_to_size (if piece_len s < piece_len x then piece_len s else piece_len x) = ?n"
    using assms by (auto simp: wf_piece_def text_of_piece_def i32_to_size_nonneg min_def)
  have "take ?n (piece_mem s) = take ?n (text_of_piece s)" "take ?n (piece_mem x) = take ?n (text_of_piece x)"
    using assms by (auto simp: text_of_piece_def wf_piece_def min_def)
  then have "memcmp_loop ?n (piece_mem s) (piece_mem x) = memcmp_loop ?n (text_of_piece s) (text_of_piece x)"
    using memcmp_take [of ?n "piece_mem s" "piece_mem x"] memcmp_take [of ?n "text_of_piece s" "text_of_piece x"] by simp
  moreover have "?n \<le> length (piece_mem s)" "?n \<le> length (piece_mem x)"
    using assms by (auto simp: text_of_piece_def wf_piece_def)
  ultimately show ?thesis by (simp add: common_cmp_def n memcmp_def)
qed

lemma lexordp_eq_not: "ord_class.lexordp_eq xs (ys :: byte list) \<longleftrightarrow> \<not> ord_class.lexordp ys xs"
  by (induction xs arbitrary: ys; case_tac ys) auto

text \<open>
  C37. The comparisons of pieces are those of the strings they stand for: \<open>==\<close> is equality, the four
  order operators are the lexicographic order of unsigned bytes, \<open>compare\<close> has the sign of that order,
  and \<open>starts_with\<close> is the prefix relation; none reads outside either piece.
\<close>

theorem string_piece_order:
  assumes "wf_piece s" "wf_piece x"
  shows "piece_eq s x = Inr (text_of_piece s = text_of_piece x)
    \<and> piece_less s x = Inr (ord_class.lexordp (text_of_piece s) (text_of_piece x))
    \<and> piece_less_eq s x = Inr (ord_class.lexordp_eq (text_of_piece s) (text_of_piece x))
    \<and> piece_greater s x = Inr (ord_class.lexordp (text_of_piece x) (text_of_piece s))
    \<and> piece_greater_eq s x = Inr (ord_class.lexordp_eq (text_of_piece x) (text_of_piece s))
    \<and> (\<exists>r. compare s x = Inr r \<and> (r < 0) = ord_class.lexordp (text_of_piece s) (text_of_piece x)
        \<and> (r > 0) = ord_class.lexordp (text_of_piece x) (text_of_piece s))
    \<and> starts_with s x = Inr (prefix (text_of_piece x) (text_of_piece s))"
proof -
  let ?s = "text_of_piece s" and ?x = "text_of_piece x"
  let ?n = "min (length ?s) (length ?x)"
  let ?r = "memcmp_loop ?n ?s ?x"
  note c = common_cmp_ok [OF assms]
  have len: "piece_len s = int (length ?s)" "piece_len x = int (length ?x)"
    using assms by (simp_all add: length_text_of_piece)
  have lt: "ord_class.lexordp ?s ?x \<longleftrightarrow> ?r < 0 \<or> ?r = 0 \<and> length ?s < length ?x"
    using lexordp_memcmp [of ?s ?x] by (simp add: Let_def)
  have gt: "ord_class.lexordp ?x ?s \<longleftrightarrow> ?r > 0 \<or> ?r = 0 \<and> length ?x < length ?s"
    using lexordp_memcmp [of ?x ?s] memcmp_swap [of ?n ?x ?s] by (simp add: Let_def min.commute)
  have eq: "piece_eq s x = Inr (?s = ?x)"
  proof (cases "length ?s = length ?x")
    case True
    then have "memcmp (piece_mem s) (piece_mem x) (i32_to_size (piece_len s)) = Inr ?r"
      using c len by (simp add: common_cmp_def)
    moreover have "?r = 0 \<longleftrightarrow> ?s = ?x" using memcmp_loop_zero [OF True] True by simp
    ultimately show ?thesis using True len by (simp add: piece_eq_def)
  next
    case False
    then show ?thesis using len by (auto simp: piece_eq_def)
  qed
  have starts: "starts_with s x = Inr (prefix ?x ?s)"
  proof (cases "length ?x \<le> length ?s")
    case True
    then have "memcmp (piece_mem s) (piece_mem x) (i32_to_size (piece_len x)) = Inr ?r"
      using c len by (simp add: common_cmp_def)
    moreover have "?n = length ?x" using True by simp
    moreover have "memcmp_loop (length ?x) ?s ?x = memcmp_loop (length ?x) (take (length ?x) ?s) ?x"
      by (subst memcmp_take) simp
    moreover have "length (take (length ?x) ?s) = length ?x" using True by simp
    then have "memcmp_loop (length ?x) (take (length ?x) ?s) ?x = 0 \<longleftrightarrow> take (length ?x) ?s = ?x"
      using memcmp_loop_zero [of "take (length ?x) ?s" ?x] by metis
    moreover have "take (length ?x) ?s = ?x \<longleftrightarrow> prefix ?x ?s"
      by (metis append_take_drop_id prefixI append_eq_conv_conj prefixE)
    ultimately show ?thesis using True len by (simp add: starts_with_def)
  next
    case False
    then show ?thesis using len prefix_length_le [of ?x ?s] by (auto simp: starts_with_def)
  qed
  have "piece_less s x = Inr (ord_class.lexordp ?s ?x)" "piece_less_eq s x = Inr (ord_class.lexordp_eq ?s ?x)"
    "piece_greater s x = Inr (ord_class.lexordp ?x ?s)" "piece_greater_eq s x = Inr (ord_class.lexordp_eq ?x ?s)"
    unfolding lexordp_eq_not lt gt piece_less_def piece_less_eq_def piece_greater_def piece_greater_eq_def
      binary_predicate_def c bindR_Inr len by auto
  moreover have "\<exists>r. compare s x = Inr r \<and> (r < 0) = ord_class.lexordp ?s ?x \<and> (r > 0) = ord_class.lexordp ?x ?s"
    unfolding lt gt compare_def c bindR_Inr len by auto
  ultimately show ?thesis using eq starts by blast
qed

lemma string_piece_order_witness:
  "piece_less (piece_of_string [1, 255]) (piece_of_string [2]) = Inr True
    \<and> starts_with (piece_of_string [1, 255]) (piece_of_string [1]) = Inr True
    \<and> piece_greater (piece_of_string [1, 255]) (piece_of_string [1]) = Inr True"
proof -
  have w: "wf_piece (piece_of_string [1, 255])" "wf_piece (piece_of_string [2])" "wf_piece (piece_of_string [1])"
    by (simp_all add: wf_piece_def piece_of_string_def to_i32_def)
  show ?thesis
    using string_piece_order [OF w(1,2)] string_piece_order [OF w(1,3)]
    by (simp add: text_of_piece_def piece_of_string_def to_i32_def)
qed

text \<open>Dropping from either end, within the piece.\<close>

lemma remove_ok:
  assumes "wf_piece s" "0 \<le> n" "n \<le> piece_len s"
  shows "\<exists>t. remove_prefix n s = Inr t \<and> wf_piece t \<and> text_of_piece t = drop (nat n) (text_of_piece s)"
    and "wf_piece (remove_suffix n s) \<and> text_of_piece (remove_suffix n s) = take (nat (piece_len s - n)) (text_of_piece s)"
  using assms by (auto simp: remove_prefix_def remove_suffix_def wf_piece_def text_of_piece_def drop_take nat_diff_distrib min_def)

end
