(* ===== verification/Formats.thy ===== *)
theory Formats
  imports Prelude
begin

text \<open>
  The part of \<open>printf\<close> the program uses: \<open>%d\<close> with a width and zero padding, and the
  truncation of \<open>snprintf\<close>. Text is a \<open>string\<close>, a list of 8-bit characters.
\<close>

section \<open>Decimal text\<close>

definition digit_char :: "nat \<Rightarrow> char" where
  "digit_char d = char_of (48 + d)"

definition char_digit :: "char \<Rightarrow> nat" where
  "char_digit c = of_char c - 48"

fun nat_str :: "nat \<Rightarrow> string" where
  "nat_str n = (if n < 10 then [digit_char n] else nat_str (n div 10) @ [digit_char (n mod 10)])"

declare nat_str.simps [simp del]

text \<open>\<open>%d\<close>, \<open>%0wd\<close> and \<open>%wd\<close>.\<close>

definition fmt_d :: "int \<Rightarrow> string" where
  "fmt_d x = (if x < 0 then CHR ''-'' # nat_str (nat (- x)) else nat_str (nat x))"

definition pad_left :: "char \<Rightarrow> nat \<Rightarrow> string \<Rightarrow> string" where
  "pad_left c w s = replicate (w - length s) c @ s"

definition fmt_wd :: "nat \<Rightarrow> int \<Rightarrow> string" where
  "fmt_wd w x = pad_left CHR '' '' w (fmt_d x)"

definition fmt_0wd :: "nat \<Rightarrow> int \<Rightarrow> string" where
  "fmt_0wd w x = (if x < 0 then CHR ''-'' # pad_left CHR ''0'' (w - 1) (nat_str (nat (- x)))
                  else pad_left CHR ''0'' w (nat_str (nat x)))"

text \<open>
  \<open>snprintf(buf, size, ...)\<close>: the text left in the buffer (without its terminator) and the
  returned length, which is that of the whole text.
\<close>

definition snprintf :: "nat \<Rightarrow> string \<Rightarrow> string \<times> int" where
  "snprintf n s = (take (n - 1) s, int (length s))"

section \<open>Reading decimal text\<close>

definition digits_val :: "string \<Rightarrow> nat" where
  "digits_val s = foldl (\<lambda>v c. 10 * v + char_digit c) 0 s"

definition str_val :: "string \<Rightarrow> int" where
  "str_val s = (case s of [] \<Rightarrow> 0
     | c # cs \<Rightarrow> if c = CHR ''-'' then - int (digits_val cs) else int (digits_val s))"

section \<open>Lemmas\<close>

lemma char_digit_char [simp]: "d < 10 \<Longrightarrow> char_digit (digit_char d) = d"
  by (simp add: char_digit_def digit_char_def of_char_of)

lemma digit_char_not_minus [simp]: "d < 10 \<Longrightarrow> digit_char d \<noteq> CHR ''-''"
proof
  assume "d < 10" and "digit_char d = CHR ''-''"
  then have "of_char (digit_char d) = (45 :: nat)" by simp
  with \<open>d < 10\<close> show False by (simp add: digit_char_def of_char_of)
qed

lemma nat_str_small: "n < 10 \<Longrightarrow> nat_str n = [digit_char n]"
  by (subst nat_str.simps) simp

lemma nat_str_step: "\<not> n < 10 \<Longrightarrow> nat_str n = nat_str (n div 10) @ [digit_char (n mod 10)]"
  by (subst nat_str.simps) simp

lemma nat_str_not_Nil [simp]: "nat_str n \<noteq> []"
  by (cases "n < 10") (simp_all add: nat_str_small nat_str_step)

lemma length_nat_str_pos [simp]: "0 < length (nat_str n)"
  by simp

lemma digits_val_snoc [simp]: "digits_val (s @ [c]) = 10 * digits_val s + char_digit c"
  by (simp add: digits_val_def)

lemma digits_val_nat_str [simp]: "digits_val (nat_str n) = n"
proof (induction n rule: nat_str.induct)
  case (1 n)
  show ?case
  proof (cases "n < 10")
    case True
    then show ?thesis by (simp add: nat_str_small digits_val_def)
  next
    case False
    with 1 show ?thesis by (simp add: nat_str_step)
  qed
qed

lemma hd_nat_str: "hd (nat_str n) \<noteq> CHR ''-''"
proof (induction n rule: nat_str.induct)
  case (1 n)
  then show ?case by (cases "n < 10") (simp_all add: nat_str_small nat_str_step)
qed

lemma str_val_nat_str [simp]: "str_val (nat_str n) = int n"
proof -
  obtain c cs where e: "nat_str n = c # cs" by (cases "nat_str n") auto
  with hd_nat_str [of n] have "c \<noteq> CHR ''-''" by simp
  then have "str_val (nat_str n) = int (digits_val (nat_str n))" by (simp add: str_val_def e)
  then show ?thesis by simp
qed

lemma str_val_fmt_d [simp]: "str_val (fmt_d x) = x"
proof (cases "x < 0")
  case True
  then show ?thesis by (simp add: fmt_d_def str_val_def)
next
  case False
  then show ?thesis by (simp add: fmt_d_def)
qed

lemma length_nat_str_le: "n < 10 ^ Suc k \<Longrightarrow> length (nat_str n) \<le> Suc k"
proof (induction k arbitrary: n)
  case 0
  then show ?case by (simp add: nat_str_small)
next
  case (Suc k)
  show ?case
  proof (cases "n < 10")
    case True
    then show ?thesis by (simp add: nat_str_small)
  next
    case False
    from Suc.prems have "n div 10 < 10 ^ Suc k" by auto
    from Suc.IH [OF this] False show ?thesis by (simp add: nat_str_step)
  qed
qed

lemma length_nat_str_ge: "10 ^ k \<le> n \<Longrightarrow> Suc k \<le> length (nat_str n)"
proof (induction k arbitrary: n)
  case 0
  then show ?case by (simp add: Suc_leI)
next
  case (Suc k)
  then have "\<not> n < 10" by (simp add: not_less) (metis le_trans mult_le_mono2 mult.right_neutral one_le_numeral one_le_power)
  from Suc.prems have "10 ^ k \<le> n div 10" by (simp add: less_eq_div_iff_mult_less_eq mult.commute)
  from Suc.IH [OF this] \<open>\<not> n < 10\<close> show ?case by (simp add: nat_str_step)
qed

lemma length_pad_left [simp]: "length (pad_left c w s) = max w (length s)"
  by (simp add: pad_left_def)

lemma length_fmt_0wd:
  assumes "0 \<le> x" and "x < 10 ^ Suc k" and "w = Suc k"
  shows "length (fmt_0wd w x) = w"
proof -
  have "nat x < 10 ^ Suc k" using assms(1,2) by (simp add: nat_less_iff)
  from length_nat_str_le [OF this] assms show ?thesis by (simp add: fmt_0wd_def)
qed

lemma digits_val_zeros [simp]: "digits_val (replicate n CHR ''0'' @ s) = digits_val s"
proof -
  have z: "foldl (\<lambda>v c. 10 * v + char_digit c) 0 (replicate n CHR ''0'') = 0"
    by (induction n) (simp_all add: char_digit_def)
  show ?thesis by (simp add: digits_val_def z)
qed

lemma digits_val_fmt_0wd [simp]: "0 \<le> x \<Longrightarrow> digits_val (fmt_0wd w x) = nat x"
  by (simp add: fmt_0wd_def pad_left_def)

lemma fmt_wd_exact:
  assumes "10 ^ k \<le> x" and "x < 10 ^ Suc k" and "w = Suc k"
  shows "fmt_wd w x = nat_str (nat x)" "length (nat_str (nat x)) = w"
proof -
  have x0: "0 \<le> x" using assms(1) by (smt (verit) zero_le_power)
  have "nat x < 10 ^ Suc k" using assms(2) x0 by (simp add: nat_less_iff)
  from length_nat_str_le [OF this] have "length (nat_str (nat x)) \<le> w" using assms(3) by simp
  moreover have "10 ^ k \<le> nat x" using assms(1) x0 by (simp add: nat_le_iff le_nat_iff)
  from length_nat_str_ge [OF this] have "w \<le> length (nat_str (nat x))" using assms(3) by simp
  ultimately show "length (nat_str (nat x)) = w" by simp
  with x0 show "fmt_wd w x = nat_str (nat x)"
    by (simp add: fmt_wd_def fmt_d_def pad_left_def)
qed

end
