(* ===== verification/Dates.thy ===== *)
theory Dates
  imports Formats
begin

text \<open>
  \<open>src/src/base/Date.h\<close> and \<open>Date.cc\<close>: a calendar date as its Julian day number. \<open>int\<close>
  division is C++ division, \<open>sdiv\<close>, which truncates towards zero.
\<close>

section \<open>Translation\<close>

record date =
  julianDayNumber :: int

record YearMonthDay =
  ymd_year :: int
  ymd_month :: int
  ymd_day :: int

definition kDaysPerWeek :: int where
  "kDaysPerWeek = 7"

text \<open>
  The arithmetic is that of 32-bit \<open>int\<close>. The definitions list the value of every operation of the
  source in the order it is computed; when one of them does not fit, the computation overflows, which
  is undefined in C++, and there is no result.
\<close>

definition in_ints :: "int list \<Rightarrow> 'a \<Rightarrow> 'a res" where
  "in_ints values r = (if \<forall>v \<in> set values. i32_ok v then Inr r else Inl Undefined)"

definition getJulianDayNumber :: "int \<Rightarrow> int \<Rightarrow> int \<Rightarrow> int res" where
  "getJulianDayNumber year month day =
     (let a = (14 - month) sdiv 12;
          y = year + 4800 - a;
          m = month + 12 * a - 3;
          s1 = day + (153 * m + 2) sdiv 5;
          s2 = s1 + y * 365;
          s3 = s2 + y sdiv 4;
          s4 = s3 - y sdiv 100;
          s5 = s4 + y sdiv 400
      in in_ints [14 - month, year + 4800, y, 12 * a, month + 12 * a, m, 153 * m, 153 * m + 2, s1,
           y * 365, s2, s3, s4, s5, s5 - 32045] (s5 - 32045))"

definition getYearMonthDay :: "int \<Rightarrow> YearMonthDay res" where
  "getYearMonthDay jdn =
     (let a = jdn + 32044;
          b = (4 * a + 3) sdiv 146097;
          c = a - (b * 146097) sdiv 4;
          d = (4 * c + 3) sdiv 1461;
          e = c - (1461 * d) sdiv 4;
          m = (5 * e + 2) sdiv 153;
          day = e - (153 * m + 2) sdiv 5 + 1;
          month = m + 3 - 12 * (m sdiv 10);
          year = b * 100 + d - 4800 + m sdiv 10
      in in_ints [a, 4 * a, 4 * a + 3, b * 146097, c, 4 * c, 4 * c + 3, 1461 * d, e, 5 * e, 5 * e + 2,
           153 * m, 153 * m + 2, e - (153 * m + 2) sdiv 5, day, m + 3, 12 * (m sdiv 10), month,
           b * 100, b * 100 + d, b * 100 + d - 4800, year]
           \<lparr>ymd_year = year, ymd_month = month, ymd_day = day\<rparr>)"

definition kJulianDayOf1970_01_01 :: int where
  "kJulianDayOf1970_01_01 = (case getJulianDayNumber 1970 1 1 of Inl _ \<Rightarrow> 0 | Inr n \<Rightarrow> n)"

definition invalid_date :: date where
  "invalid_date = \<lparr>julianDayNumber = 0\<rparr>"

definition mk_date :: "int \<Rightarrow> int \<Rightarrow> int \<Rightarrow> date res" where
  "mk_date y m d = bindR (getJulianDayNumber y m d) (\<lambda>n. Inr \<lparr>julianDayNumber = n\<rparr>)"

definition date_of_jdn :: "int \<Rightarrow> date" where
  "date_of_jdn julianDayNum = \<lparr>julianDayNumber = julianDayNum\<rparr>"

text \<open>The fields of \<open>struct tm\<close> the program reads.\<close>

record tm =
  tm_year :: int
  tm_mon :: int
  tm_mday :: int
  tm_hour :: int
  tm_min :: int
  tm_sec :: int

definition date_of_tm :: "tm \<Rightarrow> date res" where
  "date_of_tm t =
     bindR (in_ints [tm_year t + 1900, tm_mon t + 1] ()) (\<lambda>_.
     mk_date (tm_year t + 1900) (tm_mon t + 1) (tm_mday t))"

definition date_valid :: "date \<Rightarrow> bool" where
  "date_valid d \<longleftrightarrow> julianDayNumber d > 0"

definition yearMonthDay :: "date \<Rightarrow> YearMonthDay res" where
  "yearMonthDay d = getYearMonthDay (julianDayNumber d)"

definition date_year :: "date \<Rightarrow> int res" where
  "date_year d = bindR (yearMonthDay d) (\<lambda>r. Inr (ymd_year r))"

definition date_month :: "date \<Rightarrow> int res" where
  "date_month d = bindR (yearMonthDay d) (\<lambda>r. Inr (ymd_month r))"

definition date_day :: "date \<Rightarrow> int res" where
  "date_day d = bindR (yearMonthDay d) (\<lambda>r. Inr (ymd_day r))"

definition weekDay :: "date \<Rightarrow> int res" where
  "weekDay d = in_ints [julianDayNumber d + 1] ((julianDayNumber d + 1) smod kDaysPerWeek)"

definition date_less :: "date \<Rightarrow> date \<Rightarrow> bool" where
  "date_less x y \<longleftrightarrow> julianDayNumber x < julianDayNumber y"

definition date_equal :: "date \<Rightarrow> date \<Rightarrow> bool" where
  "date_equal x y \<longleftrightarrow> julianDayNumber x = julianDayNumber y"

definition date_swap :: "date \<Rightarrow> date \<Rightarrow> date \<times> date" where
  "date_swap d that = (that, d)"

definition date_toIsoString :: "date \<Rightarrow> string res" where
  "date_toIsoString d =
     bindR (yearMonthDay d) (\<lambda>ymd.
     Inr (fst (snprintf 32 (fmt_wd 4 (ymd_year ymd) @ ''-'' @ fmt_0wd 2 (ymd_month ymd) @ ''-''
            @ fmt_0wd 2 (ymd_day ymd)))))"

section \<open>The Gregorian calendar\<close>

text \<open>
  The specification: which dates exist and which day follows which, with no reference to the
  formulas above.
\<close>

definition leap_year :: "int \<Rightarrow> bool" where
  "leap_year y \<longleftrightarrow> 4 dvd y \<and> (\<not> 100 dvd y \<or> 400 dvd y)"

definition days_in_month :: "int \<Rightarrow> int \<Rightarrow> int" where
  "days_in_month y m =
     (if m = 2 then (if leap_year y then 29 else 28)
      else if m \<in> {4, 6, 9, 11} then 30 else 31)"

definition civil :: "int \<Rightarrow> int \<Rightarrow> int \<Rightarrow> bool" where
  "civil y m d \<longleftrightarrow> 1 \<le> m \<and> m \<le> 12 \<and> 1 \<le> d \<and> d \<le> days_in_month y m"

definition next_day :: "int \<times> int \<times> int \<Rightarrow> int \<times> int \<times> int" where
  "next_day = (\<lambda>(y, m, d).
     if d < days_in_month y m then (y, m, d + 1)
     else if m < 12 then (y, m + 1, 1) else (y + 1, 1, 1))"

text \<open>The two formulas of the code on unbounded integers.\<close>

definition jdn_of :: "int \<Rightarrow> int \<Rightarrow> int \<Rightarrow> int" where
  "jdn_of year month day =
     (let a = (14 - month) sdiv 12;
          y = year + 4800 - a;
          m = month + 12 * a - 3
      in day + (153 * m + 2) sdiv 5 + y * 365 + y sdiv 4 - y sdiv 100 + y sdiv 400 - 32045)"

definition ymd_of :: "int \<Rightarrow> YearMonthDay" where
  "ymd_of jdn =
     (let a = jdn + 32044;
          b = (4 * a + 3) sdiv 146097;
          c = a - (b * 146097) sdiv 4;
          d = (4 * c + 3) sdiv 1461;
          e = c - (1461 * d) sdiv 4;
          m = (5 * e + 2) sdiv 153
      in \<lparr>ymd_year = b * 100 + d - 4800 + m sdiv 10,
          ymd_month = m + 3 - 12 * (m sdiv 10),
          ymd_day = e - (153 * m + 2) sdiv 5 + 1\<rparr>)"

section \<open>Lemmas\<close>

text \<open>Months counted from March, and the days of the year before a month.\<close>

definition march_month :: "int \<Rightarrow> int" where
  "march_month m = (if m \<le> 2 then m + 9 else m - 3)"

definition march_year :: "int \<Rightarrow> int \<Rightarrow> int" where
  "march_year y m = (if m \<le> 2 then y + 4799 else y + 4800)"

definition year_days :: "int \<Rightarrow> int" where
  "year_days y = y * 365 + y div 4 - y div 100 + y div 400"

lemma jdn_march:
  assumes "1 \<le> m" "m \<le> 12" and "-4799 \<le> y"
  shows "jdn_of y m d =
    d + (153 * march_month m + 2) div 5 + year_days (march_year y m) - 32045"
proof (cases "m \<le> 2")
  case True
  with assms have "(14 - m) sdiv 12 = 1" by (simp add: sdiv_nonneg)
  with True assms show ?thesis
    by (simp add: jdn_of_def Let_def march_month_def march_year_def sdiv_nonneg
        year_days_def algebra_simps)
next
  case False
  with assms have "(14 - m) sdiv 12 = 0" by (simp add: sdiv_nonneg)
  with False assms show ?thesis
    by (simp add: jdn_of_def Let_def march_month_def march_year_def sdiv_nonneg
        year_days_def)
qed

lemma month_cases:
  assumes "1 \<le> m" "m \<le> (12 :: int)"
  obtains "m = 1" | "m = 2" | "m = 3" | "m = 4" | "m = 5" | "m = 6" | "m = 7" | "m = 8" | "m = 9"
    | "m = 10" | "m = 11" | "m = 12"
proof -
  have "m = 1 \<or> m = 2 \<or> m = 3 \<or> m = 4 \<or> m = 5 \<or> m = 6 \<or> m = 7 \<or> m = 8 \<or> m = 9
    \<or> m = 10 \<or> m = 11 \<or> m = 12"
    using assms by presburger
  with that show ?thesis by blast
qed

text \<open>The steps of the year terms.\<close>

lemma div_step:
  fixes y k :: int
  assumes "0 < k"
  shows "(y + 1) div k = y div k + (if k dvd y + 1 then 1 else 0)"
proof -
  let ?q = "y div k" and ?r = "y mod k"
  have e: "y + 1 = (?r + 1) + k * ?q" by simp
  have r: "0 \<le> ?r" "?r < k" using assms by simp_all
  show ?thesis
  proof (cases "?r + 1 = k")
    case True
    then have e': "y + 1 = k * (?q + 1)" using e by (simp add: algebra_simps)
    then have "k dvd y + 1" by simp
    moreover have "(y + 1) div k = ?q + 1" using assms unfolding e' by simp
    ultimately show ?thesis by simp
  next
    case False
    with r have s: "0 < ?r + 1" "?r + 1 < k" by simp_all
    have "(y + 1) mod k = ?r + 1" using e s by (intro int_mod_pos_eq [where q = ?q]) simp_all
    with s have "\<not> k dvd y + 1" by (simp add: dvd_eq_mod_eq_0)
    moreover have "(y + 1) div k = ?q" using e s by (intro int_div_pos_eq [where r = "?r + 1"]) simp_all
    ultimately show ?thesis by simp
  qed
qed

lemma year_steps:
  fixes y :: int
  shows "(y + 1) div 4 = y div 4 + (if 4 dvd y + 1 then 1 else 0)"
    "(y + 1) div 100 = y div 100 + (if 100 dvd y + 1 then 1 else 0)"
    "(y + 1) div 400 = y div 400 + (if 400 dvd y + 1 then 1 else 0)"
  by (rule div_step, simp)+

lemma leap_shift:
  "leap_year y \<longleftrightarrow> 4 dvd (y + 4800) \<and> (\<not> 100 dvd (y + 4800) \<or> 400 dvd (y + 4800))"
  by (simp add: leap_year_def dvd_add_left_iff)

lemma leap_dvd: "100 dvd (y :: int) \<Longrightarrow> 4 dvd y" "400 dvd y \<Longrightarrow> 100 dvd y"
  by (auto elim: dvd_trans [rotated])

lemma year_days_Suc:
  "year_days (y + 1) = year_days y + 365
     + (if 4 dvd y + 1 \<and> (\<not> 100 dvd y + 1 \<or> 400 dvd y + 1) then 1 else 0)"
  using leap_dvd [of "y + 1"] unfolding year_days_def year_steps
  by (cases "400 dvd y + 1"; cases "100 dvd y + 1"; cases "4 dvd y + 1") simp_all

lemma year_days_step:
  "year_days (y + 4800) = year_days (y + 4799) + 365 + (if leap_year y then 1 else 0)"
  using year_days_Suc [of "y + 4799"] by (simp add: leap_shift add.commute [of 4800])

text \<open>Consecutive days have consecutive numbers.\<close>

lemma jdn_next_month:
  assumes "-4799 \<le> y" and m: "1 \<le> m" "m < 12"
  shows "jdn_of y (m + 1) 1 = jdn_of y m (days_in_month y m) + 1"
proof (cases "m = 2")
  case True
  show ?thesis
    using assms True
    by (simp add: jdn_march march_month_def march_year_def days_in_month_def year_days_step)
next
  case False
  show ?thesis
    by (rule month_cases [of m])
      (use assms False in \<open>simp_all add: jdn_march march_month_def march_year_def days_in_month_def\<close>)
qed

lemma jdn_next_year:
  assumes "-4799 \<le> y"
  shows "jdn_of (y + 1) 1 1 = jdn_of y 12 31 + 1"
  using assms by (simp add: jdn_march march_month_def march_year_def add.commute)

lemma jdn_next_day:
  assumes c: "civil y m d" and y: "-4799 \<le> y" and n: "next_day (y, m, d) = (y', m', d')"
  shows "jdn_of y' m' d' = jdn_of y m d + 1"
proof -
  from c have m: "1 \<le> m" "m \<le> 12" and d: "\<not> d < days_in_month y m \<Longrightarrow> d = days_in_month y m"
    by (auto simp: civil_def)
  consider "d < days_in_month y m" | "\<not> d < days_in_month y m" "m < 12"
    | "\<not> d < days_in_month y m" "m = 12" using m by linarith
  then show ?thesis
  proof cases
    case 1
    with n m y show ?thesis by (auto simp: next_day_def jdn_march)
  next
    case 2
    with n jdn_next_month [OF y m(1) 2(2)] d show ?thesis by (auto simp: next_day_def)
  next
    case 3
    with n jdn_next_year [OF y] d show ?thesis by (auto simp: next_day_def days_in_month_def)
  qed
qed

section \<open>Inverting the day number\<close>

text \<open>
  A day is split by the code into a century \<open>C\<close>, a year \<open>Y\<close> of it (both counted from 1 March)
  and a day \<open>e\<close> of that year. Each division recovers one of them.
\<close>

lemma century_split:
  fixes C Y e :: int
  assumes "0 \<le> C" "0 \<le> Y" "Y < 100" "0 \<le> e" "e \<le> 365"
    and last: "e = 365 \<longrightarrow> Y mod 4 = 3 \<and> (Y = 99 \<longrightarrow> C mod 4 = 3)"
    and N: "N = 36524 * C + C div 4 + (365 * Y + Y div 4 + e)"
  shows "(4 * N + 3) div 146097 = C"
    and "N - (C * 146097) div 4 = 365 * Y + Y div 4 + e"
proof -
  let ?R = "365 * Y + Y div 4 + e"
  have C4: "4 * (C div 4) = C - C mod 4" by (simp add: minus_mod_eq_mult_div)
  have e1: "4 * N + 3 = 146097 * C + (4 * ?R + 3 - C mod 4)" using C4 N by simp
  have small: "C mod 4 < 4" "0 \<le> Y div 4" using assms(2) by simp_all
  have "0 \<le> 4 * (365 * Y + q + e) + 3 - r" if "r < 4" "0 \<le> q" for q r :: int
    using that assms(2,4) by arith
  then have lo: "0 \<le> 4 * ?R + 3 - C mod 4" using small by blast
  have hi: "4 * ?R + 3 - C mod 4 < 146097"
  proof (cases "Y = 99")
    case True
    then show ?thesis using assms(5) last by (cases "e = 365") auto
  next
    case False
    then have "Y \<le> 98" using assms(3) by simp
    moreover from this have "Y div 4 \<le> 24" by simp
    ultimately show ?thesis using assms(5) by (smt (verit) pos_mod_sign)
  qed
  show "(4 * N + 3) div 146097 = C" using e1 lo hi by (rule int_div_pos_eq)
  have "(C * 146097) div 4 = 36524 * C + C div 4" by simp
  with N show "N - (C * 146097) div 4 = ?R" by simp
qed

lemma year_split:
  fixes Y e :: int
  assumes "0 \<le> Y" "0 \<le> e" "e \<le> 365" and last: "e = 365 \<longrightarrow> Y mod 4 = 3"
    and R: "R = 365 * Y + Y div 4 + e"
  shows "(4 * R + 3) div 1461 = Y" and "R - (1461 * Y) div 4 = e"
proof -
  have Y4: "4 * (Y div 4) = Y - Y mod 4" by (simp add: minus_mod_eq_mult_div)
  have "4 * R + 3 = 1461 * Y + (4 * e + 3 - Y mod 4)" using Y4 R by simp
  moreover have "0 \<le> 4 * e + 3 - Y mod 4" "4 * e + 3 - Y mod 4 < 1461"
    using assms pos_mod_bound [of 4 Y] pos_mod_sign [of 4 Y] by (cases "e = 365"; auto)+
  ultimately show "(4 * R + 3) div 1461 = Y" by (rule int_div_pos_eq)
  have "(1461 * Y) div 4 = 365 * Y + Y div 4" by simp
  with R show "R - (1461 * Y) div 4 = e" by simp
qed

text \<open>The day of the March year of a civil date, and how a month is found from it.\<close>

definition march_day :: "int \<Rightarrow> int \<Rightarrow> int" where
  "march_day m d = d - 1 + (153 * march_month m + 2) div 5"

lemma march_day_split:
  assumes "civil y m d"
  shows "(5 * march_day m d + 2) div 153 = march_month m"
    and "0 \<le> march_day m d"
    and "march_day m d \<le> (if m = 2 \<and> leap_year y then 365 else 364)"
proof -
  from assms have m: "1 \<le> m" "m \<le> 12" and d: "1 \<le> d" "d \<le> days_in_month y m"
    by (simp_all add: civil_def)
  have dim: "days_in_month y m \<le> 31" by (simp add: days_in_month_def)
  show "0 \<le> march_day m d"
    using m d by (simp add: march_day_def march_month_def)
  show "march_day m d \<le> (if m = 2 \<and> leap_year y then 365 else 364)"
    by (rule month_cases [OF m])
      (use d in \<open>simp_all add: march_day_def march_month_def days_in_month_def split: if_splits\<close>)
  show "(5 * march_day m d + 2) div 153 = march_month m"
    by (rule month_cases [OF m])
      (use d in \<open>simp_all add: march_day_def march_month_def days_in_month_def split: if_splits\<close>)
qed

lemma last_day_leap:
  assumes "leap_year y"
  shows "(y + 4799) mod 100 mod 4 = 3"
    and "(y + 4799) mod 100 = 99 \<longrightarrow> (y + 4799) div 100 mod 4 = 3"
proof -
  from assms have l: "4 dvd y" "\<not> 100 dvd y \<or> 400 dvd y" by (simp_all add: leap_year_def)
  have "(y + 4799) mod 100 mod 4 = (y + 4799) mod 4" by (simp add: mod_mod_cancel)
  also have "\<dots> = 3" using l(1) by presburger
  finally show "(y + 4799) mod 100 mod 4 = 3" .
  show "(y + 4799) mod 100 = 99 \<longrightarrow> (y + 4799) div 100 mod 4 = 3"
  proof
    assume "(y + 4799) mod 100 = 99"
    then have "100 dvd y" by presburger
    with l(2) have "400 dvd y" by blast
    then obtain q where "y = 400 * q" ..
    then have "y + 4799 = 99 + 100 * (4 * q + 47)" by simp
    then have e: "(y + 4799) div 100 = 4 * q + 47" by simp
    show "(y + 4799) div 100 mod 4 = 3" unfolding e by presburger
  qed
qed

lemma hundred_div:
  fixes C Y :: int
  shows "(100 * C + Y) div 4 = 25 * C + Y div 4"
proof -
  have "100 * C + Y = Y + 4 * (25 * C)" by simp
  then show ?thesis by (simp only: div_mult_self2 [of 4] zero_neq_numeral not_False_eq_True)
qed

lemma ymd_of_jdn:
  assumes c: "civil y m d" and y: "-4799 \<le> y"
  shows "ymd_of (jdn_of y m d) = \<lparr>ymd_year = y, ymd_month = m, ymd_day = d\<rparr>"
proof -
  from c have m: "1 \<le> m" "m \<le> 12" by (simp_all add: civil_def)
  let ?M = "march_year y m" and ?e = "march_day m d"
  let ?C = "?M div 100" and ?Y = "?M mod 100"
  let ?R = "365 * ?Y + ?Y div 4 + ?e"
  let ?N = "36524 * ?C + ?C div 4 + ?R"
  have M0: "0 \<le> ?M" using y by (simp add: march_year_def)
  note e = march_day_split [OF c]
  have last: "?e = 365 \<longrightarrow> ?Y mod 4 = 3 \<and> (?Y = 99 \<longrightarrow> ?C mod 4 = 3)"
    using e(3) last_day_leap [of y] by (auto simp: march_year_def split: if_splits)
  have bounds: "0 \<le> ?C" "0 \<le> ?Y" "?Y < 100" "0 \<le> ?e" "?e \<le> 365"
    using M0 e(2,3) by (auto simp: pos_imp_zdiv_nonneg_iff split: if_splits)
  have Mdiv: "?M div 4 = 25 * ?C + ?Y div 4" "?M div 400 = ?C div 4" "?M = 100 * ?C + ?Y"
    using hundred_div [of ?C ?Y] zdiv_zmult2_eq [of 4 ?M 100] by simp_all
  have N: "jdn_of y m d + 32044 = ?N"
    unfolding jdn_march [OF m y] year_days_def march_day_def
    using Mdiv by linarith
  note cs = century_split [OF bounds last refl]
  have last': "?e = 365 \<longrightarrow> ?Y mod 4 = 3" using last by blast
  note ys = year_split [OF bounds(2,4,5) last' refl]
  have R0: "0 \<le> ?R" using bounds by (simp add: pos_imp_zdiv_nonneg_iff)
  have N0: "0 \<le> ?N" using bounds R0 by (simp add: pos_imp_zdiv_nonneg_iff)
  have b: "(4 * ?N + 3) sdiv 146097 = ?C" using N0 cs(1) by (simp add: sdiv_nonneg)
  have c': "?N - (?C * 146097) sdiv 4 = ?R" using bounds(1) cs(2) by (simp add: sdiv_nonneg)
  have d': "(4 * ?R + 3) sdiv 1461 = ?Y" using R0 ys(1) by (simp add: sdiv_nonneg)
  have e': "?R - (1461 * ?Y) sdiv 4 = ?e" using bounds(2) ys(2) by (simp add: sdiv_nonneg)
  have m': "(5 * ?e + 2) sdiv 153 = march_month m" using e by (simp add: sdiv_nonneg)
  have mm: "march_month m sdiv 10 = (if m \<le> 2 then 1 else 0)" "0 \<le> march_month m"
    by (rule month_cases [OF m]; simp add: march_month_def sdiv_nonneg)+
  have yr: "?C * 100 + ?Y = ?M" by simp
  have "ymd_of (jdn_of y m d)
      = \<lparr>ymd_year = ?C * 100 + ?Y - 4800 + march_month m sdiv 10,
         ymd_month = march_month m + 3 - 12 * (march_month m sdiv 10),
         ymd_day = ?e - (153 * march_month m + 2) sdiv 5 + 1\<rparr>"
    unfolding ymd_of_def N Let_def b c' d' e' m' ..
  then show ?thesis
    unfolding yr mm(1) using m mm(2)
    by (auto simp: march_day_def sdiv_nonneg march_month_def march_year_def)
qed

section \<open>Every day number is a date\<close>

lemma civil_next_day: "civil y m d \<Longrightarrow> next_day (y, m, d) = (y', m', d') \<Longrightarrow> civil y' m' d' \<and> y \<le> y'"
  by (auto simp: civil_def next_day_def days_in_month_def split: if_splits)

lemma first_day: "jdn_of (-4799) 1 1 = -31738"
  by (simp add: jdn_march march_month_def march_year_def year_days_def)

lemma jdn_surjective:
  "\<exists>y m d. civil y m d \<and> -4799 \<le> y \<and> jdn_of y m d = int n - 31738"
proof (induction n)
  case 0
  have "civil (-4799) 1 1" by (simp add: civil_def days_in_month_def)
  then show ?case using first_day by (intro exI [of _ "-4799"] exI [of _ 1]) simp
next
  case (Suc n)
  then obtain y m d where c: "civil y m d" "-4799 \<le> y" "jdn_of y m d = int n - 31738"
    by blast
  obtain y' m' d' where n: "next_day (y, m, d) = (y', m', d')" by (cases "next_day (y, m, d)")
  from civil_next_day [OF c(1) n] jdn_next_day [OF c(1,2) n] c(2,3) show ?case
    by (intro exI [of _ y'] exI [of _ m'] exI [of _ d']) simp
qed

lemma date_of_any_jdn:
  assumes "-31738 \<le> n"
  obtains y m d where "civil y m d" "-4799 \<le> y" "jdn_of y m d = n"
    "ymd_of n = \<lparr>ymd_year = y, ymd_month = m, ymd_day = d\<rparr>"
proof -
  from jdn_surjective [of "nat (n + 31738)"] assms obtain y m d where
    "civil y m d" "-4799 \<le> y" "jdn_of y m d = n" by auto
  with ymd_of_jdn [of y m d] that show ?thesis by auto
qed

section \<open>Where the computations stay within int\<close>

lemma in_ints_ok: "(\<And>v. v \<in> set values \<Longrightarrow> i32_ok v) \<Longrightarrow> in_ints values r = Inr r"
  by (simp add: in_ints_def)

lemma in_ints_overflow: "v \<in> set values \<Longrightarrow> \<not> i32_ok v \<Longrightarrow> in_ints values r = Inl Undefined"
  by (auto simp: in_ints_def)

lemma in_ints_Inr: "in_ints values r = Inr r' \<Longrightarrow> r' = r"
  by (simp add: in_ints_def split: if_splits)

lemma getJulianDayNumber_ok:
  assumes c: "civil y m d" and y: "-4799 \<le> y" "y \<le> 5874000"
  shows "getJulianDayNumber y m d = Inr (jdn_of y m d)"
proof -
  from c have m: "1 \<le> m" "m \<le> 12" and d: "1 \<le> d" "d \<le> 31"
    by (auto simp: civil_def days_in_month_def split: if_splits)
  define a where "a = (14 - m) sdiv 12"
  have a: "a = (if m \<le> 2 then 1 else 0)"
    by (cases "m \<le> 2") (use m in \<open>simp_all add: a_def sdiv_nonneg\<close>)
  define Y where "Y = y + 4800 - a"
  have Y: "0 \<le> Y" "Y \<le> 5878800" using a y by (auto simp: Y_def split: if_splits)
  define M where "M = m + 12 * a - 3"
  have M: "0 \<le> M" "M \<le> 11" using a m by (auto simp: M_def split: if_splits)
  define q4 q100 q400 q5 where q: "q4 = Y div 4" "q100 = Y div 100" "q400 = Y div 400" "q5 = (153 * M + 2) div 5"
  have b: "0 \<le> q4" "q4 \<le> 1469700" "0 \<le> q100" "q100 \<le> 58788" "0 \<le> q400" "q400 \<le> 14697" "0 \<le> q5" "q5 \<le> 337"
    using Y M unfolding q by (simp_all add: pos_imp_zdiv_nonneg_iff)
  have dv: "Y sdiv 4 = q4" "Y sdiv 100 = q100" "Y sdiv 400 = q400" "(153 * M + 2) sdiv 5 = q5"
    using Y M unfolding q by (simp_all add: sdiv_nonneg)
  show ?thesis
    unfolding getJulianDayNumber_def jdn_of_def a_def [symmetric] Let_def
    unfolding Y_def [symmetric] M_def [symmetric] dv
    by (rule in_ints_ok) (use m d Y M b a y in \<open>auto simp: i32_ok_def M_def split: if_splits\<close>)
qed

lemma div_remainder:
  fixes x k :: int
  assumes "0 < k"
  obtains q r where "x div k = q" "x = k * q + r" "0 \<le> r" "r < k"
  using assms by (metis mult_div_mod_eq pos_mod_bound pos_mod_sign)

lemma getYearMonthDay_ok:
  assumes n: "-31738 \<le> n" "n \<le> 536838867"
  shows "getYearMonthDay n = Inr (ymd_of n)"
proof -
  define a where "a = n + 32044"
  have a: "306 \<le> a" "a \<le> 536870911" using n by (simp_all add: a_def)
  obtain b r1 where b: "(4 * a + 3) div 146097 = b" "4 * a + 3 = 146097 * b + r1" "0 \<le> r1" "r1 < 146097"
    by (rule div_remainder [of 146097 "4 * a + 3"]) simp
  have b0: "0 \<le> b" "b \<le> 14699" using a b by linarith+
  obtain q r2 where q: "(b * 146097) div 4 = q" "b * 146097 = 4 * q + r2" "0 \<le> r2" "r2 < 4"
    by (rule div_remainder [of 4 "b * 146097"]) simp
  define c where "c = a - q"
  have c: "0 \<le> c" "c \<le> 36525" using b q by (auto simp: c_def)
  obtain d r3 where d: "(4 * c + 3) div 1461 = d" "4 * c + 3 = 1461 * d + r3" "0 \<le> r3" "r3 < 1461"
    by (rule div_remainder [of 1461 "4 * c + 3"]) simp
  have d0: "0 \<le> d" "d \<le> 100" using c d by linarith+
  obtain p r4 where p: "(1461 * d) div 4 = p" "1461 * d = 4 * p + r4" "0 \<le> r4" "r4 < 4"
    by (rule div_remainder [of 4 "1461 * d"]) simp
  define e where "e = c - p"
  have e: "0 \<le> e" "e \<le> 366" using d p by (auto simp: e_def)
  define m where "m = (5 * e + 2) div 153"
  have m: "0 \<le> m" "m \<le> 12" using e by (simp_all add: m_def pos_imp_zdiv_nonneg_iff)
  define s t where st: "s = (153 * m + 2) div 5" "t = m div 10"
  have s: "0 \<le> s" "s \<le> 400" "0 \<le> t" "t \<le> 1" using m by (simp_all add: st pos_imp_zdiv_nonneg_iff)
  have sd: "x sdiv k = x div k" if "0 \<le> x" "0 < k" for x k :: int
    using that by (rule sdiv_nonneg)
  have dv: "(4 * a + 3) sdiv 146097 = b" "(b * 146097) sdiv 4 = q" "(4 * c + 3) sdiv 1461 = d"
    "(1461 * d) sdiv 4 = p" "(5 * e + 2) sdiv 153 = m" "(153 * m + 2) sdiv 5 = s" "m sdiv 10 = t"
    using a sd [of "4 * a + 3" 146097] b0 sd [of "b * 146097" 4] c sd [of "4 * c + 3" 1461]
      d0 sd [of "1461 * d" 4] e sd [of "5 * e + 2" 153] m sd [of "153 * m + 2" 5] sd [of m 10]
    by (simp_all only: b(1) q(1) d(1) p(1) m_def [symmetric] st [symmetric])
  show ?thesis
    unfolding getYearMonthDay_def ymd_of_def a_def [symmetric] Let_def dv c_def [symmetric] e_def [symmetric]
    by (rule in_ints_ok) (use a b0 b(2-4) c d0 e m s in \<open>auto simp: i32_ok_def\<close>)
qed

lemma getYearMonthDay_overflow: "536838867 < n \<Longrightarrow> getYearMonthDay n = Inl Undefined"
  unfolding getYearMonthDay_def Let_def
  by (rule in_ints_overflow [of "4 * (n + 32044) + 3"]) (auto simp: i32_ok_def)

lemma jdn_of_epoch: "jdn_of 1970 1 1 = 2440588"
  by (simp add: jdn_march march_month_def march_year_def year_days_def)

lemma epoch_jdn: "kJulianDayOf1970_01_01 = 2440588"
proof -
  have "civil 1970 1 1" by (simp add: civil_def days_in_month_def)
  then show ?thesis by (simp add: kJulianDayOf1970_01_01_def getJulianDayNumber_ok jdn_of_epoch)
qed

text \<open>Days and numbers grow together, so the years of the numbers in range are in range too.\<close>

lemma jdn_bounds:
  assumes c: "civil y m d" and y: "-4799 \<le> y"
  shows "365 * y - 32045 \<le> jdn_of y m d" "jdn_of y m d \<le> 366 * (y + 4800) + 400"
proof -
  from c have m: "1 \<le> m" "m \<le> 12" and d: "1 \<le> d" "d \<le> 31"
    by (auto simp: civil_def days_in_month_def split: if_splits)
  let ?Y = "march_year y m"
  have Y: "0 \<le> ?Y" "y + 4799 \<le> ?Y" "?Y \<le> y + 4800" using y by (auto simp: march_year_def)
  have M: "0 \<le> march_month m" "march_month m \<le> 11" using m by (auto simp: march_month_def)
  then have M5: "0 \<le> (153 * march_month m + 2) div 5" "(153 * march_month m + 2) div 5 \<le> 337"
    by (simp_all add: pos_imp_zdiv_nonneg_iff)
  have q: "?Y div 100 \<le> ?Y div 4" "?Y div 400 \<le> ?Y div 100" "0 \<le> ?Y div 400" "?Y div 4 \<le> ?Y"
    using Y(1) by (auto simp: pos_imp_zdiv_nonneg_iff intro!: zdiv_mono2)
  have l: "365 * y - 32045 \<le> d + k + (Y * 365 + a - b + c) - 32045"
    "d + k + (Y * 365 + a - b + c) - 32045 \<le> 366 * (y + 4800) + 400"
    if "y + 4799 \<le> Y" "Y \<le> y + 4800" "b \<le> a" "c \<le> b" "0 \<le> c" "a \<le> Y" "0 \<le> k" "k \<le> 337"
    for k Y a b c using that d y by simp_all
  show "365 * y - 32045 \<le> jdn_of y m d" "jdn_of y m d \<le> 366 * (y + 4800) + 400"
    unfolding jdn_march [OF m y] year_days_def using l [OF Y(2,3) q(1,2,3,4) M5] by simp_all
qed

lemma jdn_top:
  assumes c: "civil y m d" and y: "-4799 \<le> y" and hi: "y \<le> 5874000"
  shows "jdn_of y m d \<le> 2147483600"
proof -
  from c have m: "1 \<le> m" "m \<le> 12" and d: "1 \<le> d" "d \<le> 31"
    by (auto simp: civil_def days_in_month_def split: if_splits)
  let ?Y = "march_year y m"
  have Y: "0 \<le> ?Y" "?Y \<le> 5878800" using y hi by (auto simp: march_year_def)
  have M: "march_month m \<le> 11" using m by (auto simp: march_month_def)
  then have M5: "(153 * march_month m + 2) div 5 \<le> 337" by simp
  have "?Y div 4 \<le> 1469700" "0 \<le> ?Y div 100" "?Y div 400 \<le> 14697"
    using Y by (simp_all add: pos_imp_zdiv_nonneg_iff)
  then show ?thesis unfolding jdn_march [OF m y] year_days_def using Y M5 d by linarith
qed

lemma jdn_first:
  assumes c: "civil y m d" and y: "-4799 \<le> y"
  shows "-31738 \<le> jdn_of y m d"
proof -
  from c have m: "1 \<le> m" "m \<le> 12" and d: "1 \<le> d" by (simp_all add: civil_def)
  let ?Y = "march_year y m"
  have Y: "0 \<le> ?Y" using y by (auto simp: march_year_def)
  have q: "?Y div 100 \<le> ?Y div 4" "0 \<le> ?Y div 400" "?Y \<le> ?Y * 365"
    using Y by (auto simp: pos_imp_zdiv_nonneg_iff intro!: zdiv_mono2)
  show ?thesis
  proof (cases "m \<le> 2")
    case True
    then have "10 \<le> march_month m" using m by (simp add: march_month_def)
    then have "306 \<le> (153 * march_month m + 2) div 5" by simp
    with q d Y show ?thesis unfolding jdn_march [OF m y] year_days_def by linarith
  next
    case False
    then have "1 \<le> ?Y" "0 \<le> (153 * march_month m + 2) div 5"
      using y m by (simp_all add: march_year_def march_month_def pos_imp_zdiv_nonneg_iff)
    with q d show ?thesis unfolding jdn_march [OF m y] year_days_def by linarith
  qed
qed

lemma jdn_range:
  assumes c: "civil y m d" and y: "-4799 \<le> y" and hi: "y \<le> 1460000"
  shows "-31738 \<le> jdn_of y m d" "jdn_of y m d \<le> 536838867"
  using jdn_bounds [OF c y] jdn_first [OF c y] hi by simp_all

lemma date_of_jdn_in_range:
  assumes "-31738 \<le> n" "n \<le> 536838867"
  obtains y m d where "civil y m d" "-4799 \<le> y" "y \<le> 5874000" "jdn_of y m d = n"
    "getJulianDayNumber y m d = Inr n"
    "getYearMonthDay n = Inr \<lparr>ymd_year = y, ymd_month = m, ymd_day = d\<rparr>"
proof -
  from date_of_any_jdn [OF assms(1)] obtain y m d where r: "civil y m d" "-4799 \<le> y" "jdn_of y m d = n"
    "ymd_of n = \<lparr>ymd_year = y, ymd_month = m, ymd_day = d\<rparr>" .
  have "y \<le> 5874000" using jdn_bounds(1) [OF r(1,2)] r(3) assms(2) by simp
  with r that getJulianDayNumber_ok [of y m d] getYearMonthDay_ok [OF assms] show ?thesis by simp
qed

section \<open>Properties\<close>

text \<open>
  Round trip of dates: for every date of the proleptic Gregorian calendar from 4800 BC to the year
  1460000, no computation overflows and \<open>getYearMonthDay\<close> undoes \<open>getJulianDayNumber\<close>, so a \<open>Date\<close>
  built from a year, a month and a day reports them unchanged.
\<close>

theorem date_roundtrip:
  assumes "civil y m d" and "-4799 \<le> y" and "y \<le> 1460000"
  shows "\<exists>t. mk_date y m d = Inr t \<and> date_year t = Inr y \<and> date_month t = Inr m \<and> date_day t = Inr d"
proof -
  have j: "jdn_of y m d \<le> 536838867" "-31738 \<le> jdn_of y m d"
    using jdn_range [OF assms] by simp_all
  show ?thesis
    using assms getJulianDayNumber_ok [OF assms(1,2)] getYearMonthDay_ok [OF j(2,1)] ymd_of_jdn [OF assms(1,2)]
    by (simp add: date_year_def date_month_def date_day_def yearMonthDay_def mk_date_def)
qed

theorem date_roundtrip_witness:
  "civil 2024 2 29 \<and> (\<exists>t. mk_date 2024 2 29 = Inr t \<and> date_year t = Inr 2024 \<and> date_month t = Inr 2
     \<and> date_day t = Inr 29)"
proof -
  have c: "civil 2024 2 29" by (simp add: civil_def days_in_month_def leap_year_def)
  show ?thesis using c date_roundtrip [OF c] by simp
qed

text \<open>
  C24. The day number counts days, and does so in 32-bit \<open>int\<close> arithmetic: from 4800 BC to the year
  5874000 no operation of \<open>getJulianDayNumber\<close> overflows, the number of the next day of the calendar
  is one more, and its \<open>weekDay\<close> is the next one, Saturday being followed by Sunday. Every number up to
  536838867 is the number of exactly the date that \<open>yearMonthDay\<close> reports, which exists in the
  calendar, again with no overflow; for every larger number \<open>getYearMonthDay\<close> overflows.
\<close>

theorem jdn_counts_days:
  assumes "civil y m d" and "-4799 \<le> y" and "y < 5874000" and "next_day (y, m, d) = (y', m', d')"
    and "-31738 \<le> n" and "n \<le> 536838867"
  shows "(\<exists>j. getJulianDayNumber y m d = Inr j \<and> getJulianDayNumber y' m' d' = Inr (j + 1)
      \<and> (-1 \<le> j \<longrightarrow> (\<exists>t t' w. mk_date y m d = Inr t \<and> mk_date y' m' d' = Inr t'
            \<and> weekDay t = Inr w \<and> weekDay t' = Inr ((w + 1) mod 7))))
    \<and> (\<exists>r. getYearMonthDay n = Inr r \<and> civil (ymd_year r) (ymd_month r) (ymd_day r)
        \<and> getJulianDayNumber (ymd_year r) (ymd_month r) (ymd_day r) = Inr n)
    \<and> (\<forall>k. 536838867 < k \<longrightarrow> getYearMonthDay k = Inl Undefined)"
proof (intro conjI)
  note c' = civil_next_day [OF assms(1,4)]
  have y': "y' \<le> 5874000" using assms(3,4) by (auto simp: next_day_def split: if_splits)
  have j: "getJulianDayNumber y m d = Inr (jdn_of y m d)"
    "getJulianDayNumber y' m' d' = Inr (jdn_of y m d + 1)"
    using getJulianDayNumber_ok [OF assms(1,2)] getJulianDayNumber_ok [of y' m' d']
      jdn_next_day [OF assms(1,2,4)] c' y' assms(2,3) by simp_all
  let ?j = "jdn_of y m d"
  have hi: "?j \<le> 2147483600" using jdn_top [OF assms(1,2)] assms(3) by simp
  have "weekDay \<lparr>julianDayNumber = ?j\<rparr> = Inr ((?j + 1) mod 7)"
    "weekDay \<lparr>julianDayNumber = ?j + 1\<rparr> = Inr (((?j + 1) mod 7 + 1) mod 7)" if "-1 \<le> ?j"
    using that hi by (simp_all add: weekDay_def kDaysPerWeek_def in_ints_def i32_ok_def smod_nonneg mod_simps)
  with j show "\<exists>j. getJulianDayNumber y m d = Inr j \<and> getJulianDayNumber y' m' d' = Inr (j + 1)
      \<and> (-1 \<le> j \<longrightarrow> (\<exists>t t' w. mk_date y m d = Inr t \<and> mk_date y' m' d' = Inr t'
            \<and> weekDay t = Inr w \<and> weekDay t' = Inr ((w + 1) mod 7)))"
    by (simp add: mk_date_def)
  show "\<exists>r. getYearMonthDay n = Inr r \<and> civil (ymd_year r) (ymd_month r) (ymd_day r)
        \<and> getJulianDayNumber (ymd_year r) (ymd_month r) (ymd_day r) = Inr n"
    by (rule date_of_jdn_in_range [OF assms(5,6)]) simp
  show "\<forall>k. 536838867 < k \<longrightarrow> getYearMonthDay k = Inl Undefined"
    using getYearMonthDay_overflow by blast
qed

theorem jdn_counts_days_witness:
  "getJulianDayNumber 1970 1 1 = Inr 2440588 \<and> getJulianDayNumber 1970 1 2 = Inr 2440589
    \<and> (\<exists>t. mk_date 1970 1 1 = Inr t \<and> weekDay t = Inr 4)
    \<and> (\<exists>r. getYearMonthDay 2440588 = Inr r \<and> civil (ymd_year r) (ymd_month r) (ymd_day r))
    \<and> getYearMonthDay 536838868 = Inl Undefined"
proof -
  have c: "civil 1970 1 1" "next_day (1970, 1, 1) = (1970, 1, 2)"
    by (simp_all add: civil_def days_in_month_def leap_year_def next_day_def)
  have e: "getJulianDayNumber 1970 1 1 = Inr 2440588"
    using getJulianDayNumber_ok [OF c(1)] jdn_of_epoch by simp
  show ?thesis
    using jdn_counts_days [OF c(1) _ _ c(2), of 2440588] e
    by (simp add: weekDay_def mk_date_def kDaysPerWeek_def smod_nonneg in_ints_def i32_ok_def) blast
qed

lemma iso_text:
  assumes "civil y m d" and "1000 \<le> y" and "y \<le> 9999"
  shows "bindR (mk_date y m d) date_toIsoString
    = Inr (nat_str (nat y) @ ''-'' @ fmt_0wd 2 m @ ''-'' @ fmt_0wd 2 d)"
    "length (nat_str (nat y)) = 4" "length (fmt_0wd 2 m) = 2" "length (fmt_0wd 2 d) = 2"
proof -
  have m: "0 \<le> m" "m < 10 ^ Suc 1" and d: "0 \<le> d" "d < 10 ^ Suc 1"
    using assms(1) by (auto simp: civil_def days_in_month_def split: if_splits)
  show l: "length (fmt_0wd 2 m) = 2" "length (fmt_0wd 2 d) = 2"
    using length_fmt_0wd [OF m, of 2] length_fmt_0wd [OF d, of 2] by simp_all
  have y: "fmt_wd 4 y = nat_str (nat y)" "length (nat_str (nat y)) = 4"
    by (rule fmt_wd_exact [of 3]; use assms(2,3) in simp)+
  then show "length (nat_str (nat y)) = 4" by simp
  have b: "-4799 \<le> y" "y \<le> 5874000" "y \<le> 1460000" using assms(2,3) by simp_all
  note r = jdn_range [OF assms(1) b(1,3)]
  from getJulianDayNumber_ok [OF assms(1) b(1,2)] getYearMonthDay_ok [OF r] ymd_of_jdn [OF assms(1) b(1)] y l
  show "bindR (mk_date y m d) date_toIsoString
      = Inr (nat_str (nat y) @ ''-'' @ fmt_0wd 2 m @ ''-'' @ fmt_0wd 2 d)"
    by (simp add: date_toIsoString_def yearMonthDay_def mk_date_def snprintf_def)
qed

text \<open>
  \<open>Date::toIsoString\<close> is exact for four-digit years: the text has the form \<open>yyyy-mm-dd\<close>
  (ten characters, never truncated by the 32-byte buffer) and its three numbers read back as
  the date's year, month and day.
\<close>

theorem iso_string_reads_back:
  assumes "civil y m d" and "1000 \<le> y" and "y \<le> 9999"
  shows "\<exists>s. bindR (mk_date y m d) date_toIsoString = Inr s \<and>
     length s = 10 \<and> s ! 4 = CHR ''-'' \<and> s ! 7 = CHR ''-''
     \<and> int (digits_val (take 4 s)) = y
     \<and> int (digits_val (take 2 (drop 5 s))) = m
     \<and> int (digits_val (drop 8 s)) = d"
proof -
  note t = iso_text [OF assms]
  have pos: "0 \<le> m" "0 \<le> d" using assms(1) by (simp_all add: civil_def)
  show ?thesis
    unfolding t(1) using t(2-4) pos assms(2)
    by (simp add: nth_append)
qed

end
