(* ===== verification/TimeZones.thy ===== *)
theory TimeZones
  imports Dates Endians
begin

text \<open>
  \<open>src/src/base/TimeZone.h\<close> and \<open>TimeZone.cc\<close>: broken-down times, time zones with their
  transitions, and the reader of TZif files. A file is its bytes and a position; a file that
  does not open is \<open>None\<close>. A shared pointer to zone data is an option, null being \<open>None\<close>.
\<close>

section \<open>Broken-down time\<close>

record DateTime =
  dt_year :: int
  dt_month :: int
  dt_day :: int
  dt_hour :: int
  dt_minute :: int
  dt_second :: int

definition kSecondsPerDay :: int where
  "kSecondsPerDay = 24 * 60 * 60"

definition fillHMS :: "int \<Rightarrow> DateTime \<Rightarrow> DateTime" where
  "fillHMS seconds dt =
     (let minutes = seconds sdiv 60
      in dt\<lparr>dt_second := seconds smod 60, dt_minute := minutes smod 60, dt_hour := minutes sdiv 60\<rparr>)"

definition default_DateTime :: DateTime where
  "default_DateTime = \<lparr>dt_year = 0, dt_month = 0, dt_day = 0, dt_hour = 0, dt_minute = 0, dt_second = 0\<rparr>"

definition BreakTime :: "int \<Rightarrow> DateTime res" where
  "BreakTime t =
     (let seconds0 = to_i32 (t smod kSecondsPerDay);
          days0 = to_i32 (t sdiv kSecondsPerDay);
          seconds = (if seconds0 < 0 then seconds0 + kSecondsPerDay else seconds0);
          days = (if seconds0 < 0 then days0 - 1 else days0);
          dt = fillHMS seconds default_DateTime
      in bindR (in_ints [days, days + kJulianDayOf1970_01_01] ()) (\<lambda>_.
         bindR (yearMonthDay (date_of_jdn (days + kJulianDayOf1970_01_01))) (\<lambda>ymd.
         Inr (dt\<lparr>dt_year := ymd_year ymd, dt_month := ymd_month ymd, dt_day := ymd_day ymd\<rparr>))))"

definition fromUtcTime :: "DateTime \<Rightarrow> int res" where
  "fromUtcTime dt =
     bindR (mk_date (dt_year dt) (dt_month dt) (dt_day dt)) (\<lambda>date.
     let hours = dt_hour dt * 3600;
         minutes = dt_minute dt * 60;
         secondsInDay = hours + minutes + dt_second dt;
         days = julianDayNumber date - kJulianDayOf1970_01_01
     in in_ints [hours, minutes, hours + minutes, secondsInDay, days] (days * kSecondsPerDay + secondsInDay))"

definition toUtcTime :: "int \<Rightarrow> DateTime res" where
  "toUtcTime secondsSinceEpoch = BreakTime secondsSinceEpoch"

definition DateTime_of_tm :: "tm \<Rightarrow> DateTime" where
  "DateTime_of_tm t = \<lparr>dt_year = tm_year t + 1900, dt_month = tm_mon t + 1, dt_day = tm_mday t,
      dt_hour = tm_hour t, dt_minute = tm_min t, dt_second = tm_sec t\<rparr>"

definition DateTime_toIsoString :: "DateTime \<Rightarrow> string" where
  "DateTime_toIsoString dt =
     fst (snprintf 64 (fmt_0wd 4 (dt_year dt) @ ''-'' @ fmt_0wd 2 (dt_month dt) @ ''-''
       @ fmt_0wd 2 (dt_day dt) @ '' '' @ fmt_0wd 2 (dt_hour dt) @ '':'' @ fmt_0wd 2 (dt_minute dt)
       @ '':'' @ fmt_0wd 2 (dt_second dt)))"

section \<open>Zone data\<close>

record Transition =
  utctime :: int
  localtime :: int
  localtimeIdx :: int

record LocalTime =
  utcOffset :: int
  isDst :: bool
  desigIdx :: int

record zone_data =
  transitions :: "Transition list"
  localtimes :: "LocalTime list"
  zone_abbreviation :: string
  tzstring :: string

definition new_data :: zone_data where
  "new_data = \<lparr>transitions = [], localtimes = [], zone_abbreviation = '''', tzstring = ''''\<rparr>"

definition addLocalTime :: "int \<Rightarrow> bool \<Rightarrow> int \<Rightarrow> zone_data \<Rightarrow> zone_data" where
  "addLocalTime offset dst idx d =
     d\<lparr>localtimes := localtimes d @ [\<lparr>utcOffset = offset, isDst = dst, desigIdx = idx\<rparr>]\<rparr>"

text \<open>\<open>vector::at\<close> throws, \<open>operator[]\<close> and \<open>front\<close> do not check.\<close>

definition vec_at :: "'a list \<Rightarrow> int \<Rightarrow> 'a res" where
  "vec_at v i = (if 0 \<le> i \<and> i < int (length v) then Inr (v ! nat i) else Inl Out_of_range)"

definition vec_index :: "'a list \<Rightarrow> int \<Rightarrow> 'a res" where
  "vec_index v i = (if 0 \<le> i \<and> i < int (length v) then Inr (v ! nat i) else Inl Undefined)"

definition addTransition :: "int \<Rightarrow> int \<Rightarrow> zone_data \<Rightarrow> zone_data res" where
  "addTransition utcTime idx d =
     bindR (vec_at (localtimes d) idx) (\<lambda>lt.
       Inr (d\<lparr>transitions := transitions d @
               [\<lparr>utctime = utcTime, localtime = utcTime + utcOffset lt, localtimeIdx = idx\<rparr>]\<rparr>))"

text \<open>
  \<open>std::upper_bound\<close> as the library implements it: halving the range \<open>[first, first + len)\<close>;
  \<open>p\<close> says whether the searched value is less than an element.
\<close>

function upper_bound :: "('a \<Rightarrow> bool) \<Rightarrow> 'a list \<Rightarrow> nat \<Rightarrow> nat \<Rightarrow> nat" where
  "upper_bound p v first len =
     (if len = 0 then first
      else let half = len div 2; middle = first + half
           in if p (v ! middle) then upper_bound p v first half
              else upper_bound p v (middle + 1) (len - half - 1))"
  by pat_completeness auto
termination
  by (relation "measure (\<lambda>(p, v, first, len). len)") auto

declare upper_bound.simps [simp del]

definition findLocalTime_utc :: "zone_data \<Rightarrow> int \<Rightarrow> LocalTime res" where
  "findLocalTime_utc d utcTime =
     (if transitions d = [] \<or> utcTime < utctime (hd (transitions d))
      then vec_index (localtimes d) 0
      else
        let transI = upper_bound (\<lambda>tr. utcTime < utctime tr) (transitions d) 0 (length (transitions d))
        in assertR (transI \<noteq> 0)
            (if transI \<noteq> length (transitions d)
             then vec_index (localtimes d) (localtimeIdx (transitions d ! (transI - 1)))
             else vec_index (localtimes d) (localtimeIdx (last (transitions d)))))"

definition findLocalTime_local :: "zone_data \<Rightarrow> DateTime \<Rightarrow> bool \<Rightarrow> LocalTime res" where
  "findLocalTime_local d lt postTransition =
     bindR (fromUtcTime lt) (\<lambda>lsec.
      let trs = transitions d; lts = localtimes d
      in if trs = [] \<or> lsec < localtime (hd trs) then vec_index lts 0
         else
           let transI = upper_bound (\<lambda>tr. lsec < localtime tr) trs 0 (length trs)
           in assertR (transI \<noteq> 0)
               (if transI = length trs then vec_index lts (localtimeIdx (last trs))
                else
                  let prior_trans = trs ! (transI - 1)
                  in bindR (vec_index lts (localtimeIdx prior_trans)) (\<lambda>prior_lt.
                     let prior_second = utctime (trs ! transI) - 1 + utcOffset prior_lt
                     in if prior_second < lsec then
                          (if postTransition then vec_index lts (localtimeIdx (trs ! transI))
                           else vec_index lts (localtimeIdx prior_trans))
                        else
                          let transI = transI - 1
                          in bindR (if transI \<noteq> 0 then
                                     let prior_trans = trs ! (transI - 1)
                                     in bindR (vec_index lts (localtimeIdx prior_trans)) (\<lambda>prior_lt.
                                        Inr (prior_trans, utctime (trs ! transI) - 1 + utcOffset prior_lt))
                                   else Inr (prior_trans, prior_second))
                              (\<lambda>(prior_trans, prior_second).
                               if lsec \<le> prior_second then
                                 (if postTransition then vec_index lts (localtimeIdx (trs ! transI))
                                  else vec_index lts (localtimeIdx prior_trans))
                               else vec_index lts (localtimeIdx (trs ! transI))))))"

section \<open>Time zones\<close>

type_synonym TimeZone = "zone_data option"

definition invalid_zone :: TimeZone where
  "invalid_zone = None"

definition zone_valid :: "TimeZone \<Rightarrow> bool" where
  "zone_valid tz \<longleftrightarrow> tz \<noteq> None"

definition fixed_zone :: "int \<Rightarrow> string \<Rightarrow> TimeZone" where
  "fixed_zone eastOfUtc name = Some ((addLocalTime eastOfUtc False 0 new_data)\<lparr>zone_abbreviation := name\<rparr>)"

definition UTC :: TimeZone where
  "UTC = fixed_zone 0 ''UTC''"

text \<open>The second component is what is stored through the \<open>utcOffset\<close> argument.\<close>

definition toLocalTime :: "TimeZone \<Rightarrow> int \<Rightarrow> (DateTime \<times> int) res" where
  "toLocalTime tz seconds =
     (case tz of
        None \<Rightarrow> Inl Assert_failed
      | Some d \<Rightarrow> bindR (findLocalTime_utc d seconds) (\<lambda>lt.
          bindR (BreakTime (seconds + utcOffset lt)) (\<lambda>localTime.
          Inr (localTime, utcOffset lt))))"

definition fromLocalTime :: "TimeZone \<Rightarrow> DateTime \<Rightarrow> bool \<Rightarrow> int res" where
  "fromLocalTime tz lt postTransition =
     (case tz of
        None \<Rightarrow> Inl Assert_failed
      | Some d \<Rightarrow> bindR (findLocalTime_local d lt postTransition) (\<lambda>l.
          bindR (fromUtcTime lt) (\<lambda>localSeconds.
          Inr (localSeconds - utcOffset l))))"

section \<open>Reading a TZif file\<close>

record tz_file =
  f_bytes :: "byte list"
  f_pos :: int

definition fread :: "nat \<Rightarrow> tz_file \<Rightarrow> byte list \<times> tz_file" where
  "fread n f =
     (let got = take n (drop (nat (f_pos f)) (f_bytes f))
      in (got, f\<lparr>f_pos := f_pos f + int (length got)\<rparr>))"

definition bytes_str :: "byte list \<Rightarrow> string" where
  "bytes_str bs = map (\<lambda>b. char_of (unat b)) bs"

definition readBytes :: "int \<Rightarrow> tz_file \<Rightarrow> (string \<times> tz_file) res" where
  "readBytes n f =
     (if n < 0 then Inl Undefined
      else let (got, f') = fread (nat n) f
           in if int (length got) \<noteq> n then Inl (Logic_error ''no enough data'')
              else Inr (bytes_str got, f'))"

definition readToEnd :: "tz_file \<Rightarrow> string \<times> tz_file" where
  "readToEnd f = (let (got, f') = fread (length (f_bytes f)) f in (bytes_str got, f'))"

definition file_readInt64 :: "tz_file \<Rightarrow> (int \<times> tz_file) res" where
  "file_readInt64 f =
     (let (got, f') = fread 8 f
      in if length got \<noteq> 8 then Inl (Logic_error ''bad int64_t data'')
         else Inr (sint (networkToHost64 (from_le got)), f'))"

definition file_readInt32 :: "tz_file \<Rightarrow> (int \<times> tz_file) res" where
  "file_readInt32 f =
     (let (got, f') = fread 4 f
      in if length got \<noteq> 4 then Inl (Logic_error ''bad int32_t data'')
         else Inr (sint (networkToHost32 (from_le got)), f'))"

definition readUInt8 :: "tz_file \<Rightarrow> (int \<times> tz_file) res" where
  "readUInt8 f =
     (let (got, f') = fread 1 f
      in if length got \<noteq> 1 then Inl (Logic_error ''bad uint8_t data'')
         else Inr (uint (hd got), f'))"

definition skip :: "int \<Rightarrow> tz_file \<Rightarrow> tz_file" where
  "skip n f = (if f_pos f + n < 0 then f else f\<lparr>f_pos := f_pos f + n\<rparr>)"

text \<open>A loop that reads \<open>n\<close> items; \<open>n\<close> is the non-negative trip count.\<close>

fun read_many :: "(tz_file \<Rightarrow> ('a \<times> tz_file) res) \<Rightarrow> nat \<Rightarrow> tz_file \<Rightarrow> ('a list \<times> tz_file) res" where
  "read_many rd 0 f = Inr ([], f)"
| "read_many rd (Suc n) f =
     bindR (rd f) (\<lambda>(x, f). bindR (read_many rd n f) (\<lambda>(xs, f). Inr (x # xs, f)))"

text \<open>\<open>vector::reserve\<close> of a negative count throws: the count becomes a huge \<open>size_t\<close>.\<close>

definition vec_reserve :: "int \<Rightarrow> 'a res \<Rightarrow> 'a res" where
  "vec_reserve n k = (if n < 0 then Inl Length_error else k)"

definition read_local_type :: "tz_file \<Rightarrow> ((int \<times> bool \<times> int) \<times> tz_file) res" where
  "read_local_type f =
     bindR (file_readInt32 f) (\<lambda>(gmtoff, f).
     bindR (readUInt8 f) (\<lambda>(isdst, f).
     bindR (readUInt8 f) (\<lambda>(abbrind, f).
     Inr ((gmtoff, isdst \<noteq> 0, abbrind), f))))"

definition readDataBlock :: "bool \<Rightarrow> tz_file \<Rightarrow> zone_data \<Rightarrow> (bool \<times> zone_data) res" where
  "readDataBlock v1 f d =
     (let time_size = (if v1 then 4 else 8 :: int)
      in bindR (file_readInt32 f) (\<lambda>(isutccnt, f).
         bindR (file_readInt32 f) (\<lambda>(isstdcnt, f).
         bindR (file_readInt32 f) (\<lambda>(leapcnt, f).
         bindR (file_readInt32 f) (\<lambda>(timecnt, f).
         bindR (file_readInt32 f) (\<lambda>(typecnt, f).
         bindR (file_readInt32 f) (\<lambda>(charcnt, f).
         if leapcnt \<noteq> 0 then Inr (False, d)
         else if isutccnt \<noteq> 0 \<and> isutccnt \<noteq> typecnt then Inr (False, d)
         else if isstdcnt \<noteq> 0 \<and> isstdcnt \<noteq> typecnt then Inr (False, d)
         else
           vec_reserve timecnt
            (bindR (read_many (if v1 then file_readInt32 else file_readInt64) (nat timecnt) f)
              (\<lambda>(trans, f).
             bindR (read_many readUInt8 (nat timecnt) f) (\<lambda>(idxs, f).
             vec_reserve typecnt
              (bindR (read_many read_local_type (nat typecnt) f) (\<lambda>(types, f).
               let d = fold (\<lambda>(gmtoff, isdst, abbrind). addLocalTime gmtoff isdst abbrind) types d
               in bindR (foldR (\<lambda>(t, idx). addTransition t idx) (zip trans idxs) d) (\<lambda>d.
                  bindR (readBytes charcnt f) (\<lambda>(abbr, f).
                  let d = d\<lparr>zone_abbreviation := abbr\<rparr>;
                      f = skip (leapcnt * (time_size + 4)) f;
                      f = skip isstdcnt f;
                      f = skip isutccnt f
                  in if v1 then Inr (True, d)
                     else Inr (True, d\<lparr>tzstring := fst (readToEnd f)\<rparr>)))))))))))))))"

text \<open>\<open>int\<close> products of the header counts must stay in range.\<close>

definition read_header :: "tz_file \<Rightarrow> zone_data \<Rightarrow> (bool \<times> zone_data) res" where
  "read_header f d =
     bindR (readBytes 4 f) (\<lambda>(head, f).
     if head \<noteq> ''TZif'' then Inl (Logic_error ''bad head'')
     else
       bindR (readBytes 1 f) (\<lambda>(version, f).
       bindR (readBytes 15 f) (\<lambda>(_, f).
       bindR (file_readInt32 f) (\<lambda>(isgmtcnt, f).
       bindR (file_readInt32 f) (\<lambda>(isstdcnt, f).
       bindR (file_readInt32 f) (\<lambda>(leapcnt, f).
       bindR (file_readInt32 f) (\<lambda>(timecnt, f).
       bindR (file_readInt32 f) (\<lambda>(typecnt, f).
       bindR (file_readInt32 f) (\<lambda>(charcnt, f).
       if version = ''2'' then
         if \<not> i32_ok (6 * typecnt) \<or> \<not> i32_ok (8 * leapcnt) then Inl Undefined
         else
           let f = skip (4 * timecnt + timecnt + 6 * typecnt + charcnt + 8 * leapcnt + isstdcnt
                         + isgmtcnt) f
           in bindR (readBytes 4 f) (\<lambda>(head, f).
              if head \<noteq> ''TZif'' then Inl (Logic_error ''bad head'')
              else readDataBlock False (skip 16 f) d)
       else readDataBlock True (skip (-4 * 6) f) d)))))))))"

text \<open>
  \<open>std::out_of_range\<close> and \<open>std::length_error\<close> derive from \<open>std::logic_error\<close>, so all three
  are caught and make the call return false. The data a failed read leaves behind is not
  modelled: its only caller, \<open>loadZoneFile\<close>, drops it.
\<close>

definition readTimeZoneFile :: "byte list option \<Rightarrow> zone_data \<Rightarrow> (bool \<times> zone_data) res" where
  "readTimeZoneFile zonefile d =
     (case zonefile of
        None \<Rightarrow> Inr (False, d)
      | Some bytes \<Rightarrow>
          (case read_header \<lparr>f_bytes = bytes, f_pos = 0\<rparr> d of
             Inr r \<Rightarrow> Inr r
           | Inl (Logic_error _) \<Rightarrow> Inr (False, d)
           | Inl Out_of_range \<Rightarrow> Inr (False, d)
           | Inl Length_error \<Rightarrow> Inr (False, d)
           | Inl e \<Rightarrow> Inl e))"

definition loadZoneFile :: "byte list option \<Rightarrow> TimeZone res" where
  "loadZoneFile zonefile =
     bindR (readTimeZoneFile zonefile new_data) (\<lambda>(ok, d). Inr (if ok then Some d else None))"


section \<open>Broken-down time: days and seconds\<close>

lemma break_days:
  "(let s = t smod kSecondsPerDay; d = t sdiv kSecondsPerDay
    in (if s < 0 then (s + kSecondsPerDay, d - 1) else (s, d)))
   = (t mod kSecondsPerDay, t div kSecondsPerDay)"
proof (cases "0 \<le> t")
  case True
  then show ?thesis by (simp add: kSecondsPerDay_def sdiv_nonneg smod_nonneg Let_def)
next
  case False
  then have "t sdiv kSecondsPerDay = - (- t div kSecondsPerDay)"
    "t smod kSecondsPerDay = - (- t mod kSecondsPerDay)"
    by (simp_all add: signed_divide_int_def signed_modulo_int_def kSecondsPerDay_def
        minus_mult_div_eq_mod)
  moreover have "0 < kSecondsPerDay" by (simp add: kSecondsPerDay_def)
  moreover from this have "0 \<le> - t mod kSecondsPerDay" by simp
  ultimately show ?thesis
    using zdiv_zminus1_eq_if [of kSecondsPerDay "- t"] zmod_zminus1_eq_if [of "- t" kSecondsPerDay]
    by (auto simp: Let_def less_le)
qed

lemma div_bounds:
  fixes t k :: int
  assumes "0 < k" and "a * k \<le> t" and "t < b * k"
  shows "a \<le> t div k" and "t div k < b"
proof -
  have e: "t = k * (t div k) + t mod k" by simp
  have r: "0 \<le> t mod k" "t mod k < k" using assms(1) by simp_all
  have "k * (t div k + 1) = k * (t div k) + k" by (simp add: distrib_left)
  with e r assms(2) have "a * k < k * (t div k + 1)" by linarith
  then have "a < t div k + 1" using assms(1) by (simp add: mult.commute [of a])
  then show "a \<le> t div k" by simp
  have "k * (t div k) < b * k" using e r assms(3) by linarith
  then show "t div k < b" using assms(1) by (simp add: mult.commute [of b])
qed

definition in_break_range :: "int \<Rightarrow> bool" where
  "in_break_range t \<longleftrightarrow> -2472326 * kSecondsPerDay \<le> t \<and> t < 534000000 * kSecondsPerDay"

lemma break_range_days:
  assumes "in_break_range t"
  shows "-2472326 \<le> t div kSecondsPerDay" "t div kSecondsPerDay < 534000000"
  using assms div_bounds [of kSecondsPerDay "-2472326" t 534000000]
  unfolding in_break_range_def by (auto simp: kSecondsPerDay_def)

text \<open>The calendar date and the time of the day of a number of seconds.\<close>

definition utc_time :: "int \<Rightarrow> DateTime" where
  "utc_time t =
    (let s = t mod kSecondsPerDay;
         r = ymd_of (t div kSecondsPerDay + kJulianDayOf1970_01_01)
     in \<lparr>dt_year = ymd_year r, dt_month = ymd_month r, dt_day = ymd_day r, dt_hour = s div 60 div 60,
         dt_minute = s div 60 mod 60, dt_second = s mod 60\<rparr>)"

lemma BreakTime_eq:
  assumes "in_break_range t"
  shows "BreakTime t = Inr (utc_time t)"
proof -
  let ?K = kSecondsPerDay
  have K: "?K = 86400" by (simp add: kSecondsPerDay_def)
  note d = break_range_days [OF assms]
  have sm: "t smod ?K = sgn t * (\<bar>t\<bar> mod ?K)" "\<bar>t\<bar> mod ?K < 86400" "0 \<le> \<bar>t\<bar> mod ?K"
    using K by (simp_all add: signed_modulo_int_def)
  have "t smod ?K > - 86400" "t smod ?K < 86400"
    using sm by (auto simp: sgn_if)
  moreover have "t sdiv ?K \<in> {t div ?K, t div ?K + 1}"
    using break_days [of t] by (auto simp: Let_def split: if_splits)
  moreover note d
  ultimately have c: "to_i32 (t smod ?K) = t smod ?K" "to_i32 (t sdiv ?K) = t sdiv ?K"
    by (auto intro!: to_i32_id)
  have nn: "0 \<le> t mod ?K" using K by simp
  have y: "getYearMonthDay (t div ?K + kJulianDayOf1970_01_01) = Inr (ymd_of (t div ?K + kJulianDayOf1970_01_01))"
    using d by (intro getYearMonthDay_ok) (simp_all add: epoch_jdn)
  have r: "in_ints [t div ?K, t div ?K + kJulianDayOf1970_01_01] () = Inr ()"
    using d by (intro in_ints_ok) (auto simp: i32_ok_def epoch_jdn)
  show ?thesis
    using break_days [of t] nn y r
    by (auto simp: BreakTime_def c fillHMS_def default_DateTime_def Let_def yearMonthDay_def utc_time_def
        date_of_jdn_def sdiv_nonneg smod_nonneg split: if_splits)
qed

lemma seconds_split:
  fixes s :: int
  shows "(s div 60 div 60) * 3600 + (s div 60 mod 60) * 60 + s mod 60 = s"
proof -
  have "s = 60 * (s div 60) + s mod 60" "s div 60 = 60 * (s div 60 div 60) + s div 60 mod 60"
    by simp_all
  then show ?thesis by linarith
qed

section \<open>Finding the transition\<close>

definition splits_at :: "('a \<Rightarrow> bool) \<Rightarrow> 'a list \<Rightarrow> nat \<Rightarrow> bool" where
  "splits_at p v r \<longleftrightarrow> r \<le> length v \<and> (\<forall>i < r. \<not> p (v ! i)) \<and> (\<forall>i. r \<le> i \<longrightarrow> i < length v \<longrightarrow> p (v ! i))"

lemma upper_bound_range:
  assumes "\<forall>i j. i \<le> j \<longrightarrow> j < length v \<longrightarrow> p (v ! i) \<longrightarrow> p (v ! j)"
    and "first + len \<le> length v"
    and "\<forall>i < first. \<not> p (v ! i)"
    and "\<forall>i. first + len \<le> i \<longrightarrow> i < length v \<longrightarrow> p (v ! i)"
  shows "splits_at p v (upper_bound p v first len)"
  using assms
proof (induction p v first len rule: upper_bound.induct)
  case (1 p v first len)
  show ?case
  proof (cases "len = 0")
    case True
    then show ?thesis using "1.prems" by (auto simp: upper_bound.simps splits_at_def)
  next
    case False
    let ?h = "len div 2"
    have lt: "?h < len" using False by simp
    then have m: "first + ?h < length v" using "1.prems"(2) by linarith
    show ?thesis
    proof (cases "p (v ! (first + ?h))")
      case True
      have "splits_at p v (upper_bound p v first ?h)"
        by (rule "1.IH"(1) [OF False refl refl True "1.prems"(1)])
          (use "1.prems" m True in auto)
      with True False show ?thesis by (simp add: upper_bound.simps [of p v first len] Let_def)
    next
      case no: False
      have "splits_at p v (upper_bound p v (first + ?h + 1) (len - ?h - 1))"
      proof (rule "1.IH"(2) [OF False refl refl no "1.prems"(1)])
        show "first + ?h + 1 + (len - ?h - 1) \<le> length v" using lt "1.prems"(2) by linarith
        show "\<forall>i < first + ?h + 1. \<not> p (v ! i)"
          using "1.prems"(1) m no by (metis Suc_eq_plus1 less_Suc_eq_le)
        show "\<forall>i. first + ?h + 1 + (len - ?h - 1) \<le> i \<longrightarrow> i < length v \<longrightarrow> p (v ! i)"
          using lt "1.prems"(4) by simp
      qed
      with no False show ?thesis by (simp add: upper_bound.simps [of p v first len] Let_def)
    qed
  qed
qed

lemma upper_bound_sorted:
  fixes f :: "'a \<Rightarrow> int"
  assumes "sorted (map f v)"
  shows "splits_at (\<lambda>x. t < f x) v (upper_bound (\<lambda>x. t < f x) v 0 (length v))"
proof (rule upper_bound_range)
  show "\<forall>i j. i \<le> j \<longrightarrow> j < length v \<longrightarrow> t < f (v ! i) \<longrightarrow> t < f (v ! j)"
    using sorted_nth_mono [OF assms] by (fastforce simp del: sorted_map)
qed auto

lemma splits_at_filter:
  "splits_at p v r \<Longrightarrow> filter (\<lambda>x. \<not> p x) v = take r v"
proof -
  assume s: "splits_at p v r"
  have "filter (\<lambda>x. \<not> p x) (take r v) = take r v"
    using s by (auto simp: filter_id_conv in_set_conv_nth splits_at_def)
  moreover have "filter (\<lambda>x. \<not> p x) (drop r v) = []"
    using s by (auto simp: filter_empty_conv in_set_conv_nth splits_at_def)
  ultimately have "filter (\<lambda>x. \<not> p x) (take r v @ drop r v) = take r v"
    unfolding filter_append by simp
  then show ?thesis unfolding append_take_drop_id .
qed

text \<open>
  Well-formed zone data: transitions in order of their UTC time, each naming a local time and
  carrying its own local second. The transition in force at \<open>t\<close> is the last one not after \<open>t\<close>.
\<close>

definition wf_zone :: "zone_data \<Rightarrow> bool" where
  "wf_zone d \<longleftrightarrow> sorted (map utctime (transitions d)) \<and> localtimes d \<noteq> []
     \<and> (\<forall>tr \<in> set (transitions d). 0 \<le> localtimeIdx tr \<and> localtimeIdx tr < int (length (localtimes d))
          \<and> localtime tr = utctime tr + utcOffset (localtimes d ! nat (localtimeIdx tr)))"

definition in_force :: "zone_data \<Rightarrow> int \<Rightarrow> LocalTime" where
  "in_force d t =
     (let past = filter (\<lambda>tr. utctime tr \<le> t) (transitions d)
      in if past = [] then hd (localtimes d)
         else localtimes d ! nat (localtimeIdx (List.last past)))"

lemma vec_index_hd: "v \<noteq> [] \<Longrightarrow> vec_index v 0 = Inr (hd v)"
  by (simp add: vec_index_def hd_conv_nth)

lemma findLocalTime_utc_in_force:
  assumes "wf_zone d"
  shows "findLocalTime_utc d t = Inr (in_force d t)"
proof (cases "transitions d = [] \<or> t < utctime (hd (transitions d))")
  case True
  have "filter (\<lambda>tr. utctime tr \<le> t) (transitions d) = []"
  proof (cases "transitions d")
    case (Cons a l)
    with assms True show ?thesis
      by (fastforce simp: wf_zone_def filter_empty_conv)
  qed simp
  with True assms show ?thesis
    by (simp add: findLocalTime_utc_def in_force_def vec_index_hd wf_zone_def)
next
  case False
  let ?v = "transitions d" and ?p = "\<lambda>tr. t < utctime tr"
  let ?r = "upper_bound ?p ?v 0 (length ?v)"
  have ne: "?v \<noteq> []" using False by simp
  have s: "splits_at ?p ?v ?r" using assms by (simp add: wf_zone_def upper_bound_sorted)
  have r0: "?r \<noteq> 0" using s False ne unfolding splits_at_def
    by (metis hd_conv_nth le_0_eq length_greater_0_conv zero_le)
  have f: "filter (\<lambda>tr. utctime tr \<le> t) ?v = take ?r ?v"
    using splits_at_filter [OF s] by (simp add: not_less)
  have rl: "?r \<le> length ?v" using s by (simp add: splits_at_def)
  have l: "List.last (take ?r ?v) = ?v ! (?r - 1)"
    using r0 rl ne by (subst last_conv_nth) (auto simp: min_def)
  have "?v ! (?r - 1) \<in> set ?v" using r0 rl by simp
  with assms have i: "vec_index (localtimes d) (localtimeIdx (?v ! (?r - 1))) =
      Inr (localtimes d ! nat (localtimeIdx (?v ! (?r - 1))))"
    by (auto simp: wf_zone_def vec_index_def)
  have e: "?r = length ?v \<Longrightarrow> List.last ?v = ?v ! (?r - 1)" using ne by (simp add: last_conv_nth)
  show ?thesis
    using False r0 ne i e l
    by (auto simp: findLocalTime_utc_def in_force_def f Let_def)
qed

section \<open>Reading what the TZif format writes\<close>

text \<open>
  The encoder of the format, the specification the reader is checked against: big-endian
  integers, the six counts of a data block, its transition times, their type indices, its
  types and its designations; a version 2 file has a version 1 block, then a second header and
  block with 64-bit times, then the footer.
\<close>

definition be32 :: "int \<Rightarrow> byte list" where
  "be32 x = rev (le_bytes 4 (word_of_int x :: 32 word))"

definition be64 :: "int \<Rightarrow> byte list" where
  "be64 x = rev (le_bytes 8 (word_of_int x :: 64 word))"

definition str_bytes :: "string \<Rightarrow> byte list" where
  "str_bytes s = map (\<lambda>c. of_nat (of_char c)) s"

definition enc_type :: "LocalTime \<Rightarrow> byte list" where
  "enc_type lt = be32 (utcOffset lt) @ [if isDst lt then 1 else 0, word_of_int (desigIdx lt)]"

definition enc_counts :: "zone_data \<Rightarrow> byte list" where
  "enc_counts d = be32 0 @ be32 0 @ be32 0 @ be32 (int (length (transitions d)))
     @ be32 (int (length (localtimes d))) @ be32 (int (length (zone_abbreviation d)))"

definition enc_data :: "bool \<Rightarrow> zone_data \<Rightarrow> byte list" where
  "enc_data v1 d =
     concat (map (\<lambda>tr. if v1 then be32 (utctime tr) else be64 (utctime tr)) (transitions d))
     @ map (\<lambda>tr. word_of_int (localtimeIdx tr)) (transitions d)
     @ concat (map enc_type (localtimes d)) @ str_bytes (zone_abbreviation d)"

definition enc_head :: "char \<Rightarrow> byte list" where
  "enc_head version = str_bytes (''TZif'' @ [version]) @ replicate 15 0"

definition enc_v1 :: "zone_data \<Rightarrow> byte list" where
  "enc_v1 d = enc_head (CHR 0x00) @ enc_counts d @ enc_data True d"

definition enc_v2 :: "zone_data \<Rightarrow> zone_data \<Rightarrow> byte list" where
  "enc_v2 d1 d = enc_head (CHR ''2'') @ enc_counts d1 @ enc_data True d1
     @ enc_head (CHR ''2'') @ enc_counts d @ enc_data False d @ str_bytes (tzstring d)"

text \<open>The values the format can hold; a designation is ASCII, a \<open>char\<close> below 256 here.\<close>

definition fits :: "bool \<Rightarrow> zone_data \<Rightarrow> bool" where
  "fits v1 d \<longleftrightarrow> length (transitions d) < 100000000 \<and> length (localtimes d) < 100000000
     \<and> length (zone_abbreviation d) < 100000000
     \<and> (\<forall>tr \<in> set (transitions d). 0 \<le> localtimeIdx tr \<and> localtimeIdx tr < 256
          \<and> (if v1 then i32_ok (utctime tr) else - (2 ^ 63) \<le> utctime tr \<and> utctime tr < 2 ^ 63))
     \<and> (\<forall>lt \<in> set (localtimes d). i32_ok (utcOffset lt) \<and> 0 \<le> desigIdx lt \<and> desigIdx lt < 256)"

text \<open>What is left of a file, and the file after \<open>n\<close> more bytes.\<close>

definition rest :: "tz_file \<Rightarrow> byte list" where
  "rest f = drop (nat (f_pos f)) (f_bytes f)"

definition adv :: "nat \<Rightarrow> tz_file \<Rightarrow> tz_file" where
  "adv n f = f\<lparr>f_pos := f_pos f + int n\<rparr>"

lemma adv_adv [simp]: "adv n (adv m f) = adv (m + n) f"
  by (simp add: adv_def)

lemma adv_0 [simp]: "adv 0 f = f"
  by (simp add: adv_def)

lemma adv_pos [simp]: "f_pos (adv n f) = f_pos f + int n"
  by (simp add: adv_def)

lemma rest_adv [simp]: "0 \<le> f_pos f \<Longrightarrow> rest (adv n f) = drop n (rest f)"
  by (simp add: rest_def adv_def nat_add_distrib add.commute)

lemma fread_rest:
  "length xs = n \<Longrightarrow> rest f = xs @ ys \<Longrightarrow> fread n f = (xs, adv n f)"
  by (auto simp: fread_def rest_def [symmetric] adv_def)

lemma sint_word_of_int32: "i32_ok x \<Longrightarrow> sint (word_of_int x :: 32 word) = x"
  by (simp add: sint_sbintrunc' i32_ok_def signed_take_bit_int_eq_self)

lemma sint_word_of_int64: "- (2 ^ 63) \<le> x \<Longrightarrow> x < 2 ^ 63 \<Longrightarrow> sint (word_of_int x :: 64 word) = x"
  by (simp add: sint_sbintrunc' signed_take_bit_int_eq_self)

lemma length_be [simp]: "length (be32 x) = 4" "length (be64 x) = 8"
  by (simp_all add: be32_def be64_def)

lemma from_be32: "networkToHost32 (from_le (be32 x)) = word_of_int x"
proof -
  have "bswap 4 (bswap 4 (word_of_int x :: 32 word)) = word_of_int x" by (rule bswap_bswap) simp
  then show ?thesis by (simp add: networkToHost32_def be32_def bswap_def [of 4 "word_of_int x"])
qed

lemma from_be64: "networkToHost64 (from_le (be64 x)) = word_of_int x"
proof -
  have "bswap 8 (bswap 8 (word_of_int x :: 64 word)) = word_of_int x" by (rule bswap_bswap) simp
  then show ?thesis by (simp add: networkToHost64_def be64_def bswap_def [of 8 "word_of_int x"])
qed

lemma read_be32: "i32_ok x \<Longrightarrow> rest f = be32 x @ ys \<Longrightarrow> file_readInt32 f = Inr (x, adv 4 f)"
  using fread_rest [of "be32 x" 4 f ys]
  by (simp add: file_readInt32_def from_be32 sint_word_of_int32)

lemma read_be64:
  "- (2 ^ 63) \<le> x \<Longrightarrow> x < 2 ^ 63 \<Longrightarrow> rest f = be64 x @ ys \<Longrightarrow> file_readInt64 f = Inr (x, adv 8 f)"
  using fread_rest [of "be64 x" 8 f ys]
  by (simp add: file_readInt64_def from_be64 sint_word_of_int64)

lemma read_byte: "rest f = b # ys \<Longrightarrow> readUInt8 f = Inr (uint b, adv 1 f)"
  using fread_rest [of "[b]" 1 f ys] by (simp add: readUInt8_def)

lemma bytes_str_bytes [simp]: "bytes_str (str_bytes s) = s"
  by (simp add: bytes_str_def str_bytes_def comp_def unsigned_of_nat take_bit_nat_eq_self)

lemma length_str_bytes [simp]: "length (str_bytes s) = length s"
  by (simp add: str_bytes_def)

lemma read_str:
  "rest f = str_bytes s @ ys \<Longrightarrow> n = int (length s) \<Longrightarrow> readBytes n f = Inr (s, adv (length s) f)"
  using fread_rest [of "str_bytes s" "length s" f ys] by (simp add: readBytes_def)

lemma read_many_concat:
  assumes "\<And>x f ys. x \<in> set xs \<Longrightarrow> 0 \<le> f_pos f \<Longrightarrow> rest f = enc x @ ys
      \<Longrightarrow> rd f = Inr (g x, adv (length (enc x)) f)"
    and "0 \<le> f_pos f" and "rest f = concat (map enc xs) @ ys"
  shows "read_many rd (length xs) f = Inr (map g xs, adv (length (concat (map enc xs))) f)"
  using assms
proof (induction xs arbitrary: f)
  case Nil
  then show ?case by simp
next
  case (Cons x xs)
  have "rd f = Inr (g x, adv (length (enc x)) f)"
    using Cons.prems(3) by (intro Cons.prems(1) [OF _ Cons.prems(2)]) auto
  moreover have "read_many rd (length xs) (adv (length (enc x)) f) =
      Inr (map g xs, adv (length (concat (map enc xs))) (adv (length (enc x)) f))"
    using Cons.prems by (intro Cons.IH) auto
  ultimately show ?case by simp
qed

definition type_fields :: "LocalTime \<Rightarrow> int \<times> bool \<times> int" where
  "type_fields lt = (utcOffset lt, isDst lt, desigIdx lt)"

lemma read_type:
  assumes "i32_ok (utcOffset lt)" "0 \<le> desigIdx lt" "desigIdx lt < 256"
    and "0 \<le> f_pos f" and r: "rest f = enc_type lt @ ys"
  shows "read_local_type f = Inr (type_fields lt, adv (length (enc_type lt)) f)"
proof -
  have u: "uint (word_of_int (desigIdx lt) :: byte) = desigIdx lt"
    using assms(2,3) by (simp add: unsigned_of_int take_bit_int_eq_self)
  have "file_readInt32 f = Inr (utcOffset lt, adv 4 f)"
    using r by (intro read_be32 [OF assms(1)]) (simp add: enc_type_def)
  moreover have "readUInt8 (adv 4 f) = Inr (uint (if isDst lt then 1 else 0 :: byte), adv 1 (adv 4 f))"
    using assms(4) r by (intro read_byte) (simp add: enc_type_def)
  moreover have "readUInt8 (adv 5 f) = Inr (desigIdx lt, adv 1 (adv 5 f))"
    using read_byte [of "adv 5 f" "word_of_int (desigIdx lt)"] assms(4) r u
    by (simp add: enc_type_def)
  ultimately show ?thesis
    by (simp add: read_local_type_def type_fields_def enc_type_def)
qed

lemma fold_addLocalTime:
  "fold (\<lambda>(o', s, i). addLocalTime o' s i) (map type_fields lts) d
     = d\<lparr>localtimes := localtimes d @ lts\<rparr>"
  by (induction lts arbitrary: d) (auto simp: addLocalTime_def type_fields_def)

lemma foldR_addTransition:
  assumes "\<forall>tr \<in> set trs. 0 \<le> localtimeIdx tr \<and> localtimeIdx tr < int (length (localtimes d))
      \<and> localtime tr = utctime tr + utcOffset (localtimes d ! nat (localtimeIdx tr))"
  shows "foldR (\<lambda>(t, i). addTransition t i) (zip (map utctime trs) (map localtimeIdx trs)) d
     = Inr (d\<lparr>transitions := transitions d @ trs\<rparr>)"
  using assms
  by (induction trs arbitrary: d) (auto simp: addTransition_def vec_at_def)

lemma length_concat_4:
  "length (concat (map (\<lambda>x. be32 (g x)) xs)) = 4 * length xs"
  "length (concat (map (\<lambda>x. be64 (g x)) xs)) = 8 * length xs"
  by (induction xs) simp_all

lemma length_enc_types: "length (concat (map enc_type xs)) = 6 * length xs"
  by (induction xs) (simp_all add: enc_type_def)

lemma read_counts:
  assumes "0 \<le> f_pos f" and "rest f = be32 a @ be32 b @ be32 c @ be32 d @ be32 e @ be32 g @ ys"
    and "i32_ok a" "i32_ok b" "i32_ok c" "i32_ok d" "i32_ok e" "i32_ok g"
  shows "file_readInt32 f = Inr (a, adv 4 f)" "file_readInt32 (adv 4 f) = Inr (b, adv 8 f)"
    "file_readInt32 (adv 8 f) = Inr (c, adv 12 f)" "file_readInt32 (adv 12 f) = Inr (d, adv 16 f)"
    "file_readInt32 (adv 16 f) = Inr (e, adv 20 f)" "file_readInt32 (adv 20 f) = Inr (g, adv 24 f)"
  using assms read_be32 [of a f] read_be32 [of b "adv 4 f"] read_be32 [of c "adv 8 f"]
    read_be32 [of d "adv 12 f"] read_be32 [of e "adv 16 f"] read_be32 [of g "adv 20 f"]
  by simp_all

lemma read_times:
  assumes "fits v1 d" and "0 \<le> f_pos f"
    and "rest f = concat (map (\<lambda>tr. if v1 then be32 (utctime tr) else be64 (utctime tr)) (transitions d)) @ ys"
  shows "read_many (if v1 then file_readInt32 else file_readInt64) (length (transitions d)) f
    = Inr (map utctime (transitions d), adv ((if v1 then 4 else 8) * length (transitions d)) f)"
proof (cases v1)
  case True
  have "read_many file_readInt32 (length (transitions d)) f = Inr (map utctime (transitions d),
      adv (length (concat (map (\<lambda>tr. be32 (utctime tr)) (transitions d)))) f)"
    using assms True by (intro read_many_concat) (auto simp: fits_def intro: read_be32)
  with True show ?thesis by (simp add: length_concat_4)
next
  case False
  have "read_many file_readInt64 (length (transitions d)) f = Inr (map utctime (transitions d),
      adv (length (concat (map (\<lambda>tr. be64 (utctime tr)) (transitions d)))) f)"
    using assms False by (intro read_many_concat) (auto simp: fits_def intro: read_be64)
  with False show ?thesis by (simp add: length_concat_4)
qed

lemma read_indices:
  assumes "fits v1 d" and "0 \<le> f_pos f"
    and "rest f = map (\<lambda>tr. word_of_int (localtimeIdx tr)) (transitions d) @ ys"
  shows "read_many readUInt8 (length (transitions d)) f
    = Inr (map localtimeIdx (transitions d), adv (length (transitions d)) f)"
proof -
  let ?enc = "\<lambda>tr. [word_of_int (localtimeIdx tr) :: byte]"
  have one: "readUInt8 f = Inr (localtimeIdx tr, adv (length (?enc tr)) f)"
    if "tr \<in> set (transitions d)" "rest f = ?enc tr @ ys" for tr f ys
    using assms(1) that read_byte [of f "word_of_int (localtimeIdx tr)" ys]
    by (auto simp: fits_def unsigned_of_int take_bit_int_eq_self)
  have c: "concat (map ?enc xs) = map (\<lambda>tr. word_of_int (localtimeIdx tr)) xs" for xs
    by (induction xs) simp_all
  have "read_many readUInt8 (length (transitions d)) f
    = Inr (map localtimeIdx (transitions d), adv (length (concat (map ?enc (transitions d)))) f)"
    using assms by (intro read_many_concat one) (simp_all add: c)
  then show ?thesis unfolding c by simp
qed

lemma read_types:
  assumes "fits v1 d" and "0 \<le> f_pos f" and "rest f = concat (map enc_type (localtimes d)) @ ys"
  shows "read_many read_local_type (length (localtimes d)) f
    = Inr (map type_fields (localtimes d), adv (6 * length (localtimes d)) f)"
proof -
  have "read_many read_local_type (length (localtimes d)) f
    = Inr (map type_fields (localtimes d), adv (length (concat (map enc_type (localtimes d)))) f)"
    using assms by (intro read_many_concat read_type) (auto simp: fits_def)
  then show ?thesis by (simp add: length_enc_types)
qed

lemma counts_i32:
  assumes "fits v1 d"
  shows "i32_ok (int (length (transitions d)))" "i32_ok (int (length (localtimes d)))"
    "i32_ok (int (length (zone_abbreviation d)))" "i32_ok 0"
  using assms by (simp_all add: fits_def i32_ok_def)

lemma skip_0 [simp]: "0 \<le> f_pos f \<Longrightarrow> skip 0 f = f"
  by (simp add: skip_def)

lemma skip_adv: "0 \<le> f_pos f \<Longrightarrow> 0 \<le> n \<Longrightarrow> skip n f = adv (nat n) f"
  by (simp add: skip_def adv_def)

lemma bytes_str_readToEnd: "fst (readToEnd f) = bytes_str (rest f)"
  by (simp add: readToEnd_def fread_def rest_def Let_def)

lemma rest_step:
  assumes "rest f = xs @ ys" and "0 \<le> f_pos f" and "length xs = n"
  shows "rest (adv n f) = ys"
  using assms by simp

lemma readDataBlock_reads:
  assumes w: "wf_zone d" and F: "fits v1 d" and p: "0 \<le> f_pos f"
    and r: "rest f = enc_counts d @ enc_data v1 d @ ys"
  shows "readDataBlock v1 f new_data
    = Inr (True, d\<lparr>tzstring := if v1 then [] else bytes_str ys\<rparr>)"
proof -
  let ?trs = "transitions d" and ?lts = "localtimes d" and ?ab = "zone_abbreviation d"
  let ?n = "length ?trs" and ?m = "length ?lts" and ?t = "if v1 then 4 else 8 :: nat"
  note i = counts_i32 [OF F]
  have cs: "file_readInt32 f = Inr (0, adv 4 f)" "file_readInt32 (adv 4 f) = Inr (0, adv 8 f)"
    "file_readInt32 (adv 8 f) = Inr (0, adv 12 f)"
    "file_readInt32 (adv 12 f) = Inr (int ?n, adv 16 f)"
    "file_readInt32 (adv 16 f) = Inr (int ?m, adv 20 f)"
    "file_readInt32 (adv 20 f) = Inr (int (length ?ab), adv 24 f)"
    using read_counts [OF p, of 0 0 0 "int ?n" "int ?m" "int (length ?ab)" "enc_data v1 d @ ys"] r i
    by (simp_all add: enc_counts_def)
  let ?T = "concat (map (\<lambda>tr. if v1 then be32 (utctime tr) else be64 (utctime tr)) ?trs)"
  let ?I = "map (\<lambda>tr. word_of_int (localtimeIdx tr)) ?trs" and ?L = "concat (map enc_type ?lts)"
  let ?f1 = "adv 24 f" and ?f2 = "adv (24 + ?t * ?n) f" and ?f3 = "adv (24 + ?t * ?n + ?n) f"
  let ?f4 = "adv (24 + ?t * ?n + ?n + 6 * ?m) f"
  let ?f5 = "adv (24 + ?t * ?n + ?n + 6 * ?m + length ?ab) f"
  have lT: "length ?T = ?t * ?n" by (simp add: length_concat_4)
  have r1: "rest ?f1 = ?T @ ?I @ ?L @ str_bytes ?ab @ ys"
    using rest_step [OF r, of 24] p by (simp add: enc_counts_def enc_data_def)
  have r2: "rest ?f2 = ?I @ ?L @ str_bytes ?ab @ ys"
    using rest_step [OF r1 _ lT] p by simp
  have r3: "rest ?f3 = ?L @ str_bytes ?ab @ ys"
    using rest_step [OF r2, of ?n] p by simp
  have r4: "rest ?f4 = str_bytes ?ab @ ys"
    using rest_step [OF r3, of "6 * ?m"] p by (simp add: length_enc_types)
  have r5: "rest ?f5 = ys"
    using rest_step [OF r4, of "length ?ab"] p by simp
  have t: "read_many (if v1 then file_readInt32 else file_readInt64) ?n ?f1
      = Inr (map utctime ?trs, ?f2)"
    using read_times [OF F _ r1] p by simp
  have x: "read_many readUInt8 ?n ?f2 = Inr (map localtimeIdx ?trs, ?f3)"
    using read_indices [OF F _ r2] p by simp
  have y: "read_many read_local_type ?m ?f3 = Inr (map type_fields ?lts, ?f4)"
    using read_types [OF F _ r3] p by simp
  have z: "readBytes (int (length ?ab)) ?f4 = Inr (?ab, ?f5)"
    using read_str [OF r4 refl] by simp
  have a: "foldR (\<lambda>(t, i). addTransition t i) (zip (map utctime ?trs) (map localtimeIdx ?trs))
      (new_data\<lparr>localtimes := localtimes new_data @ ?lts\<rparr>)
    = Inr (new_data\<lparr>localtimes := ?lts, transitions := ?trs\<rparr>)"
    using foldR_addTransition [of ?trs "new_data\<lparr>localtimes := ?lts\<rparr>"] w
    by (simp add: wf_zone_def new_data_def)
  have d: "new_data\<lparr>localtimes := ?lts, transitions := ?trs, zone_abbreviation := ?ab\<rparr>
      = d\<lparr>tzstring := []\<rparr>"
    by (simp add: new_data_def)
  have e: "\<not> v1 \<Longrightarrow> fst (readToEnd ?f5) = bytes_str ys"
    unfolding bytes_str_readToEnd r5 ..
  show ?thesis
    unfolding readDataBlock_def Let_def
    using p d e by (simp add: cs vec_reserve_def t x y z fold_addLocalTime a)
qed

lemma enc_head_eq: "enc_head v = str_bytes ''TZif'' @ str_bytes [v] @ replicate 15 0"
  by (simp add: enc_head_def str_bytes_def)

lemma str_bytes_inverse: "str_bytes (bytes_str bs) = bs"
proof -
  have "of_nat (of_char (char_of (unat b) :: char)) = (b :: byte)" for b
    using unsigned_less [of b, where 'a = nat] by (simp add: unat_mod_distrib take_bit_nat_eq_self)
  then show ?thesis by (simp add: str_bytes_def bytes_str_def comp_def map_idI)
qed

lemma read_head:
  assumes p: "0 \<le> f_pos f" and r: "rest f = enc_head v @ ys"
  shows "readBytes 4 f = Inr (''TZif'', adv 4 f)" "readBytes 1 (adv 4 f) = Inr ([v], adv 5 f)"
    "\<exists>z. readBytes 15 (adv 5 f) = Inr (z, adv 20 f)" "rest (adv 20 f) = ys"
proof -
  have r0: "rest f = str_bytes ''TZif'' @ str_bytes [v] @ replicate 15 0 @ ys"
    using r by (simp add: enc_head_eq)
  show "readBytes 4 f = Inr (''TZif'', adv 4 f)" using read_str [OF r0] by (simp add: numeral_eq_Suc)
  have r1: "rest (adv 4 f) = str_bytes [v] @ replicate 15 0 @ ys" using rest_step [OF r0 p, of 4] by simp
  show "readBytes 1 (adv 4 f) = Inr ([v], adv 5 f)" using read_str [OF r1] by simp
  have r2: "rest (adv 5 f) = replicate 15 0 @ ys" using rest_step [OF r1, of 1] p by simp
  show "\<exists>z. readBytes 15 (adv 5 f) = Inr (z, adv 20 f)"
    using read_str [of "adv 5 f" "bytes_str (replicate 15 0)" ys 15] r2
    unfolding str_bytes_inverse by (simp add: bytes_str_def)
  show "rest (adv 20 f) = ys" using rest_step [OF r2, of 15] p by simp
qed

lemma length_enc_data:
  "length (enc_data v1 d) = (if v1 then 4 else 8) * length (transitions d) + length (transitions d)
     + 6 * length (localtimes d) + length (zone_abbreviation d)"
  by (simp add: enc_data_def length_concat_4 length_enc_types)

lemma length_enc_counts: "length (enc_counts d) = 24"
  by (simp add: enc_counts_def)

lemma header_counts:
  assumes "fits v1 d" and "0 \<le> f_pos f" and "rest f = enc_head v @ enc_counts d @ ys"
  shows "file_readInt32 (adv 20 f) = Inr (0, adv 24 f)" "file_readInt32 (adv 24 f) = Inr (0, adv 28 f)"
    "file_readInt32 (adv 28 f) = Inr (0, adv 32 f)"
    "file_readInt32 (adv 32 f) = Inr (int (length (transitions d)), adv 36 f)"
    "file_readInt32 (adv 36 f) = Inr (int (length (localtimes d)), adv 40 f)"
    "file_readInt32 (adv 40 f) = Inr (int (length (zone_abbreviation d)), adv 44 f)"
  using read_counts [of "adv 20 f" 0 0 0 "int (length (transitions d))" "int (length (localtimes d))"
      "int (length (zone_abbreviation d))" ys] read_head(4) [OF assms(2,3)] assms(2)
    counts_i32 [OF assms(1)]
  by (simp_all add: enc_counts_def)

lemma read_header_v1:
  assumes "wf_zone d" "fits True d" "0 \<le> f_pos f" "v \<noteq> CHR ''2''"
    and r: "rest f = enc_head v @ enc_counts d @ enc_data True d @ ys"
  shows "read_header f new_data = Inr (True, d\<lparr>tzstring := []\<rparr>)"
proof -
  note h = read_head [OF assms(3) r] and c = header_counts [OF assms(2,3) r]
  obtain z where z: "readBytes 15 (adv 5 f) = Inr (z, adv 20 f)" using h(3) by blast
  have s: "skip (-24) (adv 44 f) = adv 20 f"
    using assms(3) by (simp add: skip_def adv_def)
  have "readDataBlock True (adv 20 f) new_data = Inr (True, d\<lparr>tzstring := []\<rparr>)"
    using readDataBlock_reads [OF assms(1,2), of "adv 20 f" ys] h(4) assms(3) by simp
  then show ?thesis
    unfolding read_header_def Let_def using assms(4) by (simp add: h z c s)
qed

lemma read_header_v2:
  assumes w: "wf_zone d" "fits True d1" "fits False d" and p: "0 \<le> f_pos f"
    and r: "rest f = enc_head (CHR ''2'') @ enc_counts d1 @ enc_data True d1
      @ enc_head (CHR ''2'') @ enc_counts d @ enc_data False d @ str_bytes s"
  shows "read_header f new_data = Inr (True, d\<lparr>tzstring := s\<rparr>)"
proof -
  note h = read_head [OF p r] and c = header_counts [OF w(2) p r]
  obtain z where z: "readBytes 15 (adv 5 f) = Inr (z, adv 20 f)" using h(3) by blast
  let ?k = "44 + length (enc_data True d1)"
  have k: "skip (4 * int (length (transitions d1)) + int (length (transitions d1))
        + 6 * int (length (localtimes d1)) + int (length (zone_abbreviation d1))) (adv 44 f) = adv ?k f"
    using p by (simp add: skip_adv length_enc_data nat_add_distrib nat_mult_distrib)
  have b: "i32_ok (6 * int (length (localtimes d1)))" and b0: "i32_ok 0"
    using w(2) by (simp_all add: fits_def i32_ok_def)
  have r2: "rest (adv 44 f) = enc_data True d1 @ enc_head (CHR ''2'') @ enc_counts d
      @ enc_data False d @ str_bytes s"
    using rest_step [OF h(4), of 24] p by (simp add: length_enc_counts)
  have r3: "rest (adv ?k f) = enc_head (CHR ''2'') @ enc_counts d @ enc_data False d @ str_bytes s"
    using rest_step [OF r2] p by simp
  note h2 = read_head [of "adv ?k f", OF _ r3]
  have s: "skip 16 (adv (4 + ?k) f) = adv (20 + ?k) f"
    using p by (simp add: skip_adv)
  have "readDataBlock False (adv (20 + ?k) f) new_data = Inr (True, d\<lparr>tzstring := s\<rparr>)"
    using readDataBlock_reads [OF w(1,3), of "adv (20 + ?k) f" "str_bytes s"] h2(4) p
    by (simp add: add.commute)
  then show ?thesis
    unfolding read_header_def Let_def
    using h2(1) p s k by (simp add: h z c b add.commute [of ?k] b0)
qed

lemma fromUtcTime_ok:
  assumes c: "civil (dt_year dt) (dt_month dt) (dt_day dt)" and n: "jdn_of (dt_year dt) (dt_month dt) (dt_day dt) = n"
    and y: "-4799 \<le> dt_year dt" "dt_year dt \<le> 5874000"
    and t: "0 \<le> dt_hour dt" "dt_hour dt < 24" "0 \<le> dt_minute dt" "dt_minute dt < 60"
      "0 \<le> dt_second dt" "dt_second dt < 60"
  shows "fromUtcTime dt = Inr ((n - kJulianDayOf1970_01_01) * kSecondsPerDay
    + (dt_hour dt * 3600 + dt_minute dt * 60 + dt_second dt))"
proof -
  have "-31738 \<le> n" "n \<le> 2147483600" using jdn_first [OF c y(1)] jdn_top [OF c y] n by simp_all
  with getJulianDayNumber_ok [OF c y] n t show ?thesis
    by (simp add: fromUtcTime_def mk_date_def Let_def in_ints_def i32_ok_def epoch_jdn)
qed

lemma toUtcTime_fields:
  assumes "in_break_range t"
  shows "toUtcTime t = Inr (utc_time t)" "fromUtcTime (utc_time t) = Inr t"
    "let dt = utc_time t in civil (dt_year dt) (dt_month dt) (dt_day dt)
     \<and> 0 \<le> dt_hour dt \<and> dt_hour dt < 24 \<and> 0 \<le> dt_minute dt \<and> dt_minute dt < 60
     \<and> 0 \<le> dt_second dt \<and> dt_second dt < 60"
proof -
  let ?K = kSecondsPerDay
  define s where "s = t mod ?K"
  define n where "n = t div ?K + kJulianDayOf1970_01_01"
  have K: "?K = 86400" by (simp add: kSecondsPerDay_def)
  have s: "0 \<le> s" "s < 86400" using K by (simp_all add: s_def)
  have "-31738 \<le> n" "n \<le> 536838867"
    using break_range_days [OF assms] by (simp_all add: epoch_jdn n_def)
  then obtain y m d where c: "civil y m d" "-4799 \<le> y" "y \<le> 5874000" "jdn_of y m d = n"
    "getJulianDayNumber y m d = Inr n" "getYearMonthDay n = Inr \<lparr>ymd_year = y, ymd_month = m, ymd_day = d\<rparr>"
    by (rule date_of_jdn_in_range)
  have v: "ymd_of n = \<lparr>ymd_year = y, ymd_month = m, ymd_day = d\<rparr>"
    using ymd_of_jdn [OF c(1,2)] c(4) by simp
  have e: "utc_time t = \<lparr>dt_year = y, dt_month = m, dt_day = d, dt_hour = s div 60 div 60,
      dt_minute = s div 60 mod 60, dt_second = s mod 60\<rparr>"
    unfolding utc_time_def Let_def s_def [symmetric] n_def [symmetric] v by simp
  show "toUtcTime t = Inr (utc_time t)" unfolding toUtcTime_def by (rule BreakTime_eq [OF assms])
  have h: "s div 60 div 60 < 24" "0 \<le> s div 60 div 60"
    using s div_bounds [of 60 0 s 1440] div_bounds [of 60 0 "s div 60" 24] by auto
  have m: "0 \<le> s div 60 mod 60" "s div 60 mod 60 < 60" "0 \<le> s mod 60" "s mod 60 < 60" by simp_all
  have "(n - kJulianDayOf1970_01_01) * ?K + s = t" by (simp add: n_def s_def)
  moreover have "fromUtcTime (utc_time t) = Inr ((n - kJulianDayOf1970_01_01) * ?K
      + (s div 60 div 60 * 3600 + s div 60 mod 60 * 60 + s mod 60))"
    unfolding e by (subst fromUtcTime_ok [where n = n]) (simp_all only: DateTime.select_convs c h m)
  ultimately show "fromUtcTime (utc_time t) = Inr t" by (simp only: seconds_split)
  show "let dt = utc_time t in civil (dt_year dt) (dt_month dt) (dt_day dt)
     \<and> 0 \<le> dt_hour dt \<and> dt_hour dt < 24 \<and> 0 \<le> dt_minute dt \<and> dt_minute dt < 60
     \<and> 0 \<le> dt_second dt \<and> dt_second dt < 60"
    unfolding Let_def by (intro conjI, unfold e DateTime.select_convs) (rule c(1) h m)+
qed

section \<open>Properties\<close>

text \<open>
  C23. Breaking a UTC time down and composing it again gives the time back, from the first
  representable date to the year 1.4 million: \<open>toUtcTime\<close> yields a date of the calendar with
  an hour, minute and second in range, also before 1970, and \<open>fromUtcTime\<close> inverts it; no \<open>int\<close>
  operation on the way overflows.
\<close>

theorem utc_time_roundtrip:
  assumes "in_break_range t"
  shows "\<exists>dt. toUtcTime t = Inr dt \<and> fromUtcTime dt = Inr t
     \<and> civil (dt_year dt) (dt_month dt) (dt_day dt)
     \<and> 0 \<le> dt_hour dt \<and> dt_hour dt < 24 \<and> 0 \<le> dt_minute dt \<and> dt_minute dt < 60
     \<and> 0 \<le> dt_second dt \<and> dt_second dt < 60"
  using toUtcTime_fields [OF assms] unfolding Let_def by blast

theorem utc_time_roundtrip_witness:
  "in_break_range (-1) \<and> (\<exists>dt. toUtcTime (-1) = Inr dt \<and> fromUtcTime dt = Inr (-1)
     \<and> civil (dt_year dt) (dt_month dt) (dt_day dt))"
proof -
  have r: "in_break_range (-1)" by (simp add: in_break_range_def kSecondsPerDay_def)
  show ?thesis using r utc_time_roundtrip [OF r] by blast
qed

text \<open>
  C22. On well-formed zone data the offset used for a UTC time is that of the last transition
  not after it, or of the first local time before all transitions; the binary search of
  \<open>std::upper_bound\<close> finds that transition, and \<open>toLocalTime\<close> breaks the shifted time down.
\<close>

theorem local_time_in_force:
  assumes "wf_zone d"
  shows "findLocalTime_utc d t = Inr (in_force d t)
     \<and> toLocalTime (Some d) t
        = bindR (BreakTime (t + utcOffset (in_force d t))) (\<lambda>dt. Inr (dt, utcOffset (in_force d t)))"
  using findLocalTime_utc_in_force [OF assms] by (simp add: toLocalTime_def)

definition sample_zone :: zone_data where
  "sample_zone = \<lparr>transitions = [\<lparr>utctime = 1000, localtime = 4600, localtimeIdx = 1\<rparr>,
       \<lparr>utctime = 9000, localtime = 9000, localtimeIdx = 0\<rparr>],
     localtimes = [\<lparr>utcOffset = 0, isDst = False, desigIdx = 0\<rparr>,
       \<lparr>utcOffset = 3600, isDst = True, desigIdx = 4\<rparr>],
     zone_abbreviation = ''GMTBST'', tzstring = ''GMT0BST''\<rparr>"

lemma sample_zone_wf: "wf_zone sample_zone" "fits True sample_zone" "fits False sample_zone"
  by (simp_all add: sample_zone_def wf_zone_def fits_def i32_ok_def)

theorem local_time_in_force_witness:
  "wf_zone sample_zone \<and> findLocalTime_utc sample_zone 8999 = Inr (localtimes sample_zone ! 1)
     \<and> toLocalTime (Some sample_zone) 500 = Inr (utc_time 500, 0)"
  using BreakTime_eq [of 500] sample_zone_wf(1) local_time_in_force [OF sample_zone_wf(1), of 8999]
    local_time_in_force [OF sample_zone_wf(1), of 500]
  by (simp add: in_force_def sample_zone_def in_break_range_def kSecondsPerDay_def)

text \<open>
  C21. \<open>TimeZone::loadZoneFile\<close> reads back what the TZif format writes: a version 2 file gives
  the 64-bit block with its footer string, its version 1 block being skipped, and a version 1
  file gives its only block; a file that does not open gives an invalid zone.
\<close>

theorem tzif_reads_back:
  assumes "wf_zone d" and "fits False d" and "fits True d1" and "wf_zone d1"
  shows "loadZoneFile (Some (enc_v2 d1 d)) = Inr (Some d)
     \<and> loadZoneFile (Some (enc_v1 d1)) = Inr (Some (d1\<lparr>tzstring := []\<rparr>))
     \<and> loadZoneFile None = Inr invalid_zone"
proof (intro conjI)
  let ?f = "\<lambda>bs. \<lparr>f_bytes = bs, f_pos = 0\<rparr>"
  have "read_header (?f (enc_v2 d1 d)) new_data = Inr (True, d\<lparr>tzstring := tzstring d\<rparr>)"
    by (rule read_header_v2 [OF assms(1,3,2)]) (simp_all add: rest_def enc_v2_def)
  then show "loadZoneFile (Some (enc_v2 d1 d)) = Inr (Some d)"
    by (simp add: loadZoneFile_def readTimeZoneFile_def)
  have "read_header (?f (enc_v1 d1)) new_data = Inr (True, d1\<lparr>tzstring := []\<rparr>)"
    by (rule read_header_v1 [OF assms(4,3), of _ "CHR 0x00" "[]"]) (simp_all add: rest_def enc_v1_def)
  then show "loadZoneFile (Some (enc_v1 d1)) = Inr (Some (d1\<lparr>tzstring := []\<rparr>))"
    by (simp add: loadZoneFile_def readTimeZoneFile_def)
  show "loadZoneFile None = Inr invalid_zone"
    by (simp add: loadZoneFile_def readTimeZoneFile_def invalid_zone_def)
qed

theorem tzif_reads_back_witness:
  "wf_zone sample_zone \<and> loadZoneFile (Some (enc_v2 sample_zone sample_zone)) = Inr (Some sample_zone)"
  using sample_zone_wf tzif_reads_back [OF sample_zone_wf(1,3,2,1)] by simp

end
