(* ===== verification/TimeStamps.thy ===== *)
theory TimeStamps
  imports Dates
begin

text \<open>
  \<open>src/src/base/TimeStamp.h\<close> and \<open>TimeStamp.cc\<close>: a time as microseconds since the epoch.
  \<open>gettimeofday\<close> is an argument; \<open>gmtime_r\<close> is the POSIX broken-down UTC time over the
  Gregorian calendar of \<open>Dates\<close>. An \<open>int64_t\<close> of microseconds is an unbounded integer here: sums and
  differences leave its range only for times some 292000 years away.
\<close>

section \<open>Translation\<close>

record TimeStamp =
  microSecondsSinceEpoch :: int

definition kMicroSecondsPerSecond :: int where
  "kMicroSecondsPerSecond = 1000 * 1000"

definition KPerSecondMicroSecondsCount :: int where
  "KPerSecondMicroSecondsCount = 1000 * 1000"

definition ts_invalid :: TimeStamp where
  "ts_invalid = \<lparr>microSecondsSinceEpoch = 0\<rparr>"

definition ts_of :: "int \<Rightarrow> TimeStamp" where
  "ts_of us = \<lparr>microSecondsSinceEpoch = us\<rparr>"

definition ts_swap :: "TimeStamp \<Rightarrow> TimeStamp \<Rightarrow> TimeStamp \<times> TimeStamp" where
  "ts_swap t that = (that, t)"

definition ts_valid :: "TimeStamp \<Rightarrow> bool" where
  "ts_valid t \<longleftrightarrow> microSecondsSinceEpoch t > 0"

definition secondsSinceEpoch :: "TimeStamp \<Rightarrow> int" where
  "secondsSinceEpoch t = microSecondsSinceEpoch t sdiv kMicroSecondsPerSecond"

definition fromUnixTime_us :: "int \<Rightarrow> int \<Rightarrow> TimeStamp" where
  "fromUnixTime_us t microseconds = ts_of (t * kMicroSecondsPerSecond + microseconds)"

definition fromUnixTime :: "int \<Rightarrow> TimeStamp" where
  "fromUnixTime t = fromUnixTime_us t 0"

definition ts_less :: "TimeStamp \<Rightarrow> TimeStamp \<Rightarrow> bool" where
  "ts_less lhs rhs \<longleftrightarrow> microSecondsSinceEpoch lhs < microSecondsSinceEpoch rhs"

definition ts_equal :: "TimeStamp \<Rightarrow> TimeStamp \<Rightarrow> bool" where
  "ts_equal lhs rhs \<longleftrightarrow> microSecondsSinceEpoch lhs = microSecondsSinceEpoch rhs"

text \<open>\<open>delta\<close> is the value of \<open>static_cast<int64_t>(seconds * kMicroSecondsPerSecond)\<close>.\<close>

definition addTime :: "TimeStamp \<Rightarrow> int \<Rightarrow> TimeStamp" where
  "addTime timeStamp delta = ts_of (microSecondsSinceEpoch timeStamp + delta)"

definition ts_toString :: "TimeStamp \<Rightarrow> string" where
  "ts_toString t =
     (let seconds = microSecondsSinceEpoch t sdiv kMicroSecondsPerSecond;
          microseconds = microSecondsSinceEpoch t smod kMicroSecondsPerSecond
      in fst (snprintf 32 (fmt_d seconds @ ''.'' @ fmt_0wd 6 microseconds)))"

definition gmtime_r :: "int \<Rightarrow> tm" where
  "gmtime_r seconds =
     (let ymd = ymd_of (seconds div 86400 + 2440588); s = seconds mod 86400
      in \<lparr>tm_year = ymd_year ymd - 1900, tm_mon = ymd_month ymd - 1, tm_mday = ymd_day ymd,
          tm_hour = s div 3600, tm_min = s div 60 mod 60, tm_sec = s mod 60\<rparr>)"

definition ts_toFormattedString :: "bool \<Rightarrow> TimeStamp \<Rightarrow> string" where
  "ts_toFormattedString showMicroseconds t =
     (let seconds = microSecondsSinceEpoch t sdiv kMicroSecondsPerSecond;
          tm_time = gmtime_r seconds
      in if showMicroseconds then
           let microseconds = to_i32 (microSecondsSinceEpoch t smod kMicroSecondsPerSecond)
           in fst (snprintf 64 (fmt_wd 4 (tm_year tm_time + 1900) @ fmt_0wd 2 (tm_mon tm_time + 1)
                @ fmt_0wd 2 (tm_mday tm_time) @ '' '' @ fmt_0wd 2 (tm_hour tm_time) @ '':''
                @ fmt_0wd 2 (tm_min tm_time) @ '':'' @ fmt_0wd 2 (tm_sec tm_time) @ ''.''
                @ fmt_0wd 6 microseconds))
         else
           fst (snprintf 64 (fmt_wd 4 (tm_year tm_time + 1900) @ fmt_0wd 2 (tm_mon tm_time + 1)
                @ fmt_0wd 2 (tm_mday tm_time) @ '' '' @ fmt_0wd 2 (tm_hour tm_time) @ '':''
                @ fmt_0wd 2 (tm_min tm_time) @ '':'' @ fmt_0wd 2 (tm_sec tm_time))))"

definition ts_now :: "int \<Rightarrow> int \<Rightarrow> TimeStamp" where
  "ts_now tv_sec tv_usec = ts_of (tv_sec * kMicroSecondsPerSecond + tv_usec)"

section \<open>Lemmas\<close>

lemma micro_split:
  assumes "0 \<le> t"
  shows "t sdiv kMicroSecondsPerSecond = t div 1000000" "t smod kMicroSecondsPerSecond = t mod 1000000"
  using assms by (simp_all add: kMicroSecondsPerSecond_def sdiv_nonneg smod_nonneg)

lemma nat_str_chars: "x \<in> set (nat_str n) \<Longrightarrow> 48 \<le> (of_char x :: nat)"
proof (induction n rule: nat_str.induct)
  case (1 n)
  then show ?case
    by (cases "n < 10") (auto simp: nat_str_small nat_str_step digit_char_def of_char_of)
qed

lemma takeWhile_nat_str:
  "of_char c < (48 :: nat) \<Longrightarrow> takeWhile (\<lambda>x. x \<noteq> c) (nat_str n @ c # s) = nat_str n"
  using nat_str_chars [of _ n] by (subst takeWhile_append2) fastforce+

section \<open>Properties\<close>

text \<open>
  \<open>TimeStamp::toString\<close> loses nothing for a time not before the epoch: the text before the
  dot reads back as the seconds, the six characters after it as the microseconds, and together
  they are the time, the 32-byte buffer being enough for every 64-bit value.
\<close>

theorem timestamp_text:
  assumes "0 \<le> t" and "t < 2 ^ 63"
  shows "let s = ts_toString (ts_of t); whole = takeWhile (\<lambda>c. c \<noteq> CHR ''.'') s;
             frac = drop (length whole + 1) s
     in length frac = 6 \<and> int (digits_val whole) * 1000000 + int (digits_val frac) = t
        \<and> fromUnixTime_us (int (digits_val whole)) (int (digits_val frac)) = ts_of t"
proof -
  let ?sec = "nat (t div 1000000)" and ?us = "t mod 1000000"
  have "nat (t div 1000000) < 10 ^ Suc 12" using assms by simp
  from length_nat_str_le [OF this] have l: "length (nat_str ?sec) \<le> 13" by simp
  have u: "length (fmt_0wd 6 ?us) = 6"
    by (rule length_fmt_0wd [where k = 5]) simp_all
  have "7 \<le> 31 - length (nat_str ?sec)" "\<not> t div 1000000 < 0"
    using l assms(1) by (simp_all add: pos_imp_zdiv_nonneg_iff not_less)
  then have s: "ts_toString (ts_of t) = nat_str ?sec @ CHR ''.'' # fmt_0wd 6 ?us"
    using assms(1) u
    by (simp add: ts_toString_def ts_of_def micro_split snprintf_def fmt_d_def Let_def)
  have "takeWhile (\<lambda>c. c \<noteq> CHR ''.'') (ts_toString (ts_of t)) = nat_str ?sec"
    unfolding s by (rule takeWhile_nat_str) simp
  moreover have "t div 1000000 * 1000000 + ?us = t" by simp
  ultimately show ?thesis
    using assms(1) u
    by (simp add: Let_def s fromUnixTime_us_def kMicroSecondsPerSecond_def pos_imp_zdiv_nonneg_iff)
qed

theorem timestamp_text_witness:
  "int (digits_val (takeWhile (\<lambda>c. c \<noteq> CHR ''.'') (ts_toString (ts_of 1500000)))) * 1000000
     + int (digits_val (drop (length (takeWhile (\<lambda>c. c \<noteq> CHR ''.'') (ts_toString (ts_of 1500000))) + 1)
         (ts_toString (ts_of 1500000)))) = 1500000"
  using timestamp_text [of 1500000] by (simp add: Let_def)

end
