(* ===== verification/StdSets.thy ===== *)
theory StdSets
  imports Prelude "HOL-Library.Product_Lexorder"
begin

text \<open>
  \<open>std::set\<close>: an ordered container without duplicates, as the strictly increasing list its
  iterators run over. A pair is ordered lexicographically, as \<open>std::pair\<close> is. The locale
  \<open>ordered_set\<close> states what the program relies on; the list model is its interpretation.
\<close>

section \<open>The container\<close>

definition set_ok :: "'a::linorder list \<Rightarrow> bool" where
  "set_ok s \<longleftrightarrow> sorted s \<and> distinct s"

definition set_insert :: "'a::linorder \<Rightarrow> 'a list \<Rightarrow> bool \<times> 'a list" where
  "set_insert x s = (if x \<in> set s then (False, s) else (True, insort x s))"

definition set_erase :: "'a::linorder \<Rightarrow> 'a list \<Rightarrow> nat \<times> 'a list" where
  "set_erase x s = (if x \<in> set s then (1, remove1 x s) else (0, s))"

text \<open>The elements before the lower bound of a key, and those from it on.\<close>

definition set_before :: "('a \<Rightarrow> bool) \<Rightarrow> 'a list \<Rightarrow> 'a list" where
  "set_before less_key s = takeWhile less_key s"

definition set_from :: "('a \<Rightarrow> bool) \<Rightarrow> 'a list \<Rightarrow> 'a list" where
  "set_from less_key s = dropWhile less_key s"

section \<open>The interface\<close>

locale ordered_set =
  fixes elems :: "'s \<Rightarrow> 'a::linorder set"
    and ok :: "'s \<Rightarrow> bool"
    and ins :: "'a \<Rightarrow> 's \<Rightarrow> bool \<times> 's"
    and del :: "'a \<Rightarrow> 's \<Rightarrow> nat \<times> 's"
    and size_of :: "'s \<Rightarrow> nat"
  assumes ins_ok: "ok s \<Longrightarrow> ok (snd (ins x s))"
    and ins_elems: "ok s \<Longrightarrow> elems (snd (ins x s)) = insert x (elems s)"
    and ins_new: "ok s \<Longrightarrow> fst (ins x s) \<longleftrightarrow> x \<notin> elems s"
    and del_ok: "ok s \<Longrightarrow> ok (snd (del x s))"
    and del_elems: "ok s \<Longrightarrow> elems (snd (del x s)) = elems s - {x}"
    and del_count: "ok s \<Longrightarrow> fst (del x s) = (if x \<in> elems s then 1 else 0)"
    and size_card: "ok s \<Longrightarrow> size_of s = card (elems s) \<and> finite (elems s)"
begin

lemma ins_fresh:
  assumes "ok s" and "x \<notin> elems s"
  obtains t where "ins x s = (True, t)" "ok t" "elems t = insert x (elems s)"
    "size_of t = Suc (size_of s)"
proof -
  obtain b t where e: "ins x s = (b, t)" by (cases "ins x s")
  with assms ins_ok [of s x] ins_elems [of s x] ins_new [of s x]
  have t: "b" "ok t" "elems t = insert x (elems s)" by simp_all
  moreover from t assms(2) size_card [OF t(2)] size_card [OF assms(1)]
  have "size_of t = Suc (size_of s)" by simp
  ultimately show ?thesis using that e by simp
qed

lemma del_member:
  assumes "ok s" and "x \<in> elems s"
  obtains t where "del x s = (1, t)" "ok t" "elems t = elems s - {x}" "Suc (size_of t) = size_of s"
proof -
  obtain b t where e: "del x s = (b, t)" by (cases "del x s")
  with assms del_ok [of s x] del_elems [of s x] del_count [of s x]
  have t: "b = 1" "ok t" "elems t = elems s - {x}" by simp_all
  moreover have "Suc (size_of t) = size_of s"
    using t(3) assms(2) size_card [OF t(2)] size_card [OF assms(1)]
    by (metis card.remove card_Suc_Diff1)
  ultimately show ?thesis using that e by simp
qed

end

interpretation oset: ordered_set set set_ok set_insert set_erase length
proof unfold_locales
  fix s :: "'a::linorder list" and x
  assume s: "set_ok s"
  then show "set_ok (snd (set_insert x s))"
    by (auto simp: set_ok_def set_insert_def sorted_insort distinct_insort)
  show "set (snd (set_insert x s)) = insert x (set s)"
    by (auto simp: set_insert_def set_insort_key)
  show "fst (set_insert x s) \<longleftrightarrow> x \<notin> set s" by (simp add: set_insert_def)
  show "set_ok (snd (set_erase x s))"
    using s by (auto simp: set_ok_def set_erase_def sorted_remove1)
  show "set (snd (set_erase x s)) = set s - {x}"
    using s by (auto simp: set_ok_def set_erase_def)
  show "fst (set_erase x s) = (if x \<in> set s then 1 else 0)" by (simp add: set_erase_def)
  show "length s = card (set s) \<and> finite (set s)"
    using s by (simp add: set_ok_def distinct_card)
qed

lemma set_ok_Nil [simp]: "set_ok []"
  by (simp add: set_ok_def)

lemma set_ok_hd: "set_ok s \<Longrightarrow> x \<in> set s \<Longrightarrow> hd s \<le> x"
  by (cases s) (auto simp: set_ok_def)

lemma set_split_ok: "set_ok s \<Longrightarrow> set_ok (set_before p s) \<and> set_ok (set_from p s)"
  unfolding set_ok_def set_before_def set_from_def
  by (metis distinct_takeWhile distinct_dropWhile sorted_takeWhile sorted_dropWhile)

lemma set_split_append: "set_before p s @ set_from p s = s"
  by (simp add: set_before_def set_from_def)

lemma set_before_filter:
  assumes "set_ok s" and mono: "\<And>x y. x \<le> y \<Longrightarrow> p y \<Longrightarrow> p x"
  shows "set_before p s = filter p s \<and> set_from p s = filter (\<lambda>x. \<not> p x) s"
  using assms(1)
proof (induction s)
  case Nil
  then show ?case by (simp add: set_before_def set_from_def)
next
  case (Cons a s)
  have none: "\<not> p a \<Longrightarrow> \<forall>x \<in> set s. \<not> p x"
    using Cons.prems mono by (auto simp: set_ok_def)
  with Cons show ?case
    by (auto simp: set_ok_def set_before_def set_from_def filter_empty_conv filter_id_conv)
qed

end
