(* ===== verification/TimerQueues.thy ===== *)
theory TimerQueues
  imports TimeStamps StdSets
begin

text \<open>
  \<open>src/src/net/Timer.h\<close>, \<open>Timer.cc\<close>, \<open>TimerId.h\<close>, \<open>TimerQueue.h\<close> and \<open>TimerQueue.cc\<close>:
  the timers of an event loop. A \<open>Timer*\<close> is a natural number and the heap maps the live ones
  to their objects, so a use after \<open>delete\<close> is \<open>Undefined\<close>. \<open>operator new\<close> is a parameter.
  A \<open>double\<close> interval is what the code computes from it: whether it is positive and the
  microseconds \<open>static_cast<int64_t>(interval * 1000000)\<close>. Every call is made on the loop's
  thread, where \<open>runInLoop\<close> calls at once. \<open>clock\<close> is what \<open>TimeStamp::now\<close> returns. Times are unbounded
  integers, as in \<open>TimeStamps\<close>.
\<close>

section \<open>Timers\<close>

type_synonym callback = nat

record timer =
  m_timeCb :: callback
  m_expiration :: int
  m_interval :: int
  m_repeat :: bool
  m_sequence :: int

definition timer_restart :: "int \<Rightarrow> timer \<Rightarrow> timer" where
  "timer_restart now t =
     (if m_repeat t then t\<lparr>m_expiration := microSecondsSinceEpoch (addTime (ts_of now) (m_interval t))\<rparr>
      else t\<lparr>m_expiration := microSecondsSinceEpoch ts_invalid\<rparr>)"

text \<open>A \<open>TimerId\<close> is the pointer and the sequence number.\<close>

type_synonym timer_id = "nat \<times> int"

section \<open>The queue\<close>

record timespec =
  tv_sec :: int
  tv_nsec :: int

definition howMuchTimeFromNow :: "int \<Rightarrow> int \<Rightarrow> timespec" where
  "howMuchTimeFromNow now when =
     (let microseconds = when - now;
          microseconds = (if microseconds < 100 then 100 else microseconds)
      in \<lparr>tv_sec = microseconds sdiv KPerSecondMicroSecondsCount,
          tv_nsec = (microseconds smod KPerSecondMicroSecondsCount) * 1000\<rparr>)"

text \<open>
  \<open>timerFd\<close> is the one-shot setting of the kernel timer: the time it was set and the timespec.
\<close>

record timer_queue =
  heap :: "nat \<Rightarrow> timer option"
  numTimerCreated :: int
  clock :: int
  timerFd :: "(int \<times> timespec) option"
  m_timeList :: "(int \<times> nat) list"
  m_activeTimers :: "timer_id list"
  m_callingExpiredTimer :: bool
  m_cancelingTimer :: "timer_id list"

definition new_timer_queue :: "int \<Rightarrow> timer_queue" where
  "new_timer_queue now = \<lparr>heap = \<lambda>_. None, numTimerCreated = 0, clock = now, timerFd = None,
     m_timeList = [], m_activeTimers = [], m_callingExpiredTimer = False, m_cancelingTimer = []\<rparr>"

definition UINTPTR_MAX :: nat where
  "UINTPTR_MAX = 2 ^ 64 - 1"

definition deref :: "nat \<Rightarrow> timer_queue \<Rightarrow> timer res" where
  "deref a q = (case heap q a of None \<Rightarrow> Inl Undefined | Some t \<Rightarrow> Inr t)"

definition free_timer :: "nat \<Rightarrow> timer_queue \<Rightarrow> timer_queue" where
  "free_timer a q = q\<lparr>heap := (heap q)(a := None)\<rparr>"

text \<open>\<open>new Timer\<close>: the constructor takes the next sequence number.\<close>

definition new_timer ::
  "((nat \<Rightarrow> timer option) \<Rightarrow> nat option) \<Rightarrow> callback \<Rightarrow> int \<Rightarrow> int \<Rightarrow> bool \<Rightarrow> timer_queue
     \<Rightarrow> (nat \<times> timer_queue) res" where
  "new_timer malloc cb when interval rep q =
     (case malloc (heap q) of
        None \<Rightarrow> Inl Bad_alloc
      | Some a \<Rightarrow> Inr (a, q\<lparr>heap := (heap q)(a \<mapsto> \<lparr>m_timeCb = cb, m_expiration = when,
            m_interval = interval, m_repeat = rep, m_sequence = numTimerCreated q\<rparr>),
          numTimerCreated := numTimerCreated q + 1\<rparr>))"

definition resetTimerFd :: "int \<Rightarrow> timer_queue \<Rightarrow> timer_queue" where
  "resetTimerFd expirations q =
     q\<lparr>timerFd := Some (clock q, howMuchTimeFromNow (clock q) expirations)\<rparr>"

text \<open>Reading the descriptor clears an expired one-shot timer.\<close>

definition readTimerfd :: "timer_queue \<Rightarrow> timer_queue" where
  "readTimerfd q = q\<lparr>timerFd := None\<rparr>"

definition tq_insert :: "nat \<Rightarrow> timer_queue \<Rightarrow> (bool \<times> timer_queue) res" where
  "tq_insert timer q =
     assertR (length (m_timeList q) = length (m_activeTimers q))
      (bindR (deref timer q) (\<lambda>t.
       let when = m_expiration t;
           earliestChanged = (m_timeList q = [] \<or> when < fst (hd (m_timeList q)));
           (r1, timeList) = set_insert (when, timer) (m_timeList q)
       in assertR r1
           (let (r2, active) = set_insert (timer, m_sequence t) (m_activeTimers q)
            in assertR r2
                (assertR (length timeList = length active)
                  (Inr (earliestChanged, q\<lparr>m_timeList := timeList, m_activeTimers := active\<rparr>))))))"

definition addTimerInLoop :: "nat \<Rightarrow> timer_queue \<Rightarrow> timer_queue res" where
  "addTimerInLoop timer q =
     bindR (tq_insert timer q) (\<lambda>(earlistChanged, q).
       if earlistChanged then bindR (deref timer q) (\<lambda>t. Inr (resetTimerFd (m_expiration t) q))
       else Inr q)"

definition addTimer ::
  "((nat \<Rightarrow> timer option) \<Rightarrow> nat option) \<Rightarrow> callback \<Rightarrow> int \<Rightarrow> int \<Rightarrow> bool \<Rightarrow> timer_queue
     \<Rightarrow> (timer_id \<times> timer_queue) res" where
  "addTimer malloc cb when interval rep q =
     bindR (new_timer malloc cb when interval rep q) (\<lambda>(timer, q).
     bindR (addTimerInLoop timer q) (\<lambda>q.
     bindR (deref timer q) (\<lambda>t. Inr ((timer, m_sequence t), q))))"

definition cancelInLoop :: "timer_id \<Rightarrow> timer_queue \<Rightarrow> timer_queue res" where
  "cancelInLoop timer q =
     assertR (length (m_timeList q) = length (m_activeTimers q))
      (bindR
        (if timer \<in> set (m_activeTimers q) then
           bindR (deref (fst timer) q) (\<lambda>t.
             let (n, timeList) = set_erase (m_expiration t, fst timer) (m_timeList q)
             in assertR (n = 1)
                 (Inr (free_timer (fst timer)
                    (q\<lparr>m_timeList := timeList, m_activeTimers := snd (set_erase timer (m_activeTimers q))\<rparr>))))
         else if m_callingExpiredTimer q then
           Inr (q\<lparr>m_cancelingTimer := snd (set_insert timer (m_cancelingTimer q))\<rparr>)
         else Inr q)
        (\<lambda>q. assertR (length (m_timeList q) = length (m_activeTimers q)) (Inr q)))"

definition cancel :: "timer_id \<Rightarrow> timer_queue \<Rightarrow> timer_queue res" where
  "cancel timerId q = cancelInLoop timerId q"

definition getExpired :: "int \<Rightarrow> timer_queue \<Rightarrow> ((int \<times> nat) list \<times> timer_queue) res" where
  "getExpired now q =
     (let below = (\<lambda>e. e < (now, UINTPTR_MAX));
          expired = set_before below (m_timeList q);
          later = set_from below (m_timeList q)
      in assertR (later = [] \<or> now < fst (hd later))
          (bindR (foldR (\<lambda>e q.
               bindR (deref (snd e) q) (\<lambda>t.
                 let (n, active) = set_erase (snd e, m_sequence t) (m_activeTimers q)
                 in assertR (n = 1) (Inr (q\<lparr>m_activeTimers := active\<rparr>))))
             expired (q\<lparr>m_timeList := later\<rparr>))
           (\<lambda>q. assertR (length (m_activeTimers q) = length (m_timeList q)) (Inr (expired, q)))))"

definition reset_one :: "int \<Rightarrow> int \<times> nat \<Rightarrow> timer_queue \<Rightarrow> timer_queue res" where
  "reset_one now e q =
     bindR (deref (snd e) q) (\<lambda>t.
       if m_repeat t \<and> (snd e, m_sequence t) \<notin> set (m_cancelingTimer q)
       then bindR (tq_insert (snd e) (q\<lparr>heap := (heap q)(snd e \<mapsto> timer_restart now t)\<rparr>))
              (\<lambda>(_, q). Inr q)
       else Inr (free_timer (snd e) q))"

definition tq_reset :: "(int \<times> nat) list \<Rightarrow> int \<Rightarrow> timer_queue \<Rightarrow> timer_queue res" where
  "tq_reset expired now q =
     bindR (foldR (reset_one now) expired q) (\<lambda>q.
       let nextExpired = (if m_timeList q \<noteq> [] then ts_of (fst (hd (m_timeList q))) else ts_invalid)
       in if ts_valid nextExpired then Inr (resetTimerFd (microSecondsSinceEpoch nextExpired) q)
          else Inr q)"

text \<open>
  What a callback may do to the queue: start and cancel timers, and let time pass. The client
  decides by the callback and the state it sees.
\<close>

datatype tq_op = Op_add callback int int bool | Op_cancel timer_id | Op_wait nat

fun do_op :: "((nat \<Rightarrow> timer option) \<Rightarrow> nat option) \<Rightarrow> tq_op \<Rightarrow> timer_queue \<Rightarrow> timer_queue res" where
  "do_op malloc (Op_add cb when interval rep) q =
     bindR (addTimer malloc cb when interval rep q) (\<lambda>(_, q). Inr q)"
| "do_op malloc (Op_cancel timerId) q = cancel timerId q"
| "do_op malloc (Op_wait n) q = Inr (q\<lparr>clock := clock q + int n\<rparr>)"

definition run_timer ::
  "((nat \<Rightarrow> timer option) \<Rightarrow> nat option) \<Rightarrow> (callback \<Rightarrow> timer_queue \<Rightarrow> tq_op list)
     \<Rightarrow> int \<times> nat \<Rightarrow> timer_queue \<Rightarrow> timer_queue res" where
  "run_timer malloc client e q =
     bindR (deref (snd e) q) (\<lambda>t. foldR (do_op malloc) (client (m_timeCb t) q) q)"

definition tq_handleRead ::
  "((nat \<Rightarrow> timer option) \<Rightarrow> nat option) \<Rightarrow> (callback \<Rightarrow> timer_queue \<Rightarrow> tq_op list)
     \<Rightarrow> timer_queue \<Rightarrow> timer_queue res" where
  "tq_handleRead malloc client q =
     (let now = clock q
      in bindR (getExpired now (readTimerfd q)) (\<lambda>(expired, q).
         bindR (foldR (run_timer malloc client) expired (q\<lparr>m_callingExpiredTimer := True\<rparr>)) (\<lambda>q.
         tq_reset expired now (q\<lparr>m_callingExpiredTimer := False\<rparr>))))"

text \<open>
  The event loop's timer interface. An interval is its microseconds and whether it is positive;
  \<open>runAt\<close> and \<open>runAfter\<close> pass the interval \<open>0.0\<close>, which does not repeat.
\<close>

definition runAt ::
  "((nat \<Rightarrow> timer option) \<Rightarrow> nat option) \<Rightarrow> int \<Rightarrow> callback \<Rightarrow> timer_queue \<Rightarrow> (timer_id \<times> timer_queue) res" where
  "runAt malloc stamp cb q = addTimer malloc cb stamp 0 False q"

definition runAfter ::
  "((nat \<Rightarrow> timer option) \<Rightarrow> nat option) \<Rightarrow> int \<Rightarrow> callback \<Rightarrow> timer_queue \<Rightarrow> (timer_id \<times> timer_queue) res" where
  "runAfter malloc interVal cb q =
     addTimer malloc cb (microSecondsSinceEpoch (addTime (ts_of (clock q)) interVal)) 0 False q"

definition runEvery ::
  "((nat \<Rightarrow> timer option) \<Rightarrow> nat option) \<Rightarrow> int \<Rightarrow> bool \<Rightarrow> callback \<Rightarrow> timer_queue
     \<Rightarrow> (timer_id \<times> timer_queue) res" where
  "runEvery malloc interval positive cb q =
     addTimer malloc cb (microSecondsSinceEpoch (addTime (ts_of (clock q)) interval)) interval positive q"

definition loop_cancel :: "timer_id \<Rightarrow> timer_queue \<Rightarrow> timer_queue res" where
  "loop_cancel toBeCancel q = cancel toBeCancel q"

section \<open>The invariant\<close>

text \<open>
  \<open>Q\<close> is the set of queued timers and \<open>E\<close> the set of timers taken out of the lists while their
  callbacks run. The two sets of the code hold exactly the entries of \<open>Q\<close>; the live objects are
  those of \<open>Q\<close> and \<open>E\<close>, so nothing leaks and nothing dangles; sequence numbers are unique.
\<close>

definition entry :: "timer_queue \<Rightarrow> nat \<Rightarrow> int \<times> nat" where
  "entry q a = (m_expiration (the (heap q a)), a)"

definition timer_id_of :: "timer_queue \<Rightarrow> nat \<Rightarrow> timer_id" where
  "timer_id_of q a = (a, m_sequence (the (heap q a)))"

definition wf_tq :: "nat set \<Rightarrow> nat set \<Rightarrow> timer_queue \<Rightarrow> bool" where
  "wf_tq Q E q \<longleftrightarrow> set_ok (m_timeList q) \<and> set_ok (m_activeTimers q) \<and> set_ok (m_cancelingTimer q)
     \<and> set (m_timeList q) = entry q ` Q \<and> set (m_activeTimers q) = timer_id_of q ` Q
     \<and> dom (heap q) = Q \<union> E \<and> Q \<inter> E = {}
     \<and> (\<forall>a t. heap q a = Some t \<longrightarrow> a < UINTPTR_MAX \<and> m_sequence t < numTimerCreated q)
     \<and> (\<forall>a b s t. heap q a = Some s \<longrightarrow> heap q b = Some t \<longrightarrow> m_sequence s = m_sequence t \<longrightarrow> a = b)"

definition malloc_ok :: "((nat \<Rightarrow> timer option) \<Rightarrow> nat option) \<Rightarrow> bool" where
  "malloc_ok malloc \<longleftrightarrow> (\<forall>h a. malloc h = Some a \<longrightarrow> h a = None \<and> a < UINTPTR_MAX)"

lemma inj_entry: "inj_on (entry q) A" "inj_on (timer_id_of q) A"
  by (auto simp: inj_on_def entry_def timer_id_of_def)

lemma wf_tq_length:
  assumes "wf_tq Q E q"
  shows "length (m_timeList q) = card Q" "length (m_activeTimers q) = card Q"
proof -
  have "length (m_timeList q) = card (set (m_timeList q))"
    "length (m_activeTimers q) = card (set (m_activeTimers q))"
    using assms oset.size_card [of "m_timeList q"] oset.size_card [of "m_activeTimers q"]
    by (simp_all add: wf_tq_def)
  with assms show "length (m_timeList q) = card Q" "length (m_activeTimers q) = card Q"
    by (simp_all add: wf_tq_def card_image inj_entry)
qed

lemma wf_tq_live:
  assumes "wf_tq Q E q" and "a \<in> Q \<union> E"
  obtains t where "heap q a = Some t" "deref a q = Inr t" "entry q a = (m_expiration t, a)"
    "timer_id_of q a = (a, m_sequence t)"
proof -
  from assms have "a \<in> dom (heap q)" by (simp add: wf_tq_def)
  then obtain t where "heap q a = Some t" by blast
  then show ?thesis using that by (simp add: deref_def entry_def timer_id_of_def)
qed

lemma wf_tq_new: "wf_tq {} {} (new_timer_queue now)"
  by (simp add: wf_tq_def new_timer_queue_def)

lemma wf_tq_fields:
  "wf_tq Q E (q\<lparr>clock := c\<rparr>) = wf_tq Q E q" "wf_tq Q E (q\<lparr>timerFd := x\<rparr>) = wf_tq Q E q"
  "wf_tq Q E (q\<lparr>m_callingExpiredTimer := b\<rparr>) = wf_tq Q E q"
  by (simp_all add: wf_tq_def entry_def [abs_def] timer_id_of_def [abs_def])

lemma new_timer_wf:
  assumes "wf_tq Q E q" and "malloc_ok malloc" and "new_timer malloc cb when i r q = Inr (a, q')"
  shows "wf_tq Q (insert a E) q' \<and> a \<notin> Q \<union> E
    \<and> heap q' = (heap q)(a \<mapsto> \<lparr>m_timeCb = cb, m_expiration = when, m_interval = i, m_repeat = r,
          m_sequence = numTimerCreated q\<rparr>)
    \<and> q' = q\<lparr>heap := heap q', numTimerCreated := numTimerCreated q + 1\<rparr>"
proof -
  from assms(3) have m: "malloc (heap q) = Some a"
    and q': "q' = q\<lparr>heap := (heap q)(a \<mapsto> \<lparr>m_timeCb = cb, m_expiration = when, m_interval = i,
      m_repeat = r, m_sequence = numTimerCreated q\<rparr>), numTimerCreated := numTimerCreated q + 1\<rparr>"
    by (auto simp: new_timer_def split: option.splits)
  from m assms(2) have f: "heap q a = None" "a < UINTPTR_MAX" by (auto simp: malloc_ok_def)
  from f(1) assms(1) have a: "a \<notin> Q \<union> E" by (auto simp: wf_tq_def)
  then have e: "entry q' ` Q = entry q ` Q" "timer_id_of q' ` Q = timer_id_of q ` Q"
    by (auto simp: q' entry_def timer_id_of_def intro!: image_cong)
  have "\<forall>b t. heap q b = Some t \<longrightarrow> m_sequence t < numTimerCreated q" using assms(1) by (auto simp: wf_tq_def)
  then have "\<forall>b t. heap q b = Some t \<longrightarrow> m_sequence t \<noteq> numTimerCreated q
      \<and> numTimerCreated q \<noteq> m_sequence t \<and> m_sequence t \<le> numTimerCreated q"
    by fastforce
  with assms(1) a f e show ?thesis
    unfolding wf_tq_def by (auto simp: q' less_Suc_eq add1_zle_eq)
qed

lemma tq_insert_wf:
  assumes w: "wf_tq Q (insert a E) q" and a: "a \<notin> E"
  obtains q' where "tq_insert a q = Inr (m_timeList q = [] \<or> fst (entry q a) < fst (hd (m_timeList q)), q')"
    "wf_tq (insert a Q) E q'" "heap q' = heap q"
    "m_timeList q' = insort (entry q a) (m_timeList q)"
    "q' = q\<lparr>m_timeList := m_timeList q', m_activeTimers := m_activeTimers q'\<rparr>"
proof -
  from wf_tq_live [OF w] obtain t where t: "heap q a = Some t" "deref a q = Inr t"
    "entry q a = (m_expiration t, a)" "timer_id_of q a = (a, m_sequence t)" by blast
  from w have aQ: "a \<notin> Q" by (auto simp: wf_tq_def)
  have fresh: "entry q a \<notin> set (m_timeList q)" "timer_id_of q a \<notin> set (m_activeTimers q)"
    using w aQ by (auto simp: wf_tq_def entry_def timer_id_of_def)
  have ok: "set_ok (m_timeList q)" "set_ok (m_activeTimers q)" using w by (simp_all add: wf_tq_def)
  from oset.ins_fresh [OF ok(2) fresh(2)] obtain act where act:
    "set_insert (timer_id_of q a) (m_activeTimers q) = (True, act)" "set_ok act"
    "set act = insert (timer_id_of q a) (set (m_activeTimers q))"
    "length act = Suc (length (m_activeTimers q))" .
  from oset.ins_fresh [OF ok(1) fresh(1)] obtain tl where tl:
    "set_insert (entry q a) (m_timeList q) = (True, tl)" "set_ok tl"
    "set tl = insert (entry q a) (set (m_timeList q))" "length tl = Suc (length (m_timeList q))" .
  let ?q = "q\<lparr>m_timeList := tl, m_activeTimers := act\<rparr>"
  have tl': "tl = insort (entry q a) (m_timeList q)" using tl(1) fresh(1) by (simp add: set_insert_def)
  have "tq_insert a q = Inr (m_timeList q = [] \<or> fst (entry q a) < fst (hd (m_timeList q)), ?q)"
    using t act(1,4) tl(1,4) wf_tq_length [OF w] by (simp add: tq_insert_def)
  moreover have "entry ?q = entry q" "timer_id_of ?q = timer_id_of q"
    by (simp_all add: entry_def [abs_def] timer_id_of_def [abs_def])
  then have "wf_tq (insert a Q) E ?q"
    using w act(2,3) tl(2,3) a aQ by (auto simp: wf_tq_def)
  ultimately show ?thesis using that [of ?q] tl' by simp
qed

definition okay :: "(timer_queue \<Rightarrow> bool) \<Rightarrow> timer_queue res \<Rightarrow> bool" where
  "okay I r \<longleftrightarrow> r = Inl Bad_alloc \<or> (\<exists>q. r = Inr q \<and> I q)"

lemma okay_bind:
  assumes "okay I r" and "\<And>q. I q \<Longrightarrow> okay J (f q)"
  shows "okay J (bindR r f)"
  using assms unfolding okay_def by (metis bindR_Inl bindR_Inr)

lemma okay_foldR:
  assumes "I q" and "\<And>x q. x \<in> set xs \<Longrightarrow> I q \<Longrightarrow> okay I (f x q)"
  shows "okay I (foldR f xs q)"
  using assms
proof (induction xs arbitrary: q)
  case Nil
  then show ?case by (simp add: okay_def)
next
  case (Cons x xs)
  then show ?case by (auto intro!: okay_bind [of I])
qed

lemma addTimerInLoop_wf:
  assumes w: "wf_tq Q (insert a E) q" and a: "a \<notin> E"
  obtains q' where "addTimerInLoop a q = Inr q'" "wf_tq (insert a Q) E q'" "heap q' = heap q"
    "m_timeList q' = insort (entry q a) (m_timeList q)"
    "q' = q\<lparr>m_timeList := m_timeList q', m_activeTimers := m_activeTimers q', timerFd := timerFd q'\<rparr>"
    "timerFd q' = (if m_timeList q = [] \<or> fst (entry q a) < fst (hd (m_timeList q))
       then Some (clock q, howMuchTimeFromNow (clock q) (fst (entry q a))) else timerFd q)"
proof -
  from tq_insert_wf [OF w a] obtain p where p:
    "tq_insert a q = Inr (m_timeList q = [] \<or> fst (entry q a) < fst (hd (m_timeList q)), p)"
    "wf_tq (insert a Q) E p" "heap p = heap q" "m_timeList p = insort (entry q a) (m_timeList q)"
    "p = q\<lparr>m_timeList := m_timeList p, m_activeTimers := m_activeTimers p\<rparr>" .
  from wf_tq_live [OF p(2), of a] obtain t where t: "deref a p = Inr t" "heap p a = Some t" by blast
  have e: "m_expiration t = fst (entry q a)" using t(2) p(3) by (simp add: entry_def)
  have c: "clock p = clock q" "timerFd p = timerFd q" by (subst p(5), simp)+
  show ?thesis
  proof (cases "m_timeList q = [] \<or> fst (entry q a) < fst (hd (m_timeList q))")
    case True
    let ?q = "resetTimerFd (m_expiration t) p"
    have "addTimerInLoop a q = Inr ?q" using True p(1) t(1) by (simp add: addTimerInLoop_def)
    moreover have "?q = q\<lparr>m_timeList := m_timeList ?q, m_activeTimers := m_activeTimers ?q,
        timerFd := timerFd ?q\<rparr>"
      by (subst p(5)) (simp add: resetTimerFd_def c)
    moreover have "wf_tq (insert a Q) E ?q" using p(2) by (simp add: resetTimerFd_def wf_tq_fields)
    ultimately show ?thesis
      using True p(3,4) c e by (intro that [of ?q]) (simp_all add: resetTimerFd_def)
  next
    case False
    then have "addTimerInLoop a q = Inr p" using p(1) by (simp add: addTimerInLoop_def)
    moreover have "p = q\<lparr>m_timeList := m_timeList p, m_activeTimers := m_activeTimers p,
        timerFd := timerFd p\<rparr>"
      by (subst p(5)) (simp add: c)
    ultimately show ?thesis using False p(2-4) c by (intro that [of p]) simp_all
  qed
qed

lemma addTimer_wf:
  assumes w: "wf_tq Q E q" and m: "malloc_ok malloc"
  shows "addTimer malloc cb when i r q = Inl Bad_alloc \<or>
    (\<exists>a q'. addTimer malloc cb when i r q = Inr ((a, numTimerCreated q), q')
      \<and> wf_tq (insert a Q) E q' \<and> a \<notin> Q \<union> E
      \<and> m_timeList q' = insort (when, a) (m_timeList q)
      \<and> heap q' = (heap q)(a \<mapsto> \<lparr>m_timeCb = cb, m_expiration = when, m_interval = i, m_repeat = r,
          m_sequence = numTimerCreated q\<rparr>)
      \<and> numTimerCreated q' = numTimerCreated q + 1
      \<and> m_callingExpiredTimer q' = m_callingExpiredTimer q \<and> m_cancelingTimer q' = m_cancelingTimer q
      \<and> clock q' = clock q
      \<and> timerFd q' = (if m_timeList q = [] \<or> when < fst (hd (m_timeList q))
          then Some (clock q, howMuchTimeFromNow (clock q) when) else timerFd q))"
proof (cases "new_timer malloc cb when i r q")
  case (Inl e)
  then show ?thesis by (auto simp: addTimer_def new_timer_def split: option.splits)
next
  case (Inr x)
  obtain a p where x: "x = (a, p)" by (cases x)
  from new_timer_wf [OF w m Inr [unfolded x]] have p: "wf_tq Q (insert a E) p" "a \<notin> Q \<union> E"
    "heap p = (heap q)(a \<mapsto> \<lparr>m_timeCb = cb, m_expiration = when, m_interval = i, m_repeat = r,
          m_sequence = numTimerCreated q\<rparr>)"
    "p = q\<lparr>heap := heap p, numTimerCreated := numTimerCreated q + 1\<rparr>" by blast+
  have f: "m_timeList p = m_timeList q" "clock p = clock q" "timerFd p = timerFd q"
    "m_callingExpiredTimer p = m_callingExpiredTimer q" "m_cancelingTimer p = m_cancelingTimer q"
    "numTimerCreated p = numTimerCreated q + 1" by (subst p(4), simp)+
  have e: "entry p a = (when, a)" by (simp add: entry_def p(3))
  from addTimerInLoop_wf [OF p(1)] p(2) obtain q' where q': "addTimerInLoop a p = Inr q'"
    "wf_tq (insert a Q) E q'" "heap q' = heap p" "m_timeList q' = insort (entry p a) (m_timeList p)"
    "q' = p\<lparr>m_timeList := m_timeList q', m_activeTimers := m_activeTimers q', timerFd := timerFd q'\<rparr>"
    "timerFd q' = (if m_timeList p = [] \<or> fst (entry p a) < fst (hd (m_timeList p))
       then Some (clock p, howMuchTimeFromNow (clock p) (fst (entry p a))) else timerFd p)" by blast
  have g: "clock q' = clock p" "m_callingExpiredTimer q' = m_callingExpiredTimer p"
    "m_cancelingTimer q' = m_cancelingTimer p" "numTimerCreated q' = numTimerCreated p"
    by (subst q'(5), simp)+
  have d: "deref a q' = Inr \<lparr>m_timeCb = cb, m_expiration = when, m_interval = i, m_repeat = r,
      m_sequence = numTimerCreated q\<rparr>" by (simp add: deref_def q'(3) p(3))
  have "addTimer malloc cb when i r q = Inr ((a, numTimerCreated q), q')"
    by (simp add: addTimer_def Inr x q'(1) d)
  then show ?thesis using q' p(2,3) f e g by simp
qed

lemma wf_tq_free:
  assumes w: "wf_tq Q (insert a E) q" and a: "a \<notin> E"
  shows "wf_tq Q E (free_timer a q)"
proof -
  let ?q = "free_timer a q"
  from w have "a \<notin> Q" by (auto simp: wf_tq_def)
  then have "entry ?q ` Q = entry q ` Q" "timer_id_of ?q ` Q = timer_id_of q ` Q"
    by (auto simp: entry_def timer_id_of_def free_timer_def intro!: image_cong)
  with w a \<open>a \<notin> Q\<close> show ?thesis unfolding wf_tq_def by (auto simp: free_timer_def)
qed

text \<open>Cancelling: an active timer is removed and destroyed, any other id changes no list.\<close>

lemma timer_id_live:
  assumes "wf_tq Q E q" and "(a, n) \<in> set (m_activeTimers q)"
  shows "a \<in> Q" "timer_id_of q a = (a, n)"
  using assms by (auto simp: wf_tq_def timer_id_of_def)

lemma cancel_active:
  assumes w: "wf_tq Q E q" and act: "(a, n) \<in> set (m_activeTimers q)"
  obtains q' where "cancelInLoop (a, n) q = Inr q'" "wf_tq (Q - {a}) E q'"
    "m_timeList q' = remove1 (entry q a) (m_timeList q)" "heap q' = (heap q)(a := None)"
    "timerFd q' = timerFd q" "clock q' = clock q" "numTimerCreated q' = numTimerCreated q"
proof -
  note id = timer_id_live [OF w act]
  from wf_tq_live [OF w, of a] id(1) obtain t where t: "heap q a = Some t" "deref a q = Inr t"
    "entry q a = (m_expiration t, a)" by blast
  have ok: "set_ok (m_timeList q)" "set_ok (m_activeTimers q)" using w by (simp_all add: wf_tq_def)
  have mem: "entry q a \<in> set (m_timeList q)" using w id(1) by (simp add: wf_tq_def)
  from oset.del_member [OF ok(1) mem] obtain tl where tl: "set_erase (entry q a) (m_timeList q) = (1, tl)"
    "set_ok tl" "set tl = set (m_timeList q) - {entry q a}" "Suc (length tl) = length (m_timeList q)" .
  from oset.del_member [OF ok(2) act] obtain al where al: "set_erase (a, n) (m_activeTimers q) = (1, al)"
    "set_ok al" "set al = set (m_activeTimers q) - {(a, n)}" "Suc (length al) = length (m_activeTimers q)" .
  let ?p = "q\<lparr>m_timeList := tl, m_activeTimers := al\<rparr>"
  have en: "entry ?p = entry q" "timer_id_of ?p = timer_id_of q"
    by (simp_all add: entry_def [abs_def] timer_id_of_def [abs_def])
  have "entry q ` (Q - {a}) = entry q ` Q - {entry q a}"
    "timer_id_of q ` (Q - {a}) = timer_id_of q ` Q - {timer_id_of q a}"
    by (auto simp: entry_def timer_id_of_def)
  then have "wf_tq (Q - {a}) (insert a E) ?p"
    using w tl(2,3) al(2,3) id unfolding wf_tq_def en by auto
  moreover have "a \<notin> E" using w id(1) by (auto simp: wf_tq_def)
  ultimately have "wf_tq (Q - {a}) E (free_timer a ?p)" by (rule wf_tq_free)
  moreover have "length tl = length al"
    using tl(4) al(4) wf_tq_length [OF w] by simp
  then have "cancelInLoop (a, n) q = Inr (free_timer a ?p)"
    using act t tl(1) al(1) wf_tq_length [OF w] by (simp add: cancelInLoop_def free_timer_def)
  moreover have "tl = remove1 (entry q a) (m_timeList q)" using tl(1) mem by (simp add: set_erase_def)
  ultimately show ?thesis by (intro that [of "free_timer a ?p"]) (simp_all add: free_timer_def)
qed

lemma cancel_stale:
  assumes w: "wf_tq Q E q" and "x \<notin> set (m_activeTimers q)"
  shows "cancelInLoop x q = Inr (if m_callingExpiredTimer q
      then q\<lparr>m_cancelingTimer := snd (set_insert x (m_cancelingTimer q))\<rparr> else q)"
  using assms wf_tq_length [OF w] by (simp add: cancelInLoop_def)

lemma wf_tq_canceling:
  "wf_tq Q E q \<Longrightarrow> wf_tq Q E (q\<lparr>m_cancelingTimer := snd (set_insert x (m_cancelingTimer q))\<rparr>)"
  using oset.ins_ok [of "m_cancelingTimer q" x]
  by (simp add: wf_tq_def entry_def [abs_def] timer_id_of_def [abs_def])

lemma do_op_wf:
  assumes w: "wf_tq Q E q" and m: "malloc_ok malloc"
  shows "okay (\<lambda>q. \<exists>Q. wf_tq Q E q) (do_op malloc op' q)"
proof (cases op')
  case (Op_add cb t i r)
  with addTimer_wf [OF w m, of cb t i r] show ?thesis
    by (auto simp: okay_def)
next
  case (Op_cancel x)
  obtain a n where x: "x = (a, n)" by (cases x)
  show ?thesis
  proof (cases "x \<in> set (m_activeTimers q)")
    case True
    from cancel_active [OF w True [unfolded x]] obtain q' where
      "cancelInLoop (a, n) q = Inr q'" "wf_tq (Q - {a}) E q'" .
    then show ?thesis by (auto simp: okay_def Op_cancel x cancel_def)
  next
    case False
    from cancel_stale [OF w False] w wf_tq_canceling [OF w, of x] show ?thesis
      by (cases "m_callingExpiredTimer q") (auto simp: okay_def Op_cancel cancel_def)
  qed
next
  case (Op_wait n)
  with w show ?thesis by (auto simp: okay_def wf_tq_fields)
qed

lemma run_timer_wf:
  assumes w: "\<exists>Q. wf_tq Q E q" and m: "malloc_ok malloc" and e: "snd e \<in> E"
  shows "okay (\<lambda>q. \<exists>Q. wf_tq Q E q) (run_timer malloc client e q)"
proof -
  obtain Q where Q: "wf_tq Q E q" using w by blast
  from wf_tq_live [OF Q, of "snd e"] e obtain t where "deref (snd e) q = Inr t" by blast
  then show ?thesis
    using w do_op_wf [OF _ m] by (auto simp: run_timer_def intro!: okay_foldR)
qed

section \<open>Expiry\<close>

text \<open>Removing expired timers from the active set, one by one.\<close>

lemma erase_active:
  assumes "set_ok (m_activeTimers q)" and "distinct (map snd es)"
    and "\<forall>e \<in> set es. heap q (snd e) \<noteq> None \<and> timer_id_of q (snd e) \<in> set (m_activeTimers q)"
  shows "\<exists>al. foldR (\<lambda>e q. bindR (deref (snd e) q) (\<lambda>t.
        let (n, active) = set_erase (snd e, m_sequence t) (m_activeTimers q)
        in assertR (n = 1) (Inr (q\<lparr>m_activeTimers := active\<rparr>)))) es q
      = Inr (q\<lparr>m_activeTimers := al\<rparr>)
    \<and> set_ok al \<and> set al = set (m_activeTimers q) - timer_id_of q ` snd ` set es"
  using assms
proof (induction es arbitrary: q)
  case Nil
  then show ?case by (auto intro: exI [of _ "m_activeTimers q"])
next
  case (Cons e es)
  from Cons.prems(3) obtain t where t: "heap q (snd e) = Some t" by auto
  then have d: "deref (snd e) q = Inr t" "timer_id_of q (snd e) = (snd e, m_sequence t)"
    by (simp_all add: deref_def timer_id_of_def)
  have "timer_id_of q (snd e) \<in> set (m_activeTimers q)" using Cons.prems(3) by simp
  from oset.del_member [OF Cons.prems(1) this] obtain al where al:
    "set_erase (timer_id_of q (snd e)) (m_activeTimers q) = (1, al)" "set_ok al"
    "set al = set (m_activeTimers q) - {timer_id_of q (snd e)}" .
  let ?q = "q\<lparr>m_activeTimers := al\<rparr>"
  have id: "timer_id_of ?q = timer_id_of q" by (simp add: timer_id_of_def [abs_def])
  have "\<forall>x \<in> set es. heap ?q (snd x) \<noteq> None \<and> timer_id_of ?q (snd x) \<in> set (m_activeTimers ?q)"
  proof
    fix x assume x: "x \<in> set es"
    then have "snd x \<noteq> snd e" using Cons.prems(2) by (metis distinct.simps(2) image_eqI list.map(2) set_map)
    then have "timer_id_of q (snd x) \<noteq> timer_id_of q (snd e)" by (simp add: timer_id_of_def)
    then show "heap ?q (snd x) \<noteq> None \<and> timer_id_of ?q (snd x) \<in> set (m_activeTimers ?q)"
      using Cons.prems(3) x by (simp add: id al(3))
  qed
  then obtain bl where bl: "foldR (\<lambda>e q. bindR (deref (snd e) q) (\<lambda>t.
        let (n, active) = set_erase (snd e, m_sequence t) (m_activeTimers q)
        in assertR (n = 1) (Inr (q\<lparr>m_activeTimers := active\<rparr>)))) es ?q
      = Inr (?q\<lparr>m_activeTimers := bl\<rparr>)" "set_ok bl"
      "set bl = set al - timer_id_of q ` snd ` set es"
    using Cons.IH [of ?q] al(2) Cons.prems(2) by (auto simp: id)
  have s: "set bl = set (m_activeTimers q) - timer_id_of q ` snd ` set (e # es)"
    using bl(3) al(3) by auto
  show ?case
    by (rule exI [of _ bl]) (use bl(1,2) s d al(1) in simp)
qed

lemma below_now:
  assumes "wf_tq Q E q" and "e \<in> set (m_timeList q)"
  shows "e < (now, UINTPTR_MAX) \<longleftrightarrow> fst e \<le> now"
proof -
  from assms obtain a where a: "a \<in> Q" "e = entry q a" by (auto simp: wf_tq_def)
  from wf_tq_live [OF assms(1), of a] a(1) obtain t where "heap q a = Some t" by blast
  with assms(1) have "a < UINTPTR_MAX" by (auto simp: wf_tq_def)
  with a(2) show ?thesis by (auto simp: entry_def less_prod_def)
qed

lemma getExpired_wf:
  assumes w: "wf_tq Q E q"
  obtains es q' where "getExpired now q = Inr (es, q')"
    "es = filter (\<lambda>e. fst e \<le> now) (m_timeList q)"
    "m_timeList q' = filter (\<lambda>e. now < fst e) (m_timeList q)"
    "wf_tq (Q - snd ` set es) (snd ` set es \<union> E) q'" "distinct (map snd es)" "snd ` set es \<subseteq> Q"
    "q' = q\<lparr>m_timeList := m_timeList q', m_activeTimers := m_activeTimers q'\<rparr>"
proof -
  let ?p = "\<lambda>e. e < (now, UINTPTR_MAX)" and ?tl = "m_timeList q"
  let ?es = "set_before ?p ?tl" and ?later = "set_from ?p ?tl"
  have ok: "set_ok ?tl" "set_ok (m_activeTimers q)" using w by (simp_all add: wf_tq_def)
  have f: "?es = filter ?p ?tl" "?later = filter (\<lambda>e. \<not> ?p e) ?tl"
    using set_before_filter [OF ok(1), of ?p] by (auto intro: le_less_trans)
  have es: "?es = filter (\<lambda>e. fst e \<le> now) ?tl" and later: "?later = filter (\<lambda>e. now < fst e) ?tl"
    unfolding f using below_now [OF w] by (auto intro!: filter_cong simp: not_le)
  have tl: "set ?tl = entry q ` Q" using w by (simp add: wf_tq_def)
  have sub: "snd ` set ?es \<subseteq> Q" unfolding es using tl by (auto simp: entry_def)
  have ent: "e = entry q (snd e)" if "e \<in> set ?tl" for e using that tl by (auto simp: entry_def)
  have "inj_on snd (set ?tl)" by (rule inj_onI) (metis ent)
  moreover have "distinct ?es" using ok(1) by (simp add: f set_ok_def)
  ultimately have dist: "distinct (map snd ?es)"
    unfolding distinct_map f by (auto intro: inj_on_subset)
  let ?q = "q\<lparr>m_timeList := ?later\<rparr>"
  have same: "timer_id_of ?q = timer_id_of q" by (simp add: timer_id_of_def [abs_def])
  have "\<forall>e \<in> set ?es. heap ?q (snd e) \<noteq> None \<and> timer_id_of ?q (snd e) \<in> set (m_activeTimers ?q)"
  proof
    fix e assume "e \<in> set ?es"
    then have "snd e \<in> Q" using sub by blast
    then have "snd e \<in> dom (heap q)" "timer_id_of q (snd e) \<in> set (m_activeTimers q)" using w by (auto simp: wf_tq_def)
    then show "heap ?q (snd e) \<noteq> None \<and> timer_id_of ?q (snd e) \<in> set (m_activeTimers ?q)"
      by (simp add: same domIff)
  qed
  with erase_active [of ?q ?es] ok(2) dist obtain al where al:
    "foldR (\<lambda>e q. bindR (deref (snd e) q) (\<lambda>t.
        let (n, active) = set_erase (snd e, m_sequence t) (m_activeTimers q)
        in assertR (n = 1) (Inr (q\<lparr>m_activeTimers := active\<rparr>)))) ?es ?q
      = Inr (?q\<lparr>m_activeTimers := al\<rparr>)" "set_ok al"
      "set al = set (m_activeTimers q) - timer_id_of q ` snd ` set ?es"
    by (auto simp: same)
  let ?r = "?q\<lparr>m_activeTimers := al\<rparr>"
  have r: "entry ?r = entry q" "timer_id_of ?r = timer_id_of q"
    by (simp_all add: entry_def [abs_def] timer_id_of_def [abs_def])
  have "set ?later = set ?tl - set ?es" unfolding es later by auto
  also have "\<dots> = entry q ` (Q - snd ` set ?es)"
    unfolding es set_filter tl by (auto simp: entry_def image_iff)
  finally have s1: "set ?later = entry q ` (Q - snd ` set ?es)" .
  have s2: "set al = timer_id_of q ` (Q - snd ` set ?es)"
    using al(3) w by (auto simp: wf_tq_def timer_id_of_def)
  have wf: "wf_tq (Q - snd ` set ?es) (snd ` set ?es \<union> E) ?r"
    using w al(2) s1 s2 sub set_split_ok [OF ok(1), of ?p] unfolding wf_tq_def r by auto
  have "later = [] \<or> now < fst (hd later)" if "later = ?later" for later
    using hd_in_set [of later] unfolding that later by auto
  then have "getExpired now q = Inr (?es, ?r)"
    using al(1) wf_tq_length [OF wf] by (simp add: getExpired_def Let_def)
  then show ?thesis
    using that [of ?es ?r] es later wf dist sub by simp
qed

section \<open>Rescheduling\<close>

definition kept :: "timer_queue \<Rightarrow> nat \<Rightarrow> bool" where
  "kept q a \<longleftrightarrow> m_repeat (the (heap q a)) \<and> timer_id_of q a \<notin> set (m_cancelingTimer q)"

lemma wf_tq_restart:
  assumes w: "wf_tq Q (insert a E) q" and "a \<notin> E" and t: "heap q a = Some t"
  shows "wf_tq Q (insert a E) (q\<lparr>heap := (heap q)(a \<mapsto> timer_restart now t)\<rparr>)" (is "wf_tq _ _ ?q")
proof -
  have s: "m_sequence (timer_restart now t) = m_sequence t" by (simp add: timer_restart_def)
  have "a \<notin> Q" using w by (auto simp: wf_tq_def)
  then have "entry ?q ` Q = entry q ` Q" "timer_id_of ?q ` Q = timer_id_of q ` Q"
    by (auto simp: entry_def timer_id_of_def intro!: image_cong)
  with w t show ?thesis unfolding wf_tq_def by (auto simp: s dom_def)
qed

lemma reset_one_wf:
  assumes w: "wf_tq Q (insert (snd e) E) q" and a: "snd e \<notin> E"
  obtains q' where "reset_one now e q = Inr q'"
    "wf_tq (if kept q (snd e) then insert (snd e) Q else Q) E q'"
    "heap q' = (heap q)(snd e := (if kept q (snd e) then map_option (timer_restart now) (heap q (snd e)) else None))"
    "m_cancelingTimer q' = m_cancelingTimer q" "clock q' = clock q" "timerFd q' = timerFd q"
proof -
  from wf_tq_live [OF w, of "snd e"] obtain t where t: "heap q (snd e) = Some t"
    "deref (snd e) q = Inr t" by blast
  have k: "kept q (snd e) \<longleftrightarrow> m_repeat t \<and> (snd e, m_sequence t) \<notin> set (m_cancelingTimer q)"
    by (simp add: kept_def t(1) timer_id_of_def)
  show ?thesis
  proof (cases "kept q (snd e)")
    case True
    let ?p = "q\<lparr>heap := (heap q)(snd e \<mapsto> timer_restart now t)\<rparr>"
    from tq_insert_wf [OF wf_tq_restart [OF w a t(1), of now] a] obtain q' x where q':
      "tq_insert (snd e) ?p = Inr (x, q')" "wf_tq (insert (snd e) Q) E q'" "heap q' = heap ?p"
      "q' = ?p\<lparr>m_timeList := m_timeList q', m_activeTimers := m_activeTimers q'\<rparr>" by metis
    have "m_cancelingTimer q' = m_cancelingTimer q" "clock q' = clock q" "timerFd q' = timerFd q"
      by (subst q'(4), simp)+
    moreover have "reset_one now e q = Inr q'"
      using True k t(2) q'(1) by (simp add: reset_one_def)
    ultimately show ?thesis using True q'(2,3) t(1) by (intro that [of q']) simp_all
  next
    case False
    then have "reset_one now e q = Inr (free_timer (snd e) q)"
      using k t(2) by (auto simp: reset_one_def)
    with False wf_tq_free [OF w a] show ?thesis
      by (intro that [of "free_timer (snd e) q"]) (simp_all add: free_timer_def)
  qed
qed

lemma reset_all_wf:
  assumes "wf_tq Q (snd ` set es \<union> E) q" and "distinct (map snd es)" and "snd ` set es \<inter> E = {}"
  shows "\<exists>q'. foldR (reset_one now) es q = Inr q'
    \<and> wf_tq (Q \<union> {a \<in> snd ` set es. kept q a}) E q'
    \<and> (\<forall>a \<in> Q. heap q' a = heap q a)
    \<and> (\<forall>a \<in> snd ` set es. heap q' a =
          (if kept q a then map_option (timer_restart now) (heap q a) else None))
    \<and> clock q' = clock q \<and> timerFd q' = timerFd q"
  using assms
proof (induction es arbitrary: q Q)
  case Nil
  then show ?case by simp
next
  case (Cons e es)
  have ne: "snd e \<notin> snd ` set es" "distinct (map snd es)" using Cons.prems(2) by simp_all
  have nE: "snd e \<notin> snd ` set es \<union> E" "snd ` set es \<inter> E = {}" using ne(1) Cons.prems(3) by auto
  have w: "wf_tq Q (insert (snd e) (snd ` set es \<union> E)) q" using Cons.prems(1) by simp
  let ?Q = "if kept q (snd e) then insert (snd e) Q else Q"
  from reset_one_wf [OF w nE(1), of now] obtain p where p: "reset_one now e q = Inr p"
    "wf_tq ?Q (snd ` set es \<union> E) p"
    "heap p = (heap q)(snd e := (if kept q (snd e) then map_option (timer_restart now) (heap q (snd e)) else None))"
    "m_cancelingTimer p = m_cancelingTimer q" "clock p = clock q" "timerFd p = timerFd q" .
  have kp: "kept p a = kept q a" if "a \<noteq> snd e" for a
    using that by (simp add: kept_def timer_id_of_def p(3,4))
  have eQ: "snd e \<notin> Q" using w by (auto simp: wf_tq_def)
  have K: "{a \<in> snd ` set es. kept p a} = {a \<in> snd ` set es. kept q a}"
    using ne(1) kp by (metis (no_types, lifting))
  from Cons.IH [OF p(2) ne(2) nE(2)] obtain q' where q': "foldR (reset_one now) es p = Inr q'"
    "wf_tq (?Q \<union> {a \<in> snd ` set es. kept q a}) E q'" "\<forall>a \<in> ?Q. heap q' a = heap p a"
    "\<forall>a \<in> snd ` set es. heap q' a = (if kept p a then map_option (timer_restart now) (heap p a) else None)"
    "clock q' = clock p" "timerFd q' = timerFd p" unfolding K by blast
  have S: "?Q \<union> {a \<in> snd ` set es. kept q a} = Q \<union> {a \<in> snd ` set (e # es). kept q a}" by auto
  have gone: "heap q' (snd e) = None" if "\<not> kept q (snd e)"
  proof -
    have "snd e \<notin> dom (heap q')" using q'(2) that eQ nE(1) by (auto simp: wf_tq_def)
    then show ?thesis by blast
  qed
  have "\<forall>a \<in> snd ` set (e # es). heap q' a =
      (if kept q a then map_option (timer_restart now) (heap q a) else None)"
  proof
    fix a assume a: "a \<in> snd ` set (e # es)"
    show "heap q' a = (if kept q a then map_option (timer_restart now) (heap q a) else None)"
    proof (cases "a = snd e")
      case True
      then show ?thesis using gone q'(3) p(3) by (cases "kept q (snd e)") auto
    next
      case False
      with a q'(4) kp p(3) show ?thesis by auto
    qed
  qed
  moreover have "\<forall>a \<in> Q. heap q' a = heap q a" using q'(3) p(3) eQ by auto
  ultimately show ?case using p q' S by auto
qed

lemma tq_reset_eq:
  "foldR (reset_one now) es q = Inr q' \<Longrightarrow> tq_reset es now q
    = Inr (if m_timeList q' \<noteq> [] \<and> 0 < fst (hd (m_timeList q'))
        then resetTimerFd (fst (hd (m_timeList q'))) q' else q')"
  by (simp add: tq_reset_def ts_valid_def ts_of_def ts_invalid_def Let_def)

lemma wf_tq_resetFd: "wf_tq Q E (resetTimerFd x q) = wf_tq Q E q"
  by (simp add: resetTimerFd_def wf_tq_fields)

lemma handleRead_wf:
  assumes w: "wf_tq Q E q" and m: "malloc_ok malloc"
  shows "okay (\<lambda>q. \<exists>Q. wf_tq Q E q) (tq_handleRead malloc client q)"
proof -
  let ?now = "clock q"
  have "wf_tq Q E (readTimerfd q)" using w by (simp add: readTimerfd_def wf_tq_fields)
  from getExpired_wf [OF this, of ?now] obtain es p where p:
    "getExpired ?now (readTimerfd q) = Inr (es, p)" "wf_tq (Q - snd ` set es) (snd ` set es \<union> E) p"
    "distinct (map snd es)" "snd ` set es \<subseteq> Q" .
  have d: "snd ` set es \<inter> E = {}" using p(4) w by (auto simp: wf_tq_def)
  let ?I = "\<lambda>q. \<exists>Q. wf_tq Q (snd ` set es \<union> E) q"
  have "okay ?I (foldR (run_timer malloc client) es (p\<lparr>m_callingExpiredTimer := True\<rparr>))"
    using p(2) run_timer_wf [OF _ m] by (intro okay_foldR) (auto simp: wf_tq_fields)
  moreover have "okay (\<lambda>q. \<exists>Q. wf_tq Q E q) (tq_reset es ?now (r\<lparr>m_callingExpiredTimer := False\<rparr>))"
    if r: "?I r" for r
  proof -
    from r obtain R where "wf_tq R (snd ` set es \<union> E) (r\<lparr>m_callingExpiredTimer := False\<rparr>)"
      by (auto simp: wf_tq_fields)
    from reset_all_wf [OF this p(3) d, of ?now] obtain s S where
      "foldR (reset_one ?now) es (r\<lparr>m_callingExpiredTimer := False\<rparr>) = Inr s" "wf_tq S E s" by blast
    then show ?thesis by (auto simp: okay_def tq_reset_eq wf_tq_resetFd)
  qed
  ultimately show ?thesis
    unfolding tq_handleRead_def Let_def p(1) by (auto intro: okay_bind)
qed

section \<open>The kernel timer is armed for the earliest entry\<close>

definition timespec_us :: "timespec \<Rightarrow> int" where
  "timespec_us ts = tv_sec ts * 1000000 + tv_nsec ts div 1000"

text \<open>
  The timer fires no later than the earliest expiration, or 100 microseconds after it was set
  for one already due.
\<close>

definition armed :: "timer_queue \<Rightarrow> bool" where
  "armed q \<longleftrightarrow> m_timeList q = [] \<or>
     (case timerFd q of None \<Rightarrow> False
      | Some (at, ts) \<Rightarrow> at \<le> clock q
          \<and> at + timespec_us ts \<le> max (fst (hd (m_timeList q))) (at + 100))"

lemma howMuch_us: "timespec_us (howMuchTimeFromNow now w) = max 100 (w - now)"
proof -
  let ?m = "max 100 (w - now)"
  have "(?m mod 1000000) * 1000 div 1000 = ?m mod 1000000" by simp
  moreover have "?m div 1000000 * 1000000 + ?m mod 1000000 = ?m" by simp
  moreover have "(if w - now < 100 then 100 else w - now) = ?m" by (simp add: max_def)
  ultimately show ?thesis
    by (simp add: timespec_us_def howMuchTimeFromNow_def KPerSecondMicroSecondsCount_def Let_def
        sdiv_nonneg smod_nonneg)
qed

lemma armed_reset: "m_timeList q \<noteq> [] \<Longrightarrow> armed (resetTimerFd (fst (hd (m_timeList q))) q)"
  by (auto simp: armed_def resetTimerFd_def howMuch_us)

lemma hd_insort:
  fixes l :: "(int \<times> nat) list"
  shows "fst (hd (insort (w, a) l)) = (if l = [] \<or> w < fst (hd l) then w else fst (hd l))"
  by (cases l) (auto simp: less_eq_prod_def)

lemma hd_remove1:
  fixes l :: "(int \<times> nat) list"
  assumes "sorted l" and "remove1 x l \<noteq> []"
  shows "fst (hd l) \<le> fst (hd (remove1 x l))"
proof -
  have "hd (remove1 x l) \<in> set l" using assms(2) hd_in_set notin_set_remove1 by metis
  then have "hd l \<le> hd (remove1 x l)" using assms(1) by (cases l) auto
  then show ?thesis by (auto simp: less_eq_prod_def)
qed

lemma armed_add:
  assumes "wf_tq Q E q" "malloc_ok malloc" "armed q"
    and "addTimer malloc cb w i r q = Inr (x, q')"
  shows "armed q'"
proof -
  from addTimer_wf [OF assms(1,2), of cb w i r] assms(4) obtain a where q':
    "m_timeList q' = insort (w, a) (m_timeList q)" "clock q' = clock q"
    "timerFd q' = (if m_timeList q = [] \<or> w < fst (hd (m_timeList q))
      then Some (clock q, howMuchTimeFromNow (clock q) w) else timerFd q)"
    by auto
  show ?thesis
  proof (cases "m_timeList q = [] \<or> w < fst (hd (m_timeList q))")
    case True
    then show ?thesis using q' hd_insort [of w a "m_timeList q"] by (simp add: armed_def howMuch_us)
  next
    case False
    then show ?thesis using q' hd_insort [of w a "m_timeList q"] assms(3)
      by (auto simp: armed_def split: option.splits)
  qed
qed

lemma armed_cancel:
  assumes w: "wf_tq Q E q" and ar: "armed q" and c: "cancel x q = Inr q'"
  shows "armed q'"
proof (cases "x \<in> set (m_activeTimers q)")
  case True
  obtain a n where x: "x = (a, n)" by (cases x)
  from cancel_active [OF w True [unfolded x]] c x obtain
    q': "m_timeList q' = remove1 (entry q a) (m_timeList q)" "timerFd q' = timerFd q" "clock q' = clock q"
    by (auto simp: cancel_def)
  have "sorted (m_timeList q)" using w by (simp add: wf_tq_def set_ok_def)
  from hd_remove1 [OF this, of "entry q a"] ar show ?thesis
    unfolding armed_def q' by (fastforce split: option.splits)
next
  case False
  with cancel_stale [OF w False] c ar show ?thesis
    by (auto simp: cancel_def armed_def split: if_splits option.splits)
qed

section \<open>Properties\<close>

datatype tq_event = Ev_op tq_op | Ev_expire

fun run_event ::
  "((nat \<Rightarrow> timer option) \<Rightarrow> nat option) \<Rightarrow> (callback \<Rightarrow> timer_queue \<Rightarrow> tq_op list)
     \<Rightarrow> tq_event \<Rightarrow> timer_queue \<Rightarrow> timer_queue res" where
  "run_event malloc client (Ev_op op') q = do_op malloc op' q"
| "run_event malloc client Ev_expire q = tq_handleRead malloc client q"

text \<open>
  Whatever timers are added, cancelled and expired, also by the callbacks of expiring
  timers, no assertion of \<open>TimerQueue\<close> fails and no destroyed timer is used: every run of the
  queue ends in a well-formed queue (its two sets hold exactly the live timers) or in a failed
  allocation. The allocator returns addresses that are not in use.
\<close>

theorem timer_queue_runs:
  assumes "malloc_ok malloc"
  shows "okay (\<lambda>q. \<exists>Q. wf_tq Q {} q)
     (foldR (run_event malloc client) events (new_timer_queue now))"
proof (rule okay_foldR)
  show "\<exists>Q. wf_tq Q {} (new_timer_queue now)" using wf_tq_new by blast
  fix e q assume q: "\<exists>Q. wf_tq Q {} q"
  then show "okay (\<lambda>q. \<exists>Q. wf_tq Q {} q) (run_event malloc client e q)"
    using do_op_wf [OF _ assms] handleRead_wf [OF _ assms] by (cases e) auto
qed

definition sample_malloc :: "(nat \<Rightarrow> timer option) \<Rightarrow> nat option" where
  "sample_malloc h = (if h 7 = None then Some 7 else if h 9 = None then Some 9 else None)"

lemma sample_malloc_ok: "malloc_ok sample_malloc"
  by (simp add: malloc_ok_def sample_malloc_def UINTPTR_MAX_def)

theorem timer_queue_runs_witness:
  "malloc_ok sample_malloc \<and> okay (\<lambda>q. \<exists>Q. wf_tq Q {} q)
     (foldR (run_event sample_malloc (\<lambda>cb q. [Op_cancel (7, 0), Op_add 2 500 0 False]))
        [Ev_op (Op_add 1 100 50 True), Ev_op (Op_wait 200), Ev_expire] (new_timer_queue 0))"
  by (rule conjI [OF sample_malloc_ok timer_queue_runs [OF sample_malloc_ok]])

text \<open>
  C17. \<open>getExpired\<close> takes out exactly the timers that are due, in the order of their
  expirations, and leaves exactly the later ones, in both sets; nothing is destroyed.
\<close>

theorem expiry_exact:
  assumes "wf_tq Q {} q"
  shows "\<exists>es q'. getExpired now q = Inr (es, q')
     \<and> es = filter (\<lambda>e. fst e \<le> now) (m_timeList q) \<and> sorted (map fst es)
     \<and> m_timeList q' = filter (\<lambda>e. now < fst e) (m_timeList q)
     \<and> heap q' = heap q \<and> wf_tq (Q - snd ` set es) (snd ` set es) q'"
proof -
  from getExpired_wf [OF assms, of now] obtain es q' where g: "getExpired now q = Inr (es, q')"
    "es = filter (\<lambda>e. fst e \<le> now) (m_timeList q)"
    "m_timeList q' = filter (\<lambda>e. now < fst e) (m_timeList q)"
    "wf_tq (Q - snd ` set es) (snd ` set es) q'"
    "q' = q\<lparr>m_timeList := m_timeList q', m_activeTimers := m_activeTimers q'\<rparr>" unfolding Un_empty_right .
  have "sorted (m_timeList q)" using assms by (simp add: wf_tq_def set_ok_def)
  then have "sorted es" unfolding g(2) by (rule sorted_filter [of "\<lambda>x. x", simplified])
  then have "sorted (map fst es)"
    by (induction es) (auto simp: less_eq_prod_def)
  moreover have "heap q' = heap q" by (subst g(5)) simp
  ultimately show ?thesis using g(1-4) by blast
qed

definition sample_tq :: timer_queue where
  "sample_tq = (new_timer_queue 100)\<lparr>heap := [7 \<mapsto> \<lparr>m_timeCb = 1, m_expiration = 90,
       m_interval = 50, m_repeat = True, m_sequence = 0\<rparr>, 9 \<mapsto> \<lparr>m_timeCb = 2, m_expiration = 300,
       m_interval = 0, m_repeat = False, m_sequence = 1\<rparr>],
     numTimerCreated := 2, m_timeList := [(90, 7), (300, 9)], m_activeTimers := [(7, 0), (9, 1)],
     timerFd := Some (0, howMuchTimeFromNow 0 90)\<rparr>"

lemma sample_tq_wf: "wf_tq {7, 9} {} sample_tq" "armed sample_tq"
  by (auto simp: wf_tq_def sample_tq_def new_timer_queue_def set_ok_def entry_def timer_id_of_def
      UINTPTR_MAX_def armed_def howMuch_us split: if_splits)

theorem expiry_exact_witness:
  "wf_tq {7, 9} {} sample_tq \<and> (\<exists>es q'. getExpired 100 sample_tq = Inr (es, q')
     \<and> es = [(90, 7)] \<and> m_timeList q' = [(300, 9)])"
  using sample_tq_wf(1) expiry_exact [OF sample_tq_wf(1), of 100]
  by (auto simp: sample_tq_def new_timer_queue_def)

text \<open>
  C18. Cancelling with the id that \<open>addTimer\<close> returned undoes exactly that: the time list and
  every other timer are as before and the timer is destroyed; cancelling again with the same,
  now stale, id changes nothing, even if a later timer reuses the address.
\<close>

theorem cancel_exact:
  assumes "wf_tq Q {} q" and "malloc_ok malloc" and "addTimer malloc cb w i r q = Inr (x, q1)"
  shows "\<exists>q2. cancel x q1 = Inr q2 \<and> m_timeList q2 = m_timeList q \<and> heap q2 = heap q
     \<and> wf_tq Q {} q2
     \<and> (m_callingExpiredTimer q2 = False \<longrightarrow> cancel x q2 = Inr q2
         \<and> (\<forall>cb w i r y q3. addTimer malloc cb w i r q2 = Inr (y, q3)
               \<longrightarrow> x \<noteq> y \<and> cancel x q3 = Inr q3))"
proof -
  from addTimer_wf [OF assms(1,2), of cb w i r] assms(3) obtain a where a: "x = (a, numTimerCreated q)"
    "wf_tq (insert a Q) {} q1" "a \<notin> Q" "m_timeList q1 = insort (w, a) (m_timeList q)"
    "heap q1 = (heap q)(a \<mapsto> \<lparr>m_timeCb = cb, m_expiration = w, m_interval = i, m_repeat = r,
          m_sequence = numTimerCreated q\<rparr>)"
    "numTimerCreated q1 = numTimerCreated q + 1" by auto
  have e: "entry q1 a = (w, a)" "timer_id_of q1 a = x" by (simp_all add: entry_def timer_id_of_def a(1,5))
  have act: "(a, numTimerCreated q) \<in> set (m_activeTimers q1)"
    using a(2) e(2) by (auto simp: wf_tq_def a(1))
  obtain q2 where q2: "cancel x q1 = Inr q2"
    "wf_tq (insert a Q - {a}) {} q2" "m_timeList q2 = remove1 (entry q1 a) (m_timeList q1)"
    "heap q2 = (heap q1)(a := None)" "numTimerCreated q2 = numTimerCreated q1"
    using cancel_active [OF a(2) act] unfolding cancel_def a(1) by metis
  have w2: "wf_tq Q {} q2" using q2(2) a(3) by simp
  have h: "heap q a = None" using assms(1) a(3) by (auto simp: wf_tq_def)
  have "(w, a) \<notin> set (m_timeList q)" using assms(1) a(3) by (auto simp: wf_tq_def entry_def)
  then have tl: "m_timeList q2 = m_timeList q" using q2(3) e(1) a(4) by simp
  have seq: "snd x < numTimerCreated q2" using q2(5) a(1,6) by simp
  have stale: "x \<notin> set (m_activeTimers q2)" using w2 a(1,3) by (auto simp: wf_tq_def timer_id_of_def)
  have "x \<noteq> y \<and> cancel x q3 = Inr q3"
    if c: "m_callingExpiredTimer q2 = False" and "addTimer malloc cb' w' i' r' q2 = Inr (y, q3)"
    for cb' w' i' r' y q3
  proof -
    from addTimer_wf [OF w2 assms(2), of cb' w' i' r'] that obtain b where b:
      "y = (b, numTimerCreated q2)" "wf_tq (insert b Q) {} q3" "b \<notin> Q"
      "heap q3 = (heap q2)(b \<mapsto> \<lparr>m_timeCb = cb', m_expiration = w', m_interval = i', m_repeat = r',
          m_sequence = numTimerCreated q2\<rparr>)" "m_callingExpiredTimer q3 = False" by auto
    have "x \<notin> timer_id_of q3 ` insert b Q"
      using seq a(1,3) by (auto simp: timer_id_of_def b(4))
    then have "x \<notin> set (m_activeTimers q3)" using b(2) by (simp add: wf_tq_def)
    with cancel_stale [OF b(2)] b(1,5) seq show ?thesis by (auto simp: cancel_def)
  qed
  then show ?thesis
    using q2(1) tl w2 q2(4) a(5) h cancel_stale [OF w2 stale] by (auto simp: cancel_def)
qed

theorem cancel_exact_witness:
  "wf_tq {} {} (new_timer_queue 5) \<and> malloc_ok sample_malloc
     \<and> (\<exists>q1 q2. addTimer sample_malloc 1 100 0 False (new_timer_queue 5) = Inr ((7, 0), q1)
          \<and> cancel (7, 0) q1 = Inr q2 \<and> m_timeList q2 = [])"
proof -
  obtain x q1 where a: "addTimer sample_malloc 1 100 0 False (new_timer_queue 5) = Inr (x, q1)" "x = (7, 0)"
    by (simp add: addTimer_def new_timer_def sample_malloc_def new_timer_queue_def addTimerInLoop_def
        tq_insert_def deref_def set_insert_def resetTimerFd_def)
  from cancel_exact [OF wf_tq_new sample_malloc_ok a(1)] a show ?thesis
    using wf_tq_new [of 5] sample_malloc_ok by (auto simp: new_timer_queue_def)
qed

text \<open>
  \<open>reset\<close> after the callbacks: a repeating timer that was not cancelled while they ran is
  queued again one interval after \<open>now\<close>; every other expired timer is destroyed; the timers
  that were not due keep their entries; and the kernel timer is set to the earliest entry.
\<close>

theorem reset_reschedules:
  assumes "wf_tq Q (snd ` set es) q" and "distinct (map snd es)"
  shows "\<exists>q'. tq_reset es now q = Inr q'
     \<and> set (m_timeList q') = set (m_timeList q)
          \<union> {(now + m_interval (the (heap q a)), a) |a. a \<in> snd ` set es \<and> kept q a}
     \<and> (\<forall>a \<in> snd ` set es. \<not> kept q a \<longrightarrow> heap q' a = None)
     \<and> sorted (m_timeList q')
     \<and> (m_timeList q' \<noteq> [] \<and> 0 < fst (hd (m_timeList q')) \<longrightarrow> armed q')"
proof -
  let ?E = "snd ` set es"
  from reset_all_wf [of Q es "{}" q now] assms obtain p where p: "foldR (reset_one now) es q = Inr p"
    "wf_tq (Q \<union> {a \<in> ?E. kept q a}) {} p" "\<forall>a \<in> Q. heap p a = heap q a"
    "\<forall>a \<in> ?E. heap p a = (if kept q a then map_option (timer_restart now) (heap q a) else None)"
    unfolding Un_empty_right Int_empty_right by blast
  have re: "entry p a = (now + m_interval (the (heap q a)), a)" if "a \<in> ?E" "kept q a" for a
  proof -
    from wf_tq_live [OF assms(1)] that(1) obtain t where "heap q a = Some t" by blast
    moreover from this bspec [OF p(4) that(1)] that(2) have "heap p a = Some (timer_restart now t)"
      by simp
    ultimately show ?thesis
      using that(2) by (simp add: entry_def kept_def timer_restart_def addTime_def ts_of_def)
  qed
  have "entry p ` Q = entry q ` Q" using p(3) by (auto simp: entry_def intro!: image_cong)
  moreover have "entry p ` {a \<in> ?E. kept q a}
      = {(now + m_interval (the (heap q a)), a) |a. a \<in> ?E \<and> kept q a}"
    using re by auto
  ultimately have tl: "set (m_timeList p) = set (m_timeList q)
      \<union> {(now + m_interval (the (heap q a)), a) |a. a \<in> ?E \<and> kept q a}"
    using p(2) assms(1) by (simp add: wf_tq_def image_Un)
  let ?r = "if m_timeList p \<noteq> [] \<and> 0 < fst (hd (m_timeList p))
      then resetTimerFd (fst (hd (m_timeList p))) p else p"
  have r: "m_timeList ?r = m_timeList p" "heap ?r = heap p" by (simp_all add: resetTimerFd_def)
  have "sorted (m_timeList p)" using p(2) by (simp add: wf_tq_def set_ok_def)
  with tl p(4) armed_reset [of p] show ?thesis
    unfolding tq_reset_eq [OF p(1)] by (intro exI [of _ ?r]) (auto simp: r)
qed

theorem reset_reschedules_witness:
  "wf_tq {} (snd ` set [(90, 7), (300, 9)]) (sample_tq\<lparr>m_timeList := [], m_activeTimers := []\<rparr>)
     \<and> (\<exists>q'. tq_reset [(90, 7), (300, 9)] 310 (sample_tq\<lparr>m_timeList := [], m_activeTimers := []\<rparr>) = Inr q'
          \<and> set (m_timeList q') = {(360, 7)} \<and> heap q' 9 = None)"
proof -
  let ?q = "sample_tq\<lparr>m_timeList := [], m_activeTimers := []\<rparr>" and ?es = "[(90, 7), (300, 9)] :: (int \<times> nat) list"
  have w: "wf_tq {} (snd ` set ?es) ?q"
    by (auto simp: wf_tq_def sample_tq_def new_timer_queue_def UINTPTR_MAX_def split: if_splits)
  have k: "{(310 + m_interval (the (heap ?q a)), a) |a. a \<in> snd ` set ?es \<and> kept ?q a} = {(360, 7)}"
    "\<not> kept ?q 9"
    by (auto simp: kept_def timer_id_of_def sample_tq_def new_timer_queue_def)
  from reset_reschedules [OF w, of 310] k(2) show ?thesis
    unfolding k(1) using w by auto
qed

text \<open>
  C19. The kernel timer is never late: adding and cancelling timers keep it set to fire by the
  earliest expiration (or 100 microseconds after it was set), and a finished expiry leaves it
  so whenever the earliest expiration is a valid time stamp.
\<close>

theorem timerfd_armed:
  assumes "wf_tq Q {} q" and "malloc_ok malloc" and "armed q"
  shows "(\<forall>op' q'. do_op malloc op' q = Inr q' \<longrightarrow> armed q')
     \<and> (\<forall>client q'. tq_handleRead malloc client q = Inr q'
          \<longrightarrow> m_timeList q' = [] \<or> 0 < fst (hd (m_timeList q')) \<longrightarrow> armed q')
     \<and> (\<forall>now w. timespec_us (howMuchTimeFromNow now w) = max 100 (w - now))"
proof (intro conjI allI impI)
  fix op' q' assume d: "do_op malloc op' q = Inr q'"
  show "armed q'"
  proof (cases op')
    case (Op_add cb w i r)
    with d obtain x where "addTimer malloc cb w i r q = Inr (x, q')" by (auto simp: res_simps)
    then show ?thesis by (rule armed_add [OF assms])
  next
    case (Op_cancel x)
    with d armed_cancel [OF assms(1,3)] show ?thesis by simp
  next
    case (Op_wait n)
    with d assms(3) show ?thesis by (auto simp: armed_def split: option.splits)
  qed
next
  fix client q' assume h: "tq_handleRead malloc client q = Inr q'"
    and v: "m_timeList q' = [] \<or> 0 < fst (hd (m_timeList q'))"
  from h obtain es p where "tq_reset es (clock q) p = Inr q'"
    by (auto simp: tq_handleRead_def Let_def res_simps)
  then obtain r where r: "foldR (reset_one (clock q)) es p = Inr r"
    by (auto simp: tq_reset_def res_simps)
  have q': "q' = (if m_timeList r \<noteq> [] \<and> 0 < fst (hd (m_timeList r))
        then resetTimerFd (fst (hd (m_timeList r))) r else r)"
    using \<open>tq_reset es (clock q) p = Inr q'\<close> tq_reset_eq [OF r] by simp
  show "armed q'"
  proof (cases "m_timeList r = []")
    case True
    then show ?thesis by (simp add: q' armed_def)
  next
    case False
    with v q' have "0 < fst (hd (m_timeList r))" by (auto split: if_splits)
    with False armed_reset [OF False] show ?thesis by (simp add: q')
  qed
qed (rule howMuch_us)

theorem timerfd_armed_witness:
  "armed sample_tq \<and> (\<exists>q'. do_op sample_malloc (Op_cancel (7, 0)) sample_tq = Inr q' \<and> armed q')"
proof -
  have "(7, 0) \<in> set (m_activeTimers sample_tq)" by (simp add: sample_tq_def)
  from cancel_active [OF sample_tq_wf(1) this] obtain q' where
    "do_op sample_malloc (Op_cancel (7, 0)) sample_tq = Inr q'" by (auto simp: cancel_def)
  with sample_tq_wf(2) timerfd_armed [OF sample_tq_wf(1) sample_malloc_ok sample_tq_wf(2)]
  show ?thesis by blast
qed

end
