(* ===== verification/Channels.thy ===== *)
theory Channels
  imports Prelude
begin

text \<open>
  \<open>src/src/net/Channel.h\<close>, \<open>Channel.cc\<close>, \<open>Poller.h\<close>, \<open>Poller.cc\<close>, \<open>EpollPoller.h\<close> and
  \<open>EpollPoller.cc\<close>: the file descriptors of a loop, the events they ask for and the callbacks
  the reported events select. A \<open>Channel*\<close> is a natural number into \<open>chans\<close>; a callback is the
  identity of the \<open>std::function\<close>, null being \<open>None\<close>. The kernel's interest list is part of the
  state, with \<open>epoll_ctl\<close> as documented for open descriptors (adding a present descriptor and
  changing or deleting an absent one fail, which the code only logs).
\<close>

section \<open>Channels\<close>

type_synonym events = "32 word"

definition POLLIN :: events where "POLLIN = 1"
definition POLLPRI :: events where "POLLPRI = 2"
definition POLLOUT :: events where "POLLOUT = 4"
definition POLLERR :: events where "POLLERR = 8"
definition POLLHUP :: events where "POLLHUP = 16"
definition POLLNVAL :: events where "POLLNVAL = 32"

definition KNoneEvent :: events where
  "KNoneEvent = 0"

definition KReadEvent :: events where
  "KReadEvent = POLLIN OR POLLPRI"

definition KWriteEvent :: events where
  "KWriteEvent = POLLOUT"

lemmas event_defs = POLLIN_def POLLPRI_def POLLOUT_def POLLERR_def POLLHUP_def POLLNVAL_def
  KNoneEvent_def KReadEvent_def KWriteEvent_def

text \<open>\<open>m_tier\<close> is the weak pointer's object, \<open>None\<close> when it never had one.\<close>

record channel =
  ch_fd :: int
  ch_events :: events
  ch_revents :: events
  ch_idxs :: int
  ch_readCb :: "nat option"
  ch_writeCb :: "nat option"
  ch_closeCb :: "nat option"
  ch_errCb :: "nat option"
  ch_tied :: bool
  ch_tier :: "nat option"
  ch_addedToLoop :: bool

definition new_channel :: "int \<Rightarrow> channel" where
  "new_channel fdArg = \<lparr>ch_fd = fdArg, ch_events = 0, ch_revents = 0, ch_idxs = -1, ch_readCb = None,
     ch_writeCb = None, ch_closeCb = None, ch_errCb = None, ch_tied = False, ch_tier = None,
     ch_addedToLoop = True\<rparr>"

definition isNoneEvent :: "channel \<Rightarrow> bool" where
  "isNoneEvent c \<longleftrightarrow> ch_events c = KNoneEvent"

definition isWriting :: "channel \<Rightarrow> bool" where
  "isWriting c \<longleftrightarrow> ch_events c AND KWriteEvent \<noteq> 0"

definition isReading :: "channel \<Rightarrow> bool" where
  "isReading c \<longleftrightarrow> ch_events c AND KReadEvent \<noteq> 0"

definition setReadCb :: "nat \<Rightarrow> channel \<Rightarrow> channel" where
  "setReadCb readF c = c\<lparr>ch_readCb := Some readF\<rparr>"

definition setWriteCb :: "nat \<Rightarrow> channel \<Rightarrow> channel" where
  "setWriteCb writeF c = c\<lparr>ch_writeCb := Some writeF\<rparr>"

definition setCloseCb :: "nat \<Rightarrow> channel \<Rightarrow> channel" where
  "setCloseCb cb c = c\<lparr>ch_closeCb := Some cb\<rparr>"

definition setErrCb :: "nat \<Rightarrow> channel \<Rightarrow> channel" where
  "setErrCb cb c = c\<lparr>ch_errCb := Some cb\<rparr>"

definition channel_tie :: "nat \<Rightarrow> channel \<Rightarrow> channel" where
  "channel_tie obj c = c\<lparr>ch_tier := Some obj, ch_tied := True\<rparr>"

text \<open>
  What handling an event calls: a list of callbacks, here at most one. Calling a null
  \<open>m_readCb\<close> throws \<open>std::bad_function_call\<close>; the log line of \<open>POLLNVAL\<close> is not kept.
\<close>

definition handleEventWithGraund :: "channel \<Rightarrow> nat list res" where
  "handleEventWithGraund c =
     (if ch_revents c AND POLLNVAL \<noteq> 0 then Inr []
      else if ch_revents c AND (POLLERR OR POLLERR) \<noteq> 0 then
        (case ch_errCb c of None \<Rightarrow> Inr [] | Some cb \<Rightarrow> Inr [cb])
      else if ch_revents c AND POLLIN \<noteq> 0 then
        (case ch_readCb c of None \<Rightarrow> Inl Bad_function_call | Some cb \<Rightarrow> Inr [cb])
      else if ch_revents c AND POLLOUT \<noteq> 0 then
        (case ch_writeCb c of None \<Rightarrow> Inr [] | Some cb \<Rightarrow> Inr [cb])
      else Inr [])"

text \<open>\<open>alive\<close> says which objects still have an owner, so that \<open>lock\<close> succeeds.\<close>

definition handleEvent :: "(nat \<Rightarrow> bool) \<Rightarrow> channel \<Rightarrow> nat list res" where
  "handleEvent alive c =
     (if ch_tied c then
        (if (case ch_tier c of None \<Rightarrow> False | Some obj \<Rightarrow> alive obj) then handleEventWithGraund c
         else Inr [])
      else handleEventWithGraund c)"

section \<open>The epoll poller\<close>

definition KNEW :: int where "KNEW = -1"
definition KDEL :: int where "KDEL = 2"
definition KADDED :: int where "KADDED = 3"
definition KInitEventSize :: nat where "KInitEventSize = 16"

record poller =
  chans :: "nat \<Rightarrow> channel option"
  m_mapFdToChannel :: "int \<Rightarrow> nat option"
  epoll_set :: "int \<Rightarrow> (events \<times> nat) option"
  vecEvents_size :: nat

definition new_EpollPoller :: poller where
  "new_EpollPoller = \<lparr>chans = \<lambda>_. None, m_mapFdToChannel = \<lambda>_. None, epoll_set = \<lambda>_. None,
     vecEvents_size = KInitEventSize\<rparr>"

datatype epoll_op = EPOLL_CTL_ADD | EPOLL_CTL_DEL | EPOLL_CTL_MOD

fun epoll_ctl ::
  "epoll_op \<Rightarrow> int \<Rightarrow> events \<times> nat \<Rightarrow> (int \<Rightarrow> (events \<times> nat) option) \<Rightarrow> int \<Rightarrow> (events \<times> nat) option" where
  "epoll_ctl EPOLL_CTL_ADD fd ev s = (if s fd = None then s(fd \<mapsto> ev) else s)"
| "epoll_ctl EPOLL_CTL_MOD fd ev s = (if s fd = None then s else s(fd \<mapsto> ev))"
| "epoll_ctl EPOLL_CTL_DEL fd ev s = s(fd := None)"

definition get_channel :: "nat \<Rightarrow> poller \<Rightarrow> channel res" where
  "get_channel a p = (case chans p a of None \<Rightarrow> Inl Undefined | Some c \<Rightarrow> Inr c)"

definition put_channel :: "nat \<Rightarrow> channel \<Rightarrow> poller \<Rightarrow> poller" where
  "put_channel a c p = p\<lparr>chans := (chans p)(a \<mapsto> c)\<rparr>"

definition setIdxs :: "nat \<Rightarrow> int \<Rightarrow> channel \<Rightarrow> poller \<Rightarrow> poller" where
  "setIdxs a index c p = put_channel a (c\<lparr>ch_idxs := index\<rparr>) p"

definition hasChannel :: "nat \<Rightarrow> poller \<Rightarrow> bool" where
  "hasChannel a p =
     (case chans p a of None \<Rightarrow> False
      | Some c \<Rightarrow> (case m_mapFdToChannel p (ch_fd c) of None \<Rightarrow> False | Some b \<Rightarrow> b = a))"

definition epoll_update :: "epoll_op \<Rightarrow> nat \<Rightarrow> channel \<Rightarrow> poller \<Rightarrow> poller" where
  "epoll_update op' a c p =
     p\<lparr>epoll_set := epoll_ctl op' (ch_fd c) (ch_events c, a) (epoll_set p)\<rparr>"

definition updateChannel :: "nat \<Rightarrow> poller \<Rightarrow> poller res" where
  "updateChannel a p =
     bindR (get_channel a p) (\<lambda>c.
       let idx = ch_idxs c; fd = ch_fd c; m = m_mapFdToChannel p
       in if idx = KNEW \<or> idx = KDEL then
            bindR (if idx = KNEW then
                     assertR (m fd = None) (Inr (p\<lparr>m_mapFdToChannel := m(fd \<mapsto> a)\<rparr>))
                   else
                     assertR (m fd \<noteq> None) (assertR (m fd = Some a) (Inr p)))
             (\<lambda>p. Inr (epoll_update EPOLL_CTL_ADD a c (setIdxs a KADDED c p)))
          else
            assertR (m fd \<noteq> None)
             (assertR (m fd = Some a)
               (assertR (idx = KADDED)
                 (if isNoneEvent c then
                    Inr (setIdxs a KDEL c (epoll_update EPOLL_CTL_DEL a c p))
                  else Inr (epoll_update EPOLL_CTL_MOD a c p)))))"

definition removeChannel :: "nat \<Rightarrow> poller \<Rightarrow> poller res" where
  "removeChannel a p =
     bindR (get_channel a p) (\<lambda>c.
       let fd = ch_fd c; m = m_mapFdToChannel p; index = ch_idxs c
       in assertR (m fd \<noteq> None)
           (assertR (m fd = Some a)
             (assertR (index \<noteq> KDEL)
               (let p = p\<lparr>m_mapFdToChannel := m(fd := None)\<rparr>;
                    p = (if index = KADDED then epoll_update EPOLL_CTL_DEL a c p else p)
                in Inr (setIdxs a KDEL c p)))))"

text \<open>
  \<open>epoll_wait\<close> is the list of events the kernel reports, each with the \<open>data.ptr\<close> it was
  registered with, or an error.
\<close>

definition report_event :: "events \<times> nat \<Rightarrow> poller \<Rightarrow> poller res" where
  "report_event = (\<lambda>(revents, a) p.
     bindR (get_channel a p) (\<lambda>c.
       assertR (m_mapFdToChannel p (ch_fd c) \<noteq> None)
        (assertR (m_mapFdToChannel p (ch_fd c) = Some a)
          (Inr (put_channel a (c\<lparr>ch_revents := revents\<rparr>) p)))))"

definition fillActiveList :: "(events \<times> nat) list \<Rightarrow> poller \<Rightarrow> (nat list \<times> poller) res" where
  "fillActiveList evs p =
     assertR (length evs \<le> vecEvents_size p)
      (bindR (foldR report_event evs p)
        (\<lambda>p. Inr (map snd evs, p)))"

definition poll :: "(events \<times> nat) list option \<Rightarrow> poller \<Rightarrow> (nat list \<times> poller) res" where
  "poll epoll_wait p =
     (case epoll_wait of
        None \<Rightarrow> Inr ([], p)
      | Some evs \<Rightarrow>
          if 0 < length evs then
            bindR (fillActiveList evs p) (\<lambda>(active, p).
              Inr (active, if length evs = vecEvents_size p
                           then p\<lparr>vecEvents_size := 2 * vecEvents_size p\<rparr> else p))
          else Inr ([], p))"

section \<open>Operations of a channel that reach the poller\<close>

definition channel_update :: "nat \<Rightarrow> poller \<Rightarrow> poller res" where
  "channel_update a p = updateChannel a p"

definition set_events :: "nat \<Rightarrow> (events \<Rightarrow> events) \<Rightarrow> poller \<Rightarrow> poller res" where
  "set_events a f p =
     bindR (get_channel a p) (\<lambda>c. channel_update a (put_channel a (c\<lparr>ch_events := f (ch_events c)\<rparr>) p))"

definition enableRead :: "nat \<Rightarrow> poller \<Rightarrow> poller res" where
  "enableRead a p = set_events a (\<lambda>e. e OR KReadEvent) p"

definition enableWrite :: "nat \<Rightarrow> poller \<Rightarrow> poller res" where
  "enableWrite a p = bindR (set_events a (\<lambda>e. e OR KWriteEvent) p) (channel_update a)"

definition disableRead :: "nat \<Rightarrow> poller \<Rightarrow> poller res" where
  "disableRead a p = set_events a (\<lambda>e. e AND NOT KReadEvent) p"

definition disableWrite :: "nat \<Rightarrow> poller \<Rightarrow> poller res" where
  "disableWrite a p = set_events a (\<lambda>e. e AND NOT KWriteEvent) p"

definition disableAll :: "nat \<Rightarrow> poller \<Rightarrow> poller res" where
  "disableAll a p = set_events a (\<lambda>_. KNoneEvent) p"

definition channel_remove :: "nat \<Rightarrow> poller \<Rightarrow> poller res" where
  "channel_remove a p =
     bindR (get_channel a p) (\<lambda>c.
       assertR (isNoneEvent c) (removeChannel a (put_channel a (c\<lparr>ch_addedToLoop := False\<rparr>) p)))"

section \<open>The contract of a poller\<close>

text \<open>
  \<open>Poller\<close> is an abstract class; what a channel relies on when it changes its events: the call
  succeeds, the poller then watches exactly the events asked for, and no other channel is
  affected. An operation \<open>x\<close> acts on the channel \<open>target x\<close> and changes its events by
  \<open>effect x\<close>.
\<close>

locale event_poller =
  fixes ok :: "'s \<Rightarrow> bool"
    and owns :: "nat \<Rightarrow> 's \<Rightarrow> bool"
    and asked :: "'s \<Rightarrow> nat \<Rightarrow> events"
    and watched :: "'s \<Rightarrow> nat \<Rightarrow> events"
    and change :: "'o \<Rightarrow> 's \<Rightarrow> 's res"
    and target :: "'o \<Rightarrow> nat"
    and effect :: "'o \<Rightarrow> events \<Rightarrow> events"
  assumes change_total: "ok s \<Longrightarrow> owns (target x) s \<Longrightarrow> \<exists>t. change x s = Inr t \<and> ok t
      \<and> owns (target x) t \<and> asked t (target x) = effect x (asked s (target x))
      \<and> watched t (target x) = asked t (target x)"
    and change_frame: "ok s \<Longrightarrow> owns (target x) s \<Longrightarrow> change x s = Inr t \<Longrightarrow> owns b s \<Longrightarrow> b \<noteq> target x
      \<Longrightarrow> owns b t \<and> asked t b = asked s b \<and> watched t b = watched s b"
begin

lemma changes_total:
  assumes "ok s" and "\<forall>x \<in> set ops. owns (target x) s" and "owns a s"
    and "watched s a = asked s a"
  shows "\<exists>t. foldR change ops s = Inr t \<and> ok t \<and> watched t a = asked t a
    \<and> asked t a = fold (\<lambda>x e. if target x = a then effect x e else e) ops (asked s a)"
  using assms
proof (induction ops arbitrary: s)
  case Nil
  then show ?case by simp
next
  case (Cons x ops)
  from change_total [OF Cons.prems(1), of x] Cons.prems(2) obtain u where
    u: "change x s = Inr u" "ok u" "owns (target x) u"
      "asked u (target x) = effect x (asked s (target x))" "watched u (target x) = asked u (target x)"
    by auto
  have fr: "b \<noteq> target x \<Longrightarrow> owns b s \<Longrightarrow> owns b u \<and> asked u b = asked s b \<and> watched u b = watched s b"
    for b using change_frame [OF Cons.prems(1) _ u(1)] Cons.prems(2) by simp
  have "\<forall>y \<in> set ops. owns (target y) u"
    using Cons.prems(2) fr u(3) by (metis list.set_intros(2))
  moreover have "owns a u \<and> watched u a = asked u a
      \<and> asked u a = (if target x = a then effect x (asked s a) else asked s a)"
    using fr [of a] u(3-5) Cons.prems(3,4) by (cases "a = target x") auto
  ultimately show ?case using Cons.IH [OF u(2)] u(1) by fastforce
qed

end

definition usable :: "nat \<Rightarrow> poller \<Rightarrow> bool" where
  "usable a p \<longleftrightarrow> (case chans p a of None \<Rightarrow> False
     | Some c \<Rightarrow> if ch_idxs c = KNEW then m_mapFdToChannel p (ch_fd c) = None
                else m_mapFdToChannel p (ch_fd c) = Some a)"

definition wf_poller :: "poller \<Rightarrow> bool" where
  "wf_poller p \<longleftrightarrow>
     (\<forall>a c. chans p a = Some c \<longrightarrow> ch_idxs c = KNEW \<or> ch_idxs c = KDEL \<or> ch_idxs c = KADDED)
     \<and> (\<forall>fd a. m_mapFdToChannel p fd = Some a
          \<longrightarrow> (\<exists>c. chans p a = Some c \<and> ch_fd c = fd \<and> ch_idxs c \<noteq> KNEW))
     \<and> (\<forall>a c. chans p a = Some c \<longrightarrow> ch_idxs c = KADDED
          \<longrightarrow> m_mapFdToChannel p (ch_fd c) = Some a \<and> epoll_set p (ch_fd c) = Some (ch_events c, a))
     \<and> (\<forall>fd e a. epoll_set p fd = Some (e, a)
          \<longrightarrow> (\<exists>c. chans p a = Some c \<and> ch_fd c = fd \<and> ch_idxs c = KADDED))
     \<and> (\<forall>a b c d. usable a p \<longrightarrow> usable b p \<longrightarrow> chans p a = Some c \<longrightarrow> chans p b = Some d
          \<longrightarrow> ch_fd c = ch_fd d \<longrightarrow> a = b)"

definition asked_events :: "poller \<Rightarrow> nat \<Rightarrow> events" where
  "asked_events p a = (case chans p a of None \<Rightarrow> 0 | Some c \<Rightarrow> ch_events c)"

definition watched_events :: "poller \<Rightarrow> nat \<Rightarrow> events" where
  "watched_events p a =
     (case chans p a of None \<Rightarrow> 0
      | Some c \<Rightarrow> (case epoll_set p (ch_fd c) of None \<Rightarrow> 0 | Some (e, b) \<Rightarrow> if b = a then e else 0))"

lemmas k_defs = KNEW_def KDEL_def KADDED_def

lemma wf_poller_idx:
  "wf_poller p \<Longrightarrow> chans p a = Some c \<Longrightarrow> ch_idxs c = KNEW \<or> ch_idxs c = KDEL \<or> ch_idxs c = KADDED"
  unfolding wf_poller_def by (elim conjE) simp

lemma wf_poller_map:
  assumes "wf_poller p" and "m_mapFdToChannel p fd = Some a"
  obtains c where "chans p a = Some c" "ch_fd c = fd" "ch_idxs c \<noteq> KNEW"
  using assms unfolding wf_poller_def by (elim conjE) blast

lemma wf_poller_added:
  assumes "wf_poller p" and "chans p a = Some c" and "ch_idxs c = KADDED"
  shows "m_mapFdToChannel p (ch_fd c) = Some a" "epoll_set p (ch_fd c) = Some (ch_events c, a)"
  using assms unfolding wf_poller_def by (elim conjE, blast)+

lemma wf_poller_epoll:
  assumes "wf_poller p" and "epoll_set p fd = Some (e, a)"
  obtains c where "chans p a = Some c" "ch_fd c = fd" "ch_idxs c = KADDED"
  using assms unfolding wf_poller_def by (elim conjE) blast

lemma wf_poller_uniq:
  assumes "wf_poller p" and "usable a p" "usable b p" "chans p a = Some c" "chans p b = Some d"
    "ch_fd c = ch_fd d"
  shows "a = b"
  using assms unfolding wf_poller_def by (elim conjE) blast

lemma usable_iff:
  "chans p a = Some c \<Longrightarrow> usable a p \<longleftrightarrow>
     m_mapFdToChannel p (ch_fd c) = (if ch_idxs c = KNEW then None else Some a)"
  by (simp add: usable_def)

text \<open>What \<open>set_events\<close> leaves behind, by the state the channel was in.\<close>

lemma set_events_eq:
  assumes w: "wf_poller p" and u: "usable a p" and c: "chans p a = Some c"
    and c': "c' = c\<lparr>ch_events := f (ch_events c)\<rparr>"
  shows "set_events a f p = Inr
     (if ch_idxs c = KADDED then
        (if f (ch_events c) = 0
         then p\<lparr>chans := (chans p)(a \<mapsto> c'\<lparr>ch_idxs := KDEL\<rparr>),
                epoll_set := (epoll_set p)(ch_fd c := None)\<rparr>
         else p\<lparr>chans := (chans p)(a \<mapsto> c'),
                epoll_set := (epoll_set p)(ch_fd c \<mapsto> (f (ch_events c), a))\<rparr>)
      else p\<lparr>chans := (chans p)(a \<mapsto> c'\<lparr>ch_idxs := KADDED\<rparr>),
             m_mapFdToChannel := (m_mapFdToChannel p)(ch_fd c \<mapsto> a),
             epoll_set := (epoll_set p)(ch_fd c \<mapsto> (f (ch_events c), a))\<rparr>)"
proof -
  have idx: "ch_idxs c = KNEW \<or> ch_idxs c = KDEL \<or> ch_idxs c = KADDED"
    by (rule wf_poller_idx [OF w c])
  have none: "ch_idxs c \<noteq> KADDED \<Longrightarrow> epoll_set p (ch_fd c) = None"
  proof (rule ccontr)
    assume n: "ch_idxs c \<noteq> KADDED" and "epoll_set p (ch_fd c) \<noteq> None"
    then obtain e b where "epoll_set p (ch_fd c) = Some (e, b)" by auto
    from wf_poller_epoll [OF w this] obtain d where d: "chans p b = Some d" "ch_fd d = ch_fd c"
      "ch_idxs d = KADDED" .
    from wf_poller_added(1) [OF w d(1,3)] d(2) have "m_mapFdToChannel p (ch_fd c) = Some b" by simp
    with u c d n show False by (auto simp: usable_iff split: if_splits)
  qed
  have m: "ch_idxs c \<noteq> KNEW \<Longrightarrow> m_mapFdToChannel p (ch_fd c) = Some a"
    "ch_idxs c = KNEW \<Longrightarrow> m_mapFdToChannel p (ch_fd c) = None"
    using u c by (auto simp: usable_def)
  have ad: "ch_idxs c = KADDED \<Longrightarrow> epoll_set p (ch_fd c) = Some (ch_events c, a)"
    by (rule wf_poller_added(2) [OF w c])
  from idx show ?thesis
  proof (elim disjE)
    assume "ch_idxs c = KNEW"
    with m none c show ?thesis
      by (simp add: set_events_def get_channel_def channel_update_def updateChannel_def put_channel_def
          setIdxs_def epoll_update_def c' k_defs Let_def)
  next
    assume "ch_idxs c = KDEL"
    with m none c show ?thesis
      by (simp add: set_events_def get_channel_def channel_update_def updateChannel_def put_channel_def
          setIdxs_def epoll_update_def c' k_defs Let_def fun_upd_idem)
  next
    assume "ch_idxs c = KADDED"
    with m ad c show ?thesis
      by (simp add: set_events_def get_channel_def channel_update_def updateChannel_def put_channel_def
          setIdxs_def epoll_update_def c' k_defs Let_def isNoneEvent_def KNoneEvent_def)
  qed
qed

text \<open>The shape shared by the three outcomes keeps the invariant.\<close>

lemma registered:
  assumes w: "wf_poller p" and u: "usable a p" and c: "chans p a = Some c"
    and d: "ch_fd d = ch_fd c" "ch_idxs d = KADDED \<or> ch_idxs d = KDEL"
    and p': "chans p' = (chans p)(a \<mapsto> d)"
      "m_mapFdToChannel p' = (m_mapFdToChannel p)(ch_fd c \<mapsto> a)"
      "epoll_set p' = (epoll_set p)(ch_fd c := (if ch_idxs d = KADDED then Some (ch_events d, a) else None))"
  shows "wf_poller p'" "usable a p'"
    "\<And>b. usable b p \<Longrightarrow> b \<noteq> a \<Longrightarrow> usable b p' \<and> asked_events p' b = asked_events p b
       \<and> watched_events p' b = watched_events p b"
proof -
  have k: "ch_idxs d \<noteq> KNEW" using d(2) by (auto simp: k_defs)
  show ua: "usable a p'" by (simp add: usable_def p' k d(1))
  have other: "m_mapFdToChannel p (ch_fd e) \<noteq> Some b" if "chans p b = Some e" "ch_fd e = ch_fd c" "b \<noteq> a" for b e
  proof
    assume m: "m_mapFdToChannel p (ch_fd e) = Some b"
    from wf_poller_map [OF w m] that(1) have "ch_idxs e \<noteq> KNEW" by auto
    with m that(1) have "usable b p" by (simp add: usable_def)
    from wf_poller_uniq [OF w this u that(1) c that(2)] that(3) show False by simp
  qed
  have ne: "ch_fd e \<noteq> ch_fd c" if "usable b p" "chans p b = Some e" "b \<noteq> a" for b e
    using wf_poller_uniq [OF w that(1) u that(2) c] that(3) by blast
  have sub: "usable b p" if "usable b p'" "b \<noteq> a" for b
    using that other by (auto simp: usable_def p' split: option.splits if_splits)
  show "usable b p' \<and> asked_events p' b = asked_events p b \<and> watched_events p' b = watched_events p b"
    if "usable b p" "b \<noteq> a" for b
    using that ne [OF that(1)] by (auto simp: usable_def asked_events_def watched_events_def p' split: option.splits if_splits)
  have notadded: "ch_fd e \<noteq> ch_fd c" if "chans p b = Some e" "ch_idxs e = KADDED" "b \<noteq> a" for b e
    using wf_poller_added(1) [OF w that(1,2)] other [OF that(1) _ that(3)] by auto
  show "wf_poller p'"
    unfolding wf_poller_def
  proof (intro conjI allI impI)
    fix b e assume "chans p' b = Some e"
    then show "ch_idxs e = KNEW \<or> ch_idxs e = KDEL \<or> ch_idxs e = KADDED"
      using wf_poller_idx [OF w, of b e] d(2) by (auto simp: p' split: if_splits)
  next
    fix fd b assume m: "m_mapFdToChannel p' fd = Some b"
    show "\<exists>e. chans p' b = Some e \<and> ch_fd e = fd \<and> ch_idxs e \<noteq> KNEW"
    proof (cases "b = a \<or> fd = ch_fd c")
      case True
      then show ?thesis using m k d(1) wf_poller_map [OF w, of fd a] c
        by (fastforce simp: p' split: if_splits)
    next
      case False
      with m have "m_mapFdToChannel p fd = Some b" by (simp add: p')
      from wf_poller_map [OF w this] False show ?thesis by (auto simp: p')
    qed
  next
    fix b e assume e: "chans p' b = Some e" "ch_idxs e = KADDED"
    show "m_mapFdToChannel p' (ch_fd e) = Some b"
      using e d(1) wf_poller_added(1) [OF w, of b e] notadded [of b e] by (auto simp: p' split: if_splits)
    show "epoll_set p' (ch_fd e) = Some (ch_events e, b)"
      using e d(1) wf_poller_added(2) [OF w, of b e] notadded [of b e] by (auto simp: p' split: if_splits)
  next
    fix fd ev b assume ep: "epoll_set p' fd = Some (ev, b)"
    show "\<exists>e. chans p' b = Some e \<and> ch_fd e = fd \<and> ch_idxs e = KADDED"
    proof (cases "fd = ch_fd c")
      case True
      then show ?thesis using ep d(1) by (auto simp: p' split: if_splits)
    next
      case False
      with ep have "epoll_set p fd = Some (ev, b)" by (simp add: p')
      from wf_poller_epoll [OF w this] obtain e where e: "chans p b = Some e" "ch_fd e = fd" "ch_idxs e = KADDED" .
      with False c have "b \<noteq> a" by auto
      with e show ?thesis by (simp add: p')
    qed
  next
    fix b b' e e' assume "usable b p'" "usable b' p'" "chans p' b = Some e" "chans p' b' = Some e'" "ch_fd e = ch_fd e'"
    then show "b = b'"
      using sub [of b] sub [of b'] ne [of b e] ne [of b' e'] d(1) wf_poller_uniq [OF w, of b b' e e']
      by (auto simp: p' split: if_splits)
  qed
qed

lemma set_events_wf:
  assumes w: "wf_poller p" and u: "usable a p"
  obtains p' where "set_events a f p = Inr p'" "wf_poller p'" "usable a p'"
    "asked_events p' a = f (asked_events p a)" "watched_events p' a = f (asked_events p a)"
    "\<And>b. usable b p \<Longrightarrow> b \<noteq> a \<Longrightarrow> usable b p' \<and> asked_events p' b = asked_events p b
       \<and> watched_events p' b = watched_events p b"
    "\<And>b. b \<noteq> a \<Longrightarrow> chans p' b = chans p b"
proof -
  from u obtain c where c: "chans p a = Some c" by (auto simp: usable_def split: option.splits)
  let ?c' = "c\<lparr>ch_events := f (ch_events c)\<rparr>"
  let ?gone = "ch_idxs c = KADDED \<and> f (ch_events c) = 0"
  let ?d = "?c'\<lparr>ch_idxs := if ?gone then KDEL else KADDED\<rparr>"
  obtain p' where e: "set_events a f p = Inr p'" by (simp add: set_events_eq [OF w u c refl])
  have m: "ch_idxs c = KADDED \<Longrightarrow> (m_mapFdToChannel p)(ch_fd c \<mapsto> a) = m_mapFdToChannel p"
    using wf_poller_added(1) [OF w c] by (simp add: fun_upd_idem)
  have id: "ch_idxs c = KADDED \<Longrightarrow> ?c'\<lparr>ch_idxs := KADDED\<rparr> = ?c'" by simp
  have p': "chans p' = (chans p)(a \<mapsto> ?d)"
    "m_mapFdToChannel p' = (m_mapFdToChannel p)(ch_fd c \<mapsto> a)"
    "epoll_set p' = (epoll_set p)(ch_fd c := (if ch_idxs ?d = KADDED then Some (ch_events ?d, a) else None))"
    using e m id unfolding set_events_eq [OF w u c refl] by (auto simp: k_defs split: if_splits)
  note r = registered [OF w u c _ _ p']
  have "asked_events p' a = f (asked_events p a)" "watched_events p' a = f (asked_events p a)"
    using c by (auto simp: asked_events_def watched_events_def p' k_defs)
  moreover have "b \<noteq> a \<Longrightarrow> chans p' b = chans p b" for b by (simp add: p')
  ultimately show ?thesis
    using that [OF e r(1,2)] r(3) by (auto simp: k_defs)
qed

lemma set_events_ex:
  assumes "wf_poller p" and "usable a p"
  shows "\<exists>q. set_events a f p = Inr q \<and> wf_poller q \<and> usable a q
    \<and> asked_events q a = f (asked_events p a) \<and> watched_events q a = f (asked_events p a)
    \<and> (\<forall>b. usable b p \<longrightarrow> b \<noteq> a \<longrightarrow> usable b q \<and> asked_events q b = asked_events p b
       \<and> watched_events q b = watched_events p b)"
  using set_events_wf [OF assms, of f] by metis

lemma set_events_again:
  assumes "wf_poller p" and "usable a p"
  obtains q r where "set_events a f p = Inr q" "channel_update a q = Inr r"
    "set_events a (\<lambda>e. e) q = Inr r" "wf_poller q" "usable a q"
proof -
  obtain q where q: "set_events a f p = Inr q" "wf_poller q" "usable a q"
    using set_events_wf [OF assms] by metis
  from q(3) obtain c where c: "chans q a = Some c" by (auto simp: usable_def split: option.splits)
  obtain r where r: "set_events a (\<lambda>e. e) q = Inr r" using set_events_wf [OF q(2,3)] by metis
  moreover have "channel_update a q = set_events a (\<lambda>e. e) q"
    using c by (simp add: set_events_def get_channel_def put_channel_def fun_upd_idem)
  ultimately show ?thesis using that [OF q(1) _ r q(2,3)] by simp
qed

section \<open>Properties\<close>

datatype interest_op = Enable_read | Enable_write | Disable_read | Disable_write | Disable_all

fun run_interest :: "nat \<times> interest_op \<Rightarrow> poller \<Rightarrow> poller res" where
  "run_interest (a, Enable_read) p = enableRead a p"
| "run_interest (a, Enable_write) p = enableWrite a p"
| "run_interest (a, Disable_read) p = disableRead a p"
| "run_interest (a, Disable_write) p = disableWrite a p"
| "run_interest (a, Disable_all) p = disableAll a p"

fun apply_op :: "interest_op \<Rightarrow> events \<Rightarrow> events" where
  "apply_op Enable_read = (\<lambda>e. e OR 3)"
| "apply_op Enable_write = (\<lambda>e. e OR 4)"
| "apply_op Disable_read = (\<lambda>e. e AND NOT 3)"
| "apply_op Disable_write = (\<lambda>e. e AND NOT 4)"
| "apply_op Disable_all = (\<lambda>e. 0)"

lemma read_mask: "KReadEvent = 3" "KWriteEvent = 4"
  by (simp_all add: KReadEvent_def KWriteEvent_def POLLIN_def POLLPRI_def POLLOUT_def)

lemma run_interest_simple:
  "op' \<noteq> Enable_write \<Longrightarrow> run_interest (a, op') p = set_events a (apply_op op') p"
  by (cases op') (simp_all add: enableRead_def disableRead_def disableWrite_def disableAll_def
      read_mask KNoneEvent_def)

lemma run_interest_step:
  assumes w: "wf_poller p" and u: "usable (fst x) p"
  obtains p' where "run_interest x p = Inr p'" "wf_poller p'" "usable (fst x) p'"
    "asked_events p' (fst x) = apply_op (snd x) (asked_events p (fst x))"
    "watched_events p' (fst x) = asked_events p' (fst x)"
    "\<And>b. usable b p \<Longrightarrow> b \<noteq> fst x \<Longrightarrow> usable b p' \<and> asked_events p' b = asked_events p b
       \<and> watched_events p' b = watched_events p b"
proof -
  obtain a op' where x: "x = (a, op')" by (cases x)
  let ?f = "apply_op op'"
  have ua: "usable a p" using u x by simp
  show ?thesis
  proof (cases "op' = Enable_write")
    case False
    obtain q where q: "set_events a ?f p = Inr q" "wf_poller q" "usable a q"
      "asked_events q a = ?f (asked_events p a)" "watched_events q a = ?f (asked_events p a)"
      "\<forall>b. usable b p \<longrightarrow> b \<noteq> a \<longrightarrow> usable b q \<and> asked_events q b = asked_events p b
       \<and> watched_events q b = watched_events p b" using set_events_ex [OF w ua, of ?f] by blast
    then show ?thesis by (intro that [of q]) (simp_all add: x run_interest_simple [OF False])
  next
    case True
    from set_events_again [OF w ua, of ?f] obtain q r where qr: "set_events a ?f p = Inr q"
      "channel_update a q = Inr r" "set_events a (\<lambda>e. e) q = Inr r" "wf_poller q" "usable a q" .
    obtain q' where q': "set_events a ?f p = Inr q'" "asked_events q' a = ?f (asked_events p a)"
      "\<forall>b. usable b p \<longrightarrow> b \<noteq> a \<longrightarrow> usable b q' \<and> asked_events q' b = asked_events p b
       \<and> watched_events q' b = watched_events p b" using set_events_ex [OF w ua, of ?f] by blast
    then have [simp]: "q' = q" using qr(1) by simp
    obtain r' where r': "set_events a (\<lambda>e. e) q = Inr r'" "wf_poller r'" "usable a r'"
      "asked_events r' a = asked_events q a" "watched_events r' a = asked_events q a"
      "\<forall>b. usable b q \<longrightarrow> b \<noteq> a \<longrightarrow> usable b r' \<and> asked_events r' b = asked_events q b
       \<and> watched_events r' b = watched_events q b" using set_events_ex [OF qr(4,5), of "\<lambda>e. e"] by blast
    then have [simp]: "r' = r" using qr(3) by simp
    have "run_interest x p = Inr r" using qr(1,2) by (simp add: x True enableWrite_def read_mask)
    then show ?thesis using that q'(2,3) r' by (simp add: x True)
  qed
qed

interpretation ep: event_poller wf_poller usable asked_events watched_events run_interest fst "\<lambda>x. apply_op (snd x)"
proof unfold_locales
  fix s and x :: "nat \<times> interest_op" assume "wf_poller s" "usable (fst x) s"
  then show "\<exists>t. run_interest x s = Inr t \<and> wf_poller t \<and> usable (fst x) t
      \<and> asked_events t (fst x) = apply_op (snd x) (asked_events s (fst x))
      \<and> watched_events t (fst x) = asked_events t (fst x)"
    using run_interest_step [of s x] by metis
next
  fix s t b and x :: "nat \<times> interest_op" assume "wf_poller s" "usable (fst x) s" "run_interest x s = Inr t" "usable b s" "b \<noteq> fst x"
  then show "usable b t \<and> asked_events t b = asked_events s b \<and> watched_events t b = watched_events s b"
    using run_interest_step [of s x] by (metis sum.inject(2))
qed

text \<open>
  C15. Through any sequence of \<open>enableRead\<close>, \<open>enableWrite\<close>, \<open>disableRead\<close>, \<open>disableWrite\<close> and
  \<open>disableAll\<close> on channels the poller may use, no assertion of \<open>updateChannel\<close> fails, and the
  kernel watches for each channel exactly the events it asks for, which are the read and write
  bits the operations on it left set.
\<close>

theorem channel_interest:
  assumes "wf_poller p" and "\<forall>x \<in> set ops. usable (fst x) p" and "usable a p"
    and "watched_events p a = asked_events p a"
  shows "\<exists>q. foldR run_interest ops p = Inr q \<and> wf_poller q
     \<and> watched_events q a = asked_events q a
     \<and> asked_events q a = fold (\<lambda>x e. if fst x = a then apply_op (snd x) e else e) ops (asked_events p a)"
  by (rule ep.changes_total [OF assms])

definition sample_poller :: poller where
  "sample_poller = new_EpollPoller\<lparr>chans := [1 \<mapsto> new_channel 5, 2 \<mapsto> new_channel 6]\<rparr>"

lemma sample_poller_wf:
  "wf_poller sample_poller" "usable 1 sample_poller" "usable 2 sample_poller"
  "watched_events sample_poller 1 = 0" "asked_events sample_poller 1 = 0"
  by (auto simp: wf_poller_def sample_poller_def new_EpollPoller_def new_channel_def usable_def k_defs
      watched_events_def asked_events_def split: if_splits)

theorem channel_interest_witness:
  "wf_poller sample_poller \<and> (\<exists>q. foldR run_interest
      [(1, Enable_read), (2, Enable_read), (1, Enable_write), (1, Disable_read), (2, Disable_all)] sample_poller
        = Inr q \<and> watched_events q 1 = 4)"
  using sample_poller_wf channel_interest [of sample_poller
      "[(1, Enable_read), (2, Enable_read), (1, Enable_write), (1, Disable_read), (2, Disable_all)]" 1]
  by auto

text \<open>
  C16. Handling an event runs at most one callback: the error callback on \<open>POLLERR\<close>, else the read
  callback on \<open>POLLIN\<close>, else the write callback on \<open>POLLOUT\<close>, none on \<open>POLLNVAL\<close> or when the
  tied owner is gone. The close callback is never run and a bare \<open>POLLHUP\<close> runs nothing.
\<close>

theorem event_dispatch:
  assumes "\<not> ch_tied c \<or> (\<exists>obj. ch_tier c = Some obj \<and> alive obj)"
    and "ch_readCb c = Some r" and "ch_writeCb c = Some w" and "ch_errCb c = Some e"
  shows "handleEvent alive c = Inr
       (if bit (ch_revents c) 5 then [] else if bit (ch_revents c) 3 then [e]
        else if bit (ch_revents c) 0 then [r] else if bit (ch_revents c) 2 then [w] else [])
     \<and> (\<forall>x. handleEvent alive (c\<lparr>ch_closeCb := x\<rparr>) = handleEvent alive c)
     \<and> handleEvent alive (c\<lparr>ch_revents := POLLHUP\<rparr>) = Inr []
     \<and> handleEvent (\<lambda>_. False) (c\<lparr>ch_tied := True\<rparr>) = Inr []"
proof -
  have m: "(x AND 32 = 0) = (\<not> bit x 5)" "(x AND 8 = 0) = (\<not> bit x 3)"
    "(x AND 1 = 0) = (\<not> bit x 0)" "(x AND 4 = 0) = (\<not> bit x 2)" for x :: events
    using and_exp_eq_0_iff_not_bit [of x 5] and_exp_eq_0_iff_not_bit [of x 3]
      and_exp_eq_0_iff_not_bit [of x 0] and_exp_eq_0_iff_not_bit [of x 2] by simp_all
  have g: "handleEventWithGraund c = Inr
       (if bit (ch_revents c) 5 then [] else if bit (ch_revents c) 3 then [e]
        else if bit (ch_revents c) 0 then [r] else if bit (ch_revents c) 2 then [w] else [])"
    using assms(2-4) by (simp add: handleEventWithGraund_def event_defs m)
  have h: "handleEventWithGraund (c\<lparr>ch_revents := POLLHUP\<rparr>) = Inr []"
    by (simp add: handleEventWithGraund_def event_defs)
  have cl: "handleEventWithGraund (c\<lparr>ch_closeCb := x\<rparr>) = handleEventWithGraund c" for x
    by (simp add: handleEventWithGraund_def)
  show ?thesis
    using assms(1) g h cl by (auto simp: handleEvent_def split: option.splits)
qed

theorem event_dispatch_witness:
  "handleEvent (\<lambda>_. True) ((new_channel 5)\<lparr>ch_revents := 5, ch_readCb := Some 1,
      ch_writeCb := Some 2, ch_errCb := Some 3\<rparr>) = Inr [1]"
  using event_dispatch [of "(new_channel 5)\<lparr>ch_revents := 5, ch_readCb := Some 1, ch_writeCb := Some 2,
      ch_errCb := Some 3\<rparr>" "\<lambda>_. True" 1 2 3]
  by (simp add: new_channel_def bit_numeral_rec)

lemma disable_then_remove:
  assumes "wf_poller p" and "usable a p" and "chans p a = Some c"
  shows "bindR (disableAll a p) (channel_remove a) =
     (if ch_idxs c = KADDED then Inl Assert_failed
      else Inr (p\<lparr>m_mapFdToChannel := (m_mapFdToChannel p)(ch_fd c := None),
                  epoll_set := (epoll_set p)(ch_fd c := None),
                  chans := (chans p)(a \<mapsto> c\<lparr>ch_events := 0, ch_addedToLoop := False, ch_idxs := KDEL\<rparr>)\<rparr>))"
proof -
  note s = set_events_eq [OF assms refl, of "\<lambda>_. 0"]
  have m: "ch_idxs c = KADDED \<Longrightarrow> m_mapFdToChannel p (ch_fd c) = Some a"
    by (rule wf_poller_added(1) [OF assms(1,3)])
  show ?thesis
  proof (cases "ch_idxs c = KADDED")
    case True
    with s m show ?thesis
      by (simp add: disableAll_def KNoneEvent_def channel_remove_def get_channel_def isNoneEvent_def
          put_channel_def removeChannel_def k_defs Let_def)
  next
    case False
    with s show ?thesis
      by (simp add: disableAll_def KNoneEvent_def channel_remove_def get_channel_def isNoneEvent_def
          put_channel_def removeChannel_def setIdxs_def epoll_update_def k_defs Let_def)
  qed
qed

text \<open>
  Taking a channel out: \<open>remove\<close> after \<open>disableAll\<close> succeeds only for a channel that the
  poller did not have in the kernel's set before. A channel that was watching something is
  marked deleted by \<open>disableAll\<close>, and the assertion \<open>index != KDEL\<close> of \<open>removeChannel\<close> then always
  fails.
\<close>

theorem removal_after_disable:
  assumes "wf_poller p" and "usable a p" and "chans p a = Some c"
  shows "bindR (disableAll a p) (channel_remove a) =
     (if ch_idxs c = KADDED then Inl Assert_failed
      else Inr (p\<lparr>m_mapFdToChannel := (m_mapFdToChannel p)(ch_fd c := None),
                  epoll_set := (epoll_set p)(ch_fd c := None),
                  chans := (chans p)(a \<mapsto> c\<lparr>ch_events := 0, ch_addedToLoop := False, ch_idxs := KDEL\<rparr>)\<rparr>))"
  by (rule disable_then_remove [OF assms])

definition watched_poller :: poller where
  "watched_poller = \<lparr>chans = [1 \<mapsto> (new_channel 5)\<lparr>ch_events := 3, ch_idxs := KADDED\<rparr>],
     m_mapFdToChannel = [5 \<mapsto> 1], epoll_set = [5 \<mapsto> (3, 1)], vecEvents_size = 16\<rparr>"

lemma watched_poller_wf: "wf_poller watched_poller" "usable 1 watched_poller"
  by (auto simp: wf_poller_def watched_poller_def new_channel_def usable_def k_defs split: if_splits)

theorem removal_after_disable_witness:
  "wf_poller watched_poller
     \<and> bindR (disableAll 1 watched_poller) (channel_remove 1) = Inl Assert_failed"
  using watched_poller_wf removal_after_disable [OF watched_poller_wf]
  by (simp add: watched_poller_def)

lemma report_events:
  assumes "\<forall>(e, a) \<in> set es. \<exists>c. chans r a = Some c \<and> m_mapFdToChannel r (ch_fd c) = Some a"
    and "distinct (map snd es)"
  shows "\<exists>q. foldR report_event es r = Inr q
    \<and> (\<forall>(e, a) \<in> set es. map_option ch_revents (chans q a) = Some e)
    \<and> (\<forall>a. a \<notin> snd ` set es \<longrightarrow> chans q a = chans r a)
    \<and> vecEvents_size q = vecEvents_size r \<and> m_mapFdToChannel q = m_mapFdToChannel r
    \<and> epoll_set q = epoll_set r"
  using assms
proof (induction es arbitrary: r)
  case Nil
  then show ?case by simp
next
  case (Cons x es)
  obtain e a where x: "x = (e, a)" by (cases x)
  with Cons.prems(1) obtain c where c: "chans r a = Some c" "m_mapFdToChannel r (ch_fd c) = Some a" by auto
  let ?r = "put_channel a (c\<lparr>ch_revents := e\<rparr>) r"
  have st: "report_event x r = Inr ?r" using c by (simp add: x get_channel_def report_event_def)
  have na: "a \<notin> snd ` set es" "distinct (map snd es)" using Cons.prems(2) x by simp_all
  have "\<forall>(e', b) \<in> set es. \<exists>c. chans ?r b = Some c \<and> m_mapFdToChannel ?r (ch_fd c) = Some b"
  proof (rule ballI, clarify)
    fix e' b assume b: "(e', b) \<in> set es"
    then have "b \<noteq> a" using na(1) by force
    with Cons.prems(1) b show "\<exists>c. chans ?r b = Some c \<and> m_mapFdToChannel ?r (ch_fd c) = Some b"
      by (auto simp: put_channel_def)
  qed
  from Cons.IH [OF this na(2)] obtain q where q: "foldR report_event es ?r = Inr q"
    "\<forall>(e, a) \<in> set es. map_option ch_revents (chans q a) = Some e"
    "\<forall>b. b \<notin> snd ` set es \<longrightarrow> chans q b = chans ?r b" "vecEvents_size q = vecEvents_size ?r"
    "m_mapFdToChannel q = m_mapFdToChannel ?r" "epoll_set q = epoll_set ?r" by blast
  have "map_option ch_revents (chans q a) = Some e" using q(3) na(1) by (simp add: put_channel_def)
  then show ?case using st q by (intro exI [of _ q]) (auto simp: x put_channel_def)
qed

text \<open>
  \<open>EpollPoller::poll\<close> hands over exactly the channels the kernel reports, in its order, each
  with the reported events stored in it, doubles the event buffer exactly when it was full, and
  never fails an assertion on channels the kernel was given.
\<close>

theorem poll_reports:
  assumes "wf_poller p" and "\<forall>(e, a) \<in> set evs. \<exists>fd x. epoll_set p fd = Some (x, a)"
    and "length evs \<le> vecEvents_size p" and "distinct (map snd evs)"
  shows "\<exists>q. poll (Some evs) p = Inr (map snd evs, q)
     \<and> (\<forall>(e, a) \<in> set evs. map_option ch_revents (chans q a) = Some e)
     \<and> vecEvents_size q = (if evs \<noteq> [] \<and> length evs = vecEvents_size p then 2 else 1) * vecEvents_size p
     \<and> m_mapFdToChannel q = m_mapFdToChannel p \<and> epoll_set q = epoll_set p"
proof -
  have reg: "\<exists>c. chans p a = Some c \<and> m_mapFdToChannel p (ch_fd c) = Some a" if "(e, a) \<in> set evs" for e a
  proof -
    from that assms(2) obtain fd x where "epoll_set p fd = Some (x, a)" by fastforce
    from wf_poller_epoll [OF assms(1) this] wf_poller_added(1) [OF assms(1)] show ?thesis by metis
  qed
  then have "\<forall>(e, a) \<in> set evs. \<exists>c. chans p a = Some c \<and> m_mapFdToChannel p (ch_fd c) = Some a"
    by blast
  from report_events [OF this assms(4)] obtain q where q: "foldR report_event evs p = Inr q"
    "\<forall>(e, a) \<in> set evs. map_option ch_revents (chans q a) = Some e"
    "vecEvents_size q = vecEvents_size p" "m_mapFdToChannel q = m_mapFdToChannel p"
    "epoll_set q = epoll_set p" by blast
  then show ?thesis
    using assms(3) by (cases evs) (auto simp: poll_def fillActiveList_def)
qed

theorem poll_reports_witness:
  "wf_poller watched_poller \<and> (\<exists>q. poll (Some [(1, 1)]) watched_poller = Inr ([1], q)
     \<and> map_option ch_revents (chans q 1) = Some 1)"
proof -
  have "\<forall>(e :: events, a) \<in> set [(1, 1)]. \<exists>fd x. epoll_set watched_poller fd = Some (x, a)"
    by (auto simp: watched_poller_def intro: exI [of _ 5])
  from poll_reports [OF watched_poller_wf(1) this] watched_poller_wf(1) show ?thesis
    by (auto simp: watched_poller_def)
qed

end
