(* ===== verification/TcpConnections.thy ===== *)
theory TcpConnections
  imports Buffers Channels
begin

text \<open>
  \<open>src/src/net/TcpConnection.h\<close> and \<open>TcpConnection.cc\<close>: one connection, its state machine, its
  two buffers and its channel in the loop's poller. The answers of \<open>read\<close> and \<open>write\<close> are
  arguments. What the connection queues on the loop and which callbacks it runs are recorded in
  order (\<open>tc_tasks\<close>, \<open>tc_calls\<close>); \<open>tc_wire\<close> is what the kernel accepted for sending, and
  \<open>tc_shutWr\<close> says whether the sending side was shut down. A client's reaction to a callback is
  a later operation. The operations named \<open>InLoop\<close> and the handlers run on the loop's thread,
  which their \<open>assertInLoopThread\<close> checks; bytes given to \<open>send\<close> from another thread are kept
  by the caller until the loop has run the task.
\<close>

section \<open>State\<close>

datatype ConnectionStat = KCONNECT | KCONNECTING | KDISCONNECTED | KDISCONNECTING

datatype conn_task =
    Task_send "byte list" nat
  | Task_sendFinish
  | Task_highWater nat
  | Task_shutdown
  | Task_forceClose
  | Task_delayed_forceClose int
  | Task_startRead
  | Task_stopRead

datatype conn_call = Call_connection | Call_message | Call_close

record connection =
  m_stat :: ConnectionStat
  m_reading :: bool
  tc_channel :: nat
  tc_poller :: poller
  m_connectionCb :: bool
  m_sendFinishCb :: bool
  m_closeCb :: bool
  m_msgCb :: bool
  m_highWaterCb :: bool
  m_highWater :: nat
  m_inputBuffer :: buffer
  m_outputBuffer :: buffer
  tc_tasks :: "conn_task list"
  tc_calls :: "conn_call list"
  tc_wire :: "byte list"
  tc_shutWr :: bool

text \<open>The setters of the callbacks; \<open>on\<close> says whether the function given is not empty.\<close>

definition conn_setConnectionCb :: "bool \<Rightarrow> connection \<Rightarrow> connection" where
  "conn_setConnectionCb on c = c\<lparr>m_connectionCb := on\<rparr>"

definition conn_setMessageCb :: "bool \<Rightarrow> connection \<Rightarrow> connection" where
  "conn_setMessageCb on c = c\<lparr>m_msgCb := on\<rparr>"

definition conn_setWriteFinishCb :: "bool \<Rightarrow> connection \<Rightarrow> connection" where
  "conn_setWriteFinishCb on c = c\<lparr>m_sendFinishCb := on\<rparr>"

definition conn_setHighWaterMarkCb :: "bool \<Rightarrow> connection \<Rightarrow> connection" where
  "conn_setHighWaterMarkCb on c = c\<lparr>m_highWaterCb := on\<rparr>"

definition conn_setCloseCb :: "bool \<Rightarrow> connection \<Rightarrow> connection" where
  "conn_setCloseCb on c = c\<lparr>m_closeCb := on\<rparr>"

lemmas conn_setters = conn_setConnectionCb_def conn_setMessageCb_def conn_setWriteFinishCb_def
  conn_setHighWaterMarkCb_def conn_setCloseCb_def

text \<open>
  The constructor: \<open>a\<close> is where the channel lives and \<open>reading\<close> the value of the member
  \<open>m_reading\<close>, which nothing initialises. The callbacks of the channel are numbered 0 to 3.
\<close>

definition new_connection :: "bool \<Rightarrow> nat \<Rightarrow> int \<Rightarrow> poller \<Rightarrow> connection res" where
  "new_connection reading a sockfd p =
     bindR (newBuffer kInitialSize) (\<lambda>inb.
     bindR (newBuffer kInitialSize) (\<lambda>outb.
       let c = setErrCb 3 (setCloseCb 2 (setWriteCb 1 (setReadCb 0 (new_channel sockfd))))
       in Inr \<lparr>m_stat = KCONNECTING, m_reading = reading, tc_channel = a,
            tc_poller = put_channel a c p, m_connectionCb = False, m_sendFinishCb = False,
            m_closeCb = False, m_msgCb = False, m_highWaterCb = False,
            m_highWater = 64 * 1024 * 1024, m_inputBuffer = inb, m_outputBuffer = outb,
            tc_tasks = [], tc_calls = [], tc_wire = [], tc_shutWr = False\<rparr>))"

definition setState :: "ConnectionStat \<Rightarrow> connection \<Rightarrow> connection" where
  "setState st s = s\<lparr>m_stat := st\<rparr>"

definition connected :: "connection \<Rightarrow> bool" where
  "connected s \<longleftrightarrow> m_stat s = KCONNECT"

definition isDisConnected :: "connection \<Rightarrow> bool" where
  "isDisConnected s \<longleftrightarrow> m_stat s = KDISCONNECTED"

fun stateToString :: "ConnectionStat \<Rightarrow> string" where
  "stateToString KDISCONNECTED = ''kDisconnected''"
| "stateToString KCONNECTING = ''kConnecting''"
| "stateToString KCONNECT = ''kConnected''"
| "stateToString KDISCONNECTING = ''kDisconnecting''"

definition add_task :: "conn_task \<Rightarrow> connection \<Rightarrow> connection" where
  "add_task t s = s\<lparr>tc_tasks := tc_tasks s @ [t]\<rparr>"

text \<open>Calling a null \<open>std::function\<close> throws.\<close>

definition call_cb :: "bool \<Rightarrow> conn_call \<Rightarrow> connection \<Rightarrow> connection res" where
  "call_cb isset c s = (if isset then Inr (s\<lparr>tc_calls := tc_calls s @ [c]\<rparr>) else Inl Bad_function_call)"

definition on_channel :: "(nat \<Rightarrow> poller \<Rightarrow> poller res) \<Rightarrow> connection \<Rightarrow> connection res" where
  "on_channel f s = bindR (f (tc_channel s) (tc_poller s)) (\<lambda>p. Inr (s\<lparr>tc_poller := p\<rparr>))"

definition the_channel :: "connection \<Rightarrow> channel res" where
  "the_channel s = get_channel (tc_channel s) (tc_poller s)"

section \<open>Operations on the loop's thread\<close>

text \<open>
  \<open>sockets::write\<close> returns a \<open>ssize_t\<close>, which the code stores in a \<open>size_t\<close>: an error, -1,
  becomes the largest value.
\<close>

datatype write_result = Wr_ok nat | Wr_error int

fun wr_size :: "write_result \<Rightarrow> nat" where
  "wr_size (Wr_ok n) = n"
| "wr_size (Wr_error e) = 2 ^ 64 - 1"

fun wr_bytes :: "write_result \<Rightarrow> byte list \<Rightarrow> byte list" where
  "wr_bytes (Wr_ok n) bs = take n bs"
| "wr_bytes (Wr_error e) bs = []"

definition shutdownInLoop :: "connection \<Rightarrow> connection res" where
  "shutdownInLoop s =
     bindR (the_channel s) (\<lambda>c. if isWriting c then Inr (s\<lparr>tc_shutWr := True\<rparr>) else Inr s)"

definition try_write :: "write_result \<Rightarrow> byte list \<Rightarrow> nat \<Rightarrow> connection \<Rightarrow> nat \<times> nat \<times> connection" where
  "try_write w message len s =
     (let nwroted = wr_size w;
          s = s\<lparr>tc_wire := tc_wire s @ wr_bytes w (take len message)\<rparr>;
          remianing = sz_sub len nwroted
      in (nwroted, remianing,
          if remianing = 0 \<and> m_sendFinishCb s then add_task Task_sendFinish s else s))"

text \<open>The bytes the kernel did not take, from \<open>rest\<close> on, wait in the output buffer.\<close>

definition queue_rest :: "channel \<Rightarrow> byte list \<Rightarrow> nat \<Rightarrow> connection \<Rightarrow> connection res" where
  "queue_rest c rest remianing s =
     (let oldLen = readableBytes (m_outputBuffer s);
          s = (if sz_add oldLen remianing \<ge> m_highWater s \<and> oldLen < m_highWater s \<and> m_highWaterCb s
               then add_task (Task_highWater (sz_add oldLen remianing)) s else s)
      in bindR (append_mem rest remianing (m_outputBuffer s)) (\<lambda>b.
           let s = s\<lparr>m_outputBuffer := b\<rparr>
           in if \<not> isWriting c then on_channel enableWrite s else Inr s))"

definition sendInLoop :: "write_result \<Rightarrow> byte list \<Rightarrow> nat \<Rightarrow> connection \<Rightarrow> connection res" where
  "sendInLoop w message len s =
     (if m_stat s = KDISCONNECTED then Inr s
      else
        bindR (the_channel s) (\<lambda>c.
        let (nwroted, remianing, s) =
              (if \<not> isWriting c \<and> readableBytes (m_outputBuffer s) = 0 then try_write w message len s
               else (0, len, s))
        in assertR (remianing \<le> len)
            (if remianing > 0 then queue_rest c (drop nwroted message) remianing s else Inr s)))"

definition sendInLoop_piece :: "write_result \<Rightarrow> piece \<Rightarrow> connection \<Rightarrow> connection res" where
  "sendInLoop_piece w message s =
     sendInLoop w (piece_mem message) (i32_to_size (piece_len message)) s"

definition handleClose :: "connection \<Rightarrow> connection res" where
  "handleClose s =
     assertR (m_stat s = KCONNECT \<or> m_stat s = KDISCONNECTING)
      (bindR (call_cb (m_connectionCb s) Call_connection (setState KDISCONNECTED s)) (\<lambda>s.
         call_cb (m_closeCb s) Call_close s))"

text \<open>\<open>handleError\<close> reads the socket's pending error and logs it.\<close>

definition handleError :: "connection \<Rightarrow> connection res" where
  "handleError s = Inr s"

definition conn_handleRead :: "readv_result \<Rightarrow> connection \<Rightarrow> connection res" where
  "conn_handleRead rv s =
     bindR (readFd rv (m_inputBuffer s)) (\<lambda>(r, savedErrno, b).
       let s = s\<lparr>m_inputBuffer := b\<rparr>;
           n = nat (r mod 2 ^ 64)
       in if n > 0 then call_cb (m_msgCb s) Call_message s
          else if n = 0 then handleClose s
          else handleError s)"

definition handleWrite :: "write_result \<Rightarrow> connection \<Rightarrow> connection res" where
  "handleWrite w s =
     bindR (the_channel s) (\<lambda>c.
       if isWriting c then
         let n = wr_size w;
             s = s\<lparr>tc_wire := tc_wire s @ wr_bytes w (contents (m_outputBuffer s))\<rparr>
         in if n > 0 then
              bindR (retrieve n (m_outputBuffer s)) (\<lambda>b.
                let s = s\<lparr>m_outputBuffer := b\<rparr>
                in if readableBytes b = 0 then
                     bindR (on_channel disableWrite s) (\<lambda>s.
                       let s = (if m_sendFinishCb s then add_task Task_sendFinish s else s)
                       in if m_stat s = KDISCONNECTING then shutdownInLoop s else Inr s)
                   else Inr s)
            else Inr s
       else Inr s)"

definition forceCloseInLoop :: "connection \<Rightarrow> connection res" where
  "forceCloseInLoop s =
     (if m_stat s = KCONNECT \<or> m_stat s = KDISCONNECTING then handleClose s else Inr s)"

definition startReadInLoop :: "connection \<Rightarrow> connection res" where
  "startReadInLoop s =
     bindR (the_channel s) (\<lambda>c.
       if \<not> m_reading s \<or> \<not> isReading c
       then bindR (on_channel enableRead s) (\<lambda>s. Inr (s\<lparr>m_reading := True\<rparr>)) else Inr s)"

definition stopReadInLoop :: "connection \<Rightarrow> connection res" where
  "stopReadInLoop s =
     bindR (the_channel s) (\<lambda>c.
       if m_reading s \<or> isReading c
       then bindR (on_channel disableRead s) (\<lambda>s. Inr (s\<lparr>m_reading := False\<rparr>)) else Inr s)"

definition tie_channel :: "nat \<Rightarrow> nat \<Rightarrow> poller \<Rightarrow> poller res" where
  "tie_channel obj a p = bindR (get_channel a p) (\<lambda>c. Inr (put_channel a (channel_tie obj c) p))"

definition connectionEstablished :: "nat \<Rightarrow> connection \<Rightarrow> connection res" where
  "connectionEstablished this s =
     assertR (m_stat s = KCONNECTING)
      (bindR (on_channel (tie_channel this) (setState KCONNECT s)) (\<lambda>s.
       bindR (on_channel enableRead s) (\<lambda>s. call_cb (m_connectionCb s) Call_connection s)))"

definition connectionDestory :: "connection \<Rightarrow> connection res" where
  "connectionDestory s =
     bindR (if m_stat s = KCONNECT then
              bindR (on_channel disableAll (setState KDISCONNECTED s)) (\<lambda>s.
                call_cb (m_connectionCb s) Call_connection s)
            else Inr s)
       (on_channel channel_remove)"

text \<open>The destructor's assertion.\<close>

definition connection_dtor :: "connection \<Rightarrow> unit res" where
  "connection_dtor s = assertR (m_stat s = KDISCONNECTED) (Inr ())"

section \<open>Operations of any thread\<close>

definition send_piece :: "bool \<Rightarrow> write_result \<Rightarrow> piece \<Rightarrow> connection \<Rightarrow> connection res" where
  "send_piece inLoop w str s =
     (if m_stat s = KCONNECT then
        if inLoop then sendInLoop_piece w str s
        else Inr (add_task (Task_send (piece_mem str) (i32_to_size (piece_len str))) s)
      else Inr s)"

definition send_mem :: "bool \<Rightarrow> write_result \<Rightarrow> byte list \<Rightarrow> int \<Rightarrow> connection \<Rightarrow> connection res" where
  "send_mem inLoop w message len s = send_piece inLoop w \<lparr>piece_mem = message, piece_len = len\<rparr> s"

text \<open>
  \<open>send(Buffer*)\<close> also empties the caller's buffer. From another thread the bytes travel as a
  \<open>std::string\<close>, whose \<open>StringPiece\<close> has an \<open>int\<close> length.
\<close>

definition send_buffer ::
  "bool \<Rightarrow> write_result \<Rightarrow> buffer \<Rightarrow> connection \<Rightarrow> (buffer \<times> connection) res" where
  "send_buffer inLoop w message s =
     (if m_stat s = KCONNECT then
        if inLoop then
          bindR (sendInLoop_piece w (toStringPiece message) s) (\<lambda>s. Inr (retrieveAll message, s))
        else
          bindR (retrieveAllAsString message) (\<lambda>(str, message).
            Inr (message, add_task (Task_send str (i32_to_size (to_i32 (int (length str))))) s))
      else Inr (message, s))"

definition shutDown :: "bool \<Rightarrow> connection \<Rightarrow> connection res" where
  "shutDown inLoop s =
     (if m_stat s = KCONNECT then
        let s = setState KDISCONNECTING s
        in if inLoop then shutdownInLoop s else Inr (add_task Task_shutdown s)
      else Inr s)"

definition forceClose :: "connection \<Rightarrow> connection" where
  "forceClose s =
     (if m_stat s = KCONNECT \<or> m_stat s = KDISCONNECTING
      then add_task Task_forceClose (setState KDISCONNECTING s) else s)"

definition forceCloseWithDelay :: "int \<Rightarrow> connection \<Rightarrow> connection" where
  "forceCloseWithDelay delay s =
     (if m_stat s = KCONNECT \<or> m_stat s = KDISCONNECTING
      then add_task (Task_delayed_forceClose delay) (setState KDISCONNECTING s) else s)"

definition startRead :: "bool \<Rightarrow> connection \<Rightarrow> connection res" where
  "startRead inLoop s = (if inLoop then startReadInLoop s else Inr (add_task Task_startRead s))"

definition stopRead :: "bool \<Rightarrow> connection \<Rightarrow> connection res" where
  "stopRead inLoop s = (if inLoop then stopReadInLoop s else Inr (add_task Task_stopRead s))"

section \<open>The invariant\<close>

definition writing :: "connection \<Rightarrow> bool" where
  "writing s \<longleftrightarrow> bit (asked_events (tc_poller s) (tc_channel s)) 2"

text \<open>
  A connection's channel is one the poller may use, and it asks for write events exactly while
  the output buffer holds bytes.
\<close>

definition wf_conn :: "connection \<Rightarrow> bool" where
  "wf_conn s \<longleftrightarrow> wf_poller (tc_poller s) \<and> usable (tc_channel s) (tc_poller s)
     \<and> wf_buffer (m_outputBuffer s) \<and> (writing s \<longleftrightarrow> contents (m_outputBuffer s) \<noteq> [])"

lemma mask_bit: "(x AND 4 \<noteq> 0) = bit x 2" for x :: events
  using and_exp_eq_0_iff_not_bit [of x 2] by simp

lemma the_channel_ok:
  assumes "usable (tc_channel s) (tc_poller s)"
  obtains c where "the_channel s = Inr c" "isWriting c \<longleftrightarrow> writing s" "ch_events c = asked_events (tc_poller s) (tc_channel s)"
proof -
  from assms obtain c where c: "chans (tc_poller s) (tc_channel s) = Some c"
    by (auto simp: usable_def split: option.splits)
  have "isWriting c \<longleftrightarrow> bit (ch_events c) 2"
    unfolding isWriting_def read_mask by (rule mask_bit)
  moreover have "asked_events (tc_poller s) (tc_channel s) = ch_events c" "the_channel s = Inr c"
    using c by (simp_all add: asked_events_def the_channel_def get_channel_def)
  ultimately show ?thesis using that [of c] unfolding writing_def by metis
qed

lemma on_channel_interest:
  assumes "wf_poller (tc_poller s)" and "usable (tc_channel s) (tc_poller s)"
    and f: "\<And>a p. f a p = run_interest (a, op') p"
  obtains p where "on_channel f s = Inr (s\<lparr>tc_poller := p\<rparr>)" "wf_poller p" "usable (tc_channel s) p"
    "asked_events p (tc_channel s) = apply_op op' (asked_events (tc_poller s) (tc_channel s))"
proof -
  from ep.change_total [OF assms(1), of "(tc_channel s, op')"] assms(2) obtain p where
    "run_interest (tc_channel s, op') (tc_poller s) = Inr p" "wf_poller p" "usable (tc_channel s) p"
    "asked_events p (tc_channel s) = apply_op op' (asked_events (tc_poller s) (tc_channel s))" by auto
  then show ?thesis using that by (simp add: on_channel_def f)
qed

lemma enableWrite_ok:
  assumes "wf_poller (tc_poller s)" and "usable (tc_channel s) (tc_poller s)"
  obtains p where "on_channel enableWrite s = Inr (s\<lparr>tc_poller := p\<rparr>)" "wf_poller p" "usable (tc_channel s) p"
    "bit (asked_events p (tc_channel s)) 2"
  by (rule on_channel_interest [OF assms, of enableWrite Enable_write])
    (auto simp: bit_or_iff bit_numeral_rec)

lemma disableWrite_ok:
  assumes "wf_poller (tc_poller s)" and "usable (tc_channel s) (tc_poller s)"
  obtains p where "on_channel disableWrite s = Inr (s\<lparr>tc_poller := p\<rparr>)" "wf_poller p" "usable (tc_channel s) p"
    "\<not> bit (asked_events p (tc_channel s)) 2"
  by (rule on_channel_interest [OF assms, of disableWrite Disable_write])
    (auto simp: bit_and_iff bit_not_iff bit_numeral_rec)

section \<open>Sending\<close>

text \<open>\<open>high_task\<close> is the high-water task an append queues.\<close>

definition high_task :: "connection \<Rightarrow> nat \<Rightarrow> conn_task list" where
  "high_task s n =
     (let old = length (contents (m_outputBuffer s))
      in if old + n \<ge> m_highWater s \<and> old < m_highWater s \<and> m_highWaterCb s
         then [Task_highWater (old + n)] else [])"

lemma queue_rest_ok:
  assumes w: "wf_conn s" and c: "isWriting c \<longleftrightarrow> writing s"
    and n: "rest \<noteq> []" and room: "writerIndex (m_outputBuffer s) + length rest \<le> max_size"
    and s': "s' = s\<lparr>tc_wire := x, tc_tasks := y\<rparr>"
  obtains b p where
    "queue_rest c rest (length rest) s' = Inr (s\<lparr>tc_wire := x, tc_tasks := y @ high_task s (length rest),
       m_outputBuffer := b, tc_poller := p\<rparr>)"
    "wf_conn (s\<lparr>tc_wire := x, tc_tasks := y @ high_task s (length rest), m_outputBuffer := b, tc_poller := p\<rparr>)"
    "contents b = contents (m_outputBuffer s) @ rest"
    "writerIndex b \<le> writerIndex (m_outputBuffer s) + length rest"
proof -
  let ?b = "m_outputBuffer s"
  have wf: "wf_poller (tc_poller s)" "usable (tc_channel s) (tc_poller s)" "wf_buffer ?b"
    "writing s \<longleftrightarrow> contents ?b \<noteq> []" using w by (simp_all add: wf_conn_def)
  from append_mem_ok [OF wf(3) room] obtain b where b: "append_mem rest (length rest) ?b = Inr b"
    "wf_buffer b" "contents b = contents ?b @ rest"
    "writerIndex b \<le> writerIndex ?b + length rest" by blast
  have old: "readableBytes ?b = length (contents ?b)" by (simp add: length_contents [OF wf(3)])
  have "length (contents ?b) \<le> writerIndex ?b" by (simp add: contents_def)
  then have sz: "sz_add (length (contents ?b)) (length rest) = length (contents ?b) + length rest"
    using room by (intro sz_add_small) (simp add: max_size_def)
  let ?s = "s\<lparr>tc_wire := x, tc_tasks := y @ high_task s (length rest), m_outputBuffer := b\<rparr>"
  have ev: "queue_rest c rest (length rest) s' = (if \<not> writing s then on_channel enableWrite ?s else Inr ?s)"
    using b(1) c old sz
    by (simp add: queue_rest_def s' high_task_def add_task_def Let_def)
  show ?thesis
  proof (cases "writing s")
    case True
    have "wf_conn ?s" using wf b(2,3) True by (simp add: wf_conn_def writing_def)
    with True b show ?thesis by (intro that [where b = b and p = "tc_poller s"]) (simp_all add: ev)
  next
    case False
    from enableWrite_ok [of ?s] wf obtain p where p: "on_channel enableWrite ?s = Inr (?s\<lparr>tc_poller := p\<rparr>)"
      "wf_poller p" "usable (tc_channel s) p" "bit (asked_events p (tc_channel s)) 2" by auto
    then have "wf_conn (?s\<lparr>tc_poller := p\<rparr>)" using b(2,3) n by (simp add: wf_conn_def writing_def)
    with False b p(1) show ?thesis by (intro that [where b = b and p = p]) (simp_all add: ev)
  qed
qed

definition finish_task :: "connection \<Rightarrow> conn_task list" where
  "finish_task s = (if m_sendFinishCb s then [Task_sendFinish] else [])"

text \<open>
  What a successful \<open>sendInLoop\<close> does: the kernel gets bytes only when nothing waits in the
  output buffer, the rest is appended to the buffer, and nothing is lost or reordered.
\<close>

lemma sendInLoop_ok:
  assumes w: "wf_conn s" and st: "m_stat s \<noteq> KDISCONNECTED" and n: "n \<le> length bs"
    and room: "writerIndex (m_outputBuffer s) + length bs \<le> max_size"
    and k: "k = (if writing s then 0 else n)"
  obtains b p where "sendInLoop (Wr_ok n) bs (length bs) s = Inr (s\<lparr>tc_wire := tc_wire s @ take k bs,
      tc_tasks := tc_tasks s @ (if \<not> writing s \<and> n = length bs then finish_task s else [])
       @ (if k < length bs then high_task s (length bs - k) else []),
      m_outputBuffer := b, tc_poller := p\<rparr>)"
    "wf_conn (s\<lparr>tc_wire := tc_wire s @ take k bs,
      tc_tasks := tc_tasks s @ (if \<not> writing s \<and> n = length bs then finish_task s else [])
       @ (if k < length bs then high_task s (length bs - k) else []),
      m_outputBuffer := b, tc_poller := p\<rparr>)"
    "contents b = contents (m_outputBuffer s) @ drop k bs"
    "writerIndex b \<le> writerIndex (m_outputBuffer s) + length bs"
proof -
  have wf: "usable (tc_channel s) (tc_poller s)" "wf_buffer (m_outputBuffer s)"
    "writing s \<longleftrightarrow> contents (m_outputBuffer s) \<noteq> []" using w by (simp_all add: wf_conn_def)
  from the_channel_ok [OF wf(1)] obtain c where c: "the_channel s = Inr c" "isWriting c \<longleftrightarrow> writing s" by blast
  have old: "readableBytes (m_outputBuffer s) = 0 \<longleftrightarrow> \<not> writing s"
    using wf(3) length_contents [OF wf(2), symmetric] by simp
  let ?wire = "tc_wire s @ take k bs"
  let ?tasks = "tc_tasks s @ (if \<not> writing s \<and> n = length bs then finish_task s else [])"
  let ?s = "s\<lparr>tc_wire := ?wire, tc_tasks := ?tasks\<rparr>"
  have tw: "(if \<not> isWriting c \<and> readableBytes (m_outputBuffer s) = 0 then try_write (Wr_ok n) bs (length bs) s
      else (0, length bs, s)) = (k, length bs - k, ?s)"
    using n by (cases "writing s") (auto simp: k c old try_write_def Let_def finish_task_def add_task_def)
  have ev: "sendInLoop (Wr_ok n) bs (length bs) s
      = (if k < length bs then queue_rest c (drop k bs) (length (drop k bs)) ?s else Inr ?s)"
    unfolding sendInLoop_def c(1) bindR_Inr tw using st n by simp
  show ?thesis
  proof (cases "k < length bs")
    case False
    moreover from this have "wf_conn ?s" "drop k bs = []" using w by (simp_all add: wf_conn_def writing_def)
    ultimately show ?thesis
      by (intro that [where b = "m_outputBuffer s" and p = "tc_poller s"]) (simp_all add: ev)
  next
    case True
    then have r: "drop k bs \<noteq> []" by simp
    have "writerIndex (m_outputBuffer s) + length (drop k bs) \<le> max_size" using room by simp
    from queue_rest_ok [OF w c(2) r this refl, where x = ?wire and y = ?tasks] obtain b p where t:
      "queue_rest c (drop k bs) (length (drop k bs)) ?s = Inr (s\<lparr>tc_wire := ?wire,
         tc_tasks := ?tasks @ high_task s (length (drop k bs)), m_outputBuffer := b, tc_poller := p\<rparr>)"
      "wf_conn (s\<lparr>tc_wire := ?wire, tc_tasks := ?tasks @ high_task s (length (drop k bs)),
         m_outputBuffer := b, tc_poller := p\<rparr>)"
      "contents b = contents (m_outputBuffer s) @ drop k bs"
      "writerIndex b \<le> writerIndex (m_outputBuffer s) + length (drop k bs)" .
    show ?thesis by (rule that [where b = b and p = p]) (use True t in \<open>simp_all add: ev\<close>)
  qed
qed

lemma shutdown_idle:
  assumes "usable (tc_channel s) (tc_poller s)"
  shows "shutdownInLoop s = Inr (s\<lparr>tc_shutWr := tc_shutWr s \<or> writing s\<rparr>)"
proof -
  from the_channel_ok [OF assms] obtain c where "the_channel s = Inr c" "isWriting c \<longleftrightarrow> writing s" by blast
  then show ?thesis by (simp add: shutdownInLoop_def)
qed

lemma handleWrite_ok:
  assumes w: "wf_conn s" and wr: "writing s" and n: "0 < n" "n \<le> length (contents (m_outputBuffer s))"
  obtains b p where "handleWrite (Wr_ok n) s = Inr (s\<lparr>tc_wire := tc_wire s @ take n (contents (m_outputBuffer s)),
      m_outputBuffer := b, tc_poller := p,
      tc_tasks := tc_tasks s @ (if n = length (contents (m_outputBuffer s)) then finish_task s else [])\<rparr>)"
    "wf_conn (s\<lparr>tc_wire := tc_wire s @ take n (contents (m_outputBuffer s)),
      m_outputBuffer := b, tc_poller := p,
      tc_tasks := tc_tasks s @ (if n = length (contents (m_outputBuffer s)) then finish_task s else [])\<rparr>)"
    "contents b = drop n (contents (m_outputBuffer s))"
    "writerIndex b \<le> max kCheapPrepend (writerIndex (m_outputBuffer s))"
proof -
  let ?b = "m_outputBuffer s"
  have wf: "wf_poller (tc_poller s)" "usable (tc_channel s) (tc_poller s)" "wf_buffer ?b"
    using w by (simp_all add: wf_conn_def)
  from the_channel_ok [OF wf(2)] obtain c where c: "the_channel s = Inr c" "isWriting c" using wr by blast
  have "n \<le> readableBytes ?b" using n(2) by (simp add: length_contents [OF wf(3)])
  from retrieve_ok [OF wf(3) this] obtain b where b: "retrieve n ?b = Inr b" "wf_buffer b"
    "contents b = drop n (contents ?b)" "writerIndex b \<le> max kCheapPrepend (writerIndex ?b)" by blast
  have len: "readableBytes b = length (contents ?b) - n"
    using b(3) by (simp add: length_contents [OF b(2), symmetric])
  let ?s = "s\<lparr>tc_wire := tc_wire s @ take n (contents ?b), m_outputBuffer := b\<rparr>"
  show ?thesis
  proof (cases "n = length (contents ?b)")
    case False
    then have "readableBytes b \<noteq> 0" using len n(2) by simp
    then have "handleWrite (Wr_ok n) s = Inr ?s" using b(1) n(1) c by (simp add: handleWrite_def Let_def)
    moreover have "wf_conn ?s"
      using wf b(2,3) wr False n(2) by (simp add: wf_conn_def writing_def)
    ultimately show ?thesis
      using False b(3,4) by (intro that [where b = b and p = "tc_poller s"]) simp_all
  next
    case True
    from disableWrite_ok [of ?s] wf obtain p where p: "on_channel disableWrite ?s = Inr (?s\<lparr>tc_poller := p\<rparr>)"
      "wf_poller p" "usable (tc_channel s) p" "\<not> bit (asked_events p (tc_channel s)) 2" by auto
    let ?t = "s\<lparr>tc_wire := tc_wire s @ take n (contents ?b), m_outputBuffer := b, tc_poller := p,
        tc_tasks := tc_tasks s @ finish_task s\<rparr>"
    have "usable (tc_channel ?t) (tc_poller ?t)" "\<not> writing ?t" using p by (simp_all add: writing_def)
    then have "shutdownInLoop ?t = Inr ?t" using shutdown_idle [of ?t] by simp
    moreover have "readableBytes b = 0" using len True by simp
    then have "handleWrite (Wr_ok n) s = (if m_stat s = KDISCONNECTING then shutdownInLoop ?t else Inr ?t)"
      using b(1) n(1) c p(1) by (simp add: handleWrite_def Let_def add_task_def finish_task_def)
    ultimately have "handleWrite (Wr_ok n) s = Inr ?t" by simp
    moreover have "wf_conn ?t" using p b(2,3) True by (simp add: wf_conn_def writing_def)
    ultimately show ?thesis
      using True b(3,4) by (intro that [where b = b and p = p]) simp_all
  qed
qed

lemma handleWrite_idle:
  assumes w: "wf_conn s" and "\<not> writing s \<or> n = 0"
  shows "handleWrite (Wr_ok n) s = Inr s"
proof -
  from w have "usable (tc_channel s) (tc_poller s)" by (simp add: wf_conn_def)
  from the_channel_ok [OF this] obtain c where "the_channel s = Inr c" "isWriting c \<longleftrightarrow> writing s" by blast
  with assms(2) show ?thesis by (auto simp: handleWrite_def)
qed

section \<open>A connection as a byte stream\<close>

text \<open>
  What the loop does to the sending side: the client sends bytes, or the kernel reports the
  socket writable. The kernel accepts up to \<open>k\<close> of the bytes it is offered.
\<close>

datatype conn_event = Ev_send "byte list" nat | Ev_writable nat

fun run_conn :: "conn_event \<Rightarrow> connection \<Rightarrow> connection res" where
  "run_conn (Ev_send bs k) s = sendInLoop (Wr_ok (min k (length bs))) bs (length bs) s"
| "run_conn (Ev_writable k) s =
     handleWrite (Wr_ok (min k (length (contents (m_outputBuffer s))))) s"

fun sent_by :: "conn_event \<Rightarrow> byte list" where
  "sent_by (Ev_send bs k) = bs"
| "sent_by (Ev_writable k) = []"

lemma run_conn_ok:
  assumes "wf_conn s" and "m_stat s \<noteq> KDISCONNECTED"
    and "max kCheapPrepend (writerIndex (m_outputBuffer s)) + length (sent_by e) \<le> max_size"
  shows "\<exists>t. run_conn e s = Inr t \<and> wf_conn t \<and> m_stat t = m_stat s \<and> tc_shutWr t = tc_shutWr s
    \<and> tc_wire t @ contents (m_outputBuffer t) = tc_wire s @ contents (m_outputBuffer s) @ sent_by e
    \<and> max kCheapPrepend (writerIndex (m_outputBuffer t))
        \<le> max kCheapPrepend (writerIndex (m_outputBuffer s)) + length (sent_by e)"
proof (cases e)
  case (Ev_send bs k)
  let ?n = "min k (length bs)" and ?k = "if writing s then 0 else min k (length bs)"
  have empty: "\<not> writing s \<Longrightarrow> contents (m_outputBuffer s) = []" using assms(1) by (simp add: wf_conn_def)
  have room: "writerIndex (m_outputBuffer s) + length bs \<le> max_size" using assms(3) Ev_send by simp
  let ?t = "\<lambda>b p. s\<lparr>tc_wire := tc_wire s @ take ?k bs,
      tc_tasks := tc_tasks s @ (if \<not> writing s \<and> ?n = length bs then finish_task s else [])
       @ (if ?k < length bs then high_task s (length bs - ?k) else []), m_outputBuffer := b, tc_poller := p\<rparr>"
  obtain b p where r: "sendInLoop (Wr_ok ?n) bs (length bs) s = Inr (?t b p)" "wf_conn (?t b p)"
    "contents b = contents (m_outputBuffer s) @ drop ?k bs"
    "writerIndex b \<le> writerIndex (m_outputBuffer s) + length bs"
    by (rule sendInLoop_ok [OF assms(1,2) min.cobounded2 room refl])
  obtain t where t: "sendInLoop (Wr_ok ?n) bs (length bs) s = Inr t" "wf_conn t" "t = ?t b p"
    "contents b = contents (m_outputBuffer s) @ drop ?k bs"
    "writerIndex b \<le> writerIndex (m_outputBuffer s) + length bs"
    using r by blast
  have "tc_wire t @ contents (m_outputBuffer t) = tc_wire s @ contents (m_outputBuffer s) @ bs"
    using t(4) empty by (cases "writing s") (simp_all add: t(3))
  moreover have "m_stat t = m_stat s" "tc_shutWr t = tc_shutWr s" "m_outputBuffer t = b" by (simp_all add: t(3))
  ultimately show ?thesis using t(1,2,5) by (auto simp: Ev_send)
next
  case (Ev_writable k)
  let ?c = "contents (m_outputBuffer s)"
  let ?n = "min k (length ?c)"
  show ?thesis
  proof (cases "writing s \<and> 0 < ?n")
    case True
    let ?t = "\<lambda>b p. s\<lparr>tc_wire := tc_wire s @ take ?n ?c, m_outputBuffer := b, tc_poller := p,
        tc_tasks := tc_tasks s @ (if ?n = length ?c then finish_task s else [])\<rparr>"
    obtain b p where r: "handleWrite (Wr_ok ?n) s = Inr (?t b p)" "wf_conn (?t b p)"
      "contents b = drop ?n ?c" "writerIndex b \<le> max kCheapPrepend (writerIndex (m_outputBuffer s))"
      by (rule handleWrite_ok [OF assms(1) _ _ min.cobounded2]) (use True in auto)
    obtain t where t: "handleWrite (Wr_ok ?n) s = Inr t" "wf_conn t" "t = ?t b p"
      "contents b = drop ?n ?c" "writerIndex b \<le> max kCheapPrepend (writerIndex (m_outputBuffer s))"
      using r by blast
    have "tc_wire t @ contents (m_outputBuffer t) = tc_wire s @ ?c"
      using t(4) by (simp add: t(3))
    moreover have "m_stat t = m_stat s" "tc_shutWr t = tc_shutWr s" "m_outputBuffer t = b" by (simp_all add: t(3))
    ultimately show ?thesis using t(1,2,5) by (auto simp: Ev_writable)
  next
    case False
    with handleWrite_idle [OF assms(1), of ?n] assms(1) show ?thesis by (auto simp: Ev_writable)
  qed
qed

section \<open>Properties\<close>

text \<open>
  C1. A connection sends a byte stream. Through any sequence of sends on the loop's thread and
  writable events, with the kernel accepting any part of what it is offered without an error,
  no assertion fails, and what the kernel accepted followed by the output buffer is what was
  there before followed by the bytes sent, in order; the channel asks for write events exactly
  while bytes wait.
\<close>

theorem connection_stream:
  assumes "wf_conn s" and "m_stat s \<noteq> KDISCONNECTED"
    and "max kCheapPrepend (writerIndex (m_outputBuffer s)) + length (concat (map sent_by es)) \<le> max_size"
  shows "\<exists>t. foldR run_conn es s = Inr t \<and> wf_conn t \<and> m_stat t = m_stat s
     \<and> tc_wire t @ contents (m_outputBuffer t)
         = tc_wire s @ contents (m_outputBuffer s) @ concat (map sent_by es)"
  using assms
proof (induction es arbitrary: s)
  case Nil
  then show ?case by simp
next
  case (Cons e es)
  have "max kCheapPrepend (writerIndex (m_outputBuffer s)) + length (sent_by e) \<le> max_size"
    using Cons.prems(3) by simp
  from run_conn_ok [OF Cons.prems(1,2) this] obtain u where u: "run_conn e s = Inr u" "wf_conn u"
    "m_stat u = m_stat s"
    "tc_wire u @ contents (m_outputBuffer u) = tc_wire s @ contents (m_outputBuffer s) @ sent_by e"
    "max kCheapPrepend (writerIndex (m_outputBuffer u))
       \<le> max kCheapPrepend (writerIndex (m_outputBuffer s)) + length (sent_by e)" by blast
  have "max kCheapPrepend (writerIndex (m_outputBuffer u)) + length (concat (map sent_by es)) \<le> max_size"
    using u(5) Cons.prems(3) unfolding list.map concat.simps length_append by linarith
  from Cons.IH [OF u(2) _ this] u Cons.prems(2) obtain t where t: "foldR run_conn es u = Inr t" "wf_conn t"
    "m_stat t = m_stat u" "tc_wire t @ contents (m_outputBuffer t)
       = tc_wire u @ contents (m_outputBuffer u) @ concat (map sent_by es)" by auto
  have "tc_wire t @ contents (m_outputBuffer t)
      = tc_wire s @ contents (m_outputBuffer s) @ concat (map sent_by (e # es))"
    using t(4) arg_cong [OF u(4), of "\<lambda>x. x @ concat (map sent_by es)"] by simp
  with t u(1,3) show ?case by auto
qed

definition idle_conn :: connection where
  "idle_conn = \<lparr>m_stat = KCONNECT, m_reading = True, tc_channel = 1, tc_poller = watched_poller,
     m_connectionCb = True, m_sendFinishCb = True, m_closeCb = True, m_msgCb = True,
     m_highWaterCb = True, m_highWater = 3, m_inputBuffer = retrieveAll example_buffer,
     m_outputBuffer = retrieveAll example_buffer, tc_tasks = [], tc_calls = [], tc_wire = [],
     tc_shutWr = False\<rparr>"

lemma idle_conn_wf:
  "wf_conn idle_conn" "\<not> writing idle_conn" "m_stat idle_conn = KCONNECT"
  "contents (m_outputBuffer idle_conn) = []" "writerIndex (m_outputBuffer idle_conn) = 8"
  "m_outputBuffer idle_conn = retrieveAll example_buffer" "tc_wire idle_conn = []" "tc_tasks idle_conn = []"
proof -
  note b = retrieveAll_ok [OF example_buffer_wf(1)]
  show wr: "\<not> writing idle_conn"
    by (simp add: writing_def idle_conn_def watched_poller_def asked_events_def new_channel_def
        bit_numeral_rec)
  show c: "contents (m_outputBuffer idle_conn) = []" using b by (simp add: idle_conn_def)
  have "wf_poller (tc_poller idle_conn)" "usable (tc_channel idle_conn) (tc_poller idle_conn)"
    "wf_buffer (m_outputBuffer idle_conn)"
    using watched_poller_wf b by (simp_all add: idle_conn_def)
  with wr c show "wf_conn idle_conn" by (simp add: wf_conn_def)
qed (simp_all add: idle_conn_def retrieveAll_def kCheapPrepend_def)

theorem connection_stream_witness:
  "wf_conn idle_conn \<and> (\<exists>t. foldR run_conn
       [Ev_send [1, 2, 3, 4] 2, Ev_send [5] 9, Ev_writable 1, Ev_writable 7] idle_conn = Inr t
     \<and> tc_wire t @ contents (m_outputBuffer t) = [1, 2, 3, 4, 5])"
  using idle_conn_wf connection_stream [of idle_conn
      "[Ev_send [1, 2, 3, 4] 2, Ev_send [5] 9, Ev_writable 1, Ev_writable 7]"]
  by (auto simp: kCheapPrepend_def max_size_def)

text \<open>
  What \<open>sendInLoop\<close> tells the client: the write-finished callback is queued exactly when the
  kernel took everything at once, and the high-water callback, with the new length, exactly when
  the append lifts the output buffer from below the mark to it or above.
\<close>

theorem send_notifies:
  assumes "wf_conn s" and "m_stat s \<noteq> KDISCONNECTED" and "n \<le> length bs"
    and "writerIndex (m_outputBuffer s) + length bs \<le> max_size"
  shows "\<exists>t. sendInLoop (Wr_ok n) bs (length bs) s = Inr t
     \<and> (let old = length (contents (m_outputBuffer s)); left = length bs - (if writing s then 0 else n)
        in tc_tasks t = tc_tasks s
             @ (if \<not> writing s \<and> n = length bs \<and> m_sendFinishCb s then [Task_sendFinish] else [])
             @ (if 0 < left \<and> old < m_highWater s \<and> m_highWater s \<le> old + left \<and> m_highWaterCb s
                then [Task_highWater (old + left)] else []))"
proof -
  obtain b p where t: "sendInLoop (Wr_ok n) bs (length bs) s = Inr (s\<lparr>tc_wire := tc_wire s @ take (if writing s then 0 else n) bs,
      tc_tasks := tc_tasks s @ (if \<not> writing s \<and> n = length bs then finish_task s else [])
       @ (if (if writing s then 0 else n) < length bs then high_task s (length bs - (if writing s then 0 else n)) else []),
      m_outputBuffer := b, tc_poller := p\<rparr>)"
    by (rule sendInLoop_ok [OF assms refl])
  show ?thesis unfolding t by (auto simp: Let_def finish_task_def high_task_def)
qed

theorem send_notifies_witness:
  "wf_conn idle_conn \<and> (\<exists>t. sendInLoop (Wr_ok 1) [1, 2, 3, 4] (length [1 :: byte, 2, 3, 4]) idle_conn = Inr t
     \<and> tc_tasks t = [Task_highWater 3])"
proof -
  have r: "writerIndex (m_outputBuffer idle_conn) + length [1 :: byte, 2, 3, 4] \<le> max_size"
    by (simp add: idle_conn_wf(5) max_size_def)
  have h: "m_highWater idle_conn = 3" "m_highWaterCb idle_conn" by (simp_all add: idle_conn_def)
  have "1 \<le> length [1 :: byte, 2, 3, 4]" "m_stat idle_conn \<noteq> KDISCONNECTED" by (simp_all add: idle_conn_wf)
  from send_notifies [OF idle_conn_wf(1) this(2,1) r] idle_conn_wf h show ?thesis
    by (simp add: Let_def numeral_3_eq_3)
qed

text \<open>
  C9. A failing \<open>write\<close> aborts the program: its -1 is stored in a \<open>size_t\<close>, so \<open>sendInLoop\<close> takes it
  for a count and its assertion \<open>remianing <= len\<close> fails, and \<open>handleWrite\<close> retrieves that many
  bytes and the assertion of \<open>retrieve\<close> fails, for every \<open>errno\<close>, \<open>EWOULDBLOCK\<close> included.
\<close>

theorem write_error_aborts:
  assumes "wf_conn s" and "m_stat s \<noteq> KDISCONNECTED" and "length bs < 2 ^ 63"
  shows "if writing s then handleWrite (Wr_error e) s = Inl Assert_failed
     else sendInLoop (Wr_error e) bs (length bs) s = Inl Assert_failed"
proof -
  have wf: "usable (tc_channel s) (tc_poller s)" "wf_buffer (m_outputBuffer s)"
    "writing s \<longleftrightarrow> contents (m_outputBuffer s) \<noteq> []" using assms(1) by (simp_all add: wf_conn_def)
  from the_channel_ok [OF wf(1)] obtain c where c: "the_channel s = Inr c" "isWriting c \<longleftrightarrow> writing s" by blast
  have "readableBytes (m_outputBuffer s) \<le> max_size"
    using wf_bufferD [OF wf(2)] by (simp add: wf_observers [OF wf(2)])
  then have "readableBytes (m_outputBuffer s) < 2 ^ 64 - 1" by (simp add: max_size_def)
  from retrieve_fails [OF this] have hw: "writing s \<Longrightarrow> handleWrite (Wr_error e) s = Inl Assert_failed"
    using c by (simp add: handleWrite_def Let_def)
  have "readableBytes (m_outputBuffer s) = 0" if "\<not> writing s"
    using that wf(3) length_contents [OF wf(2), symmetric] by simp
  moreover have "sz_sub (length bs) (2 ^ 64 - 1) = length bs + 1"
    using assms(3) by (simp add: sz_sub_def)
  ultimately have "\<not> writing s \<Longrightarrow> sendInLoop (Wr_error e) bs (length bs) s = Inl Assert_failed"
    using c assms(2) by (simp add: sendInLoop_def try_write_def Let_def)
  with hw show ?thesis by simp
qed

theorem write_error_aborts_witness:
  "wf_conn idle_conn
     \<and> sendInLoop (Wr_error 11) [1, 2] (length [1 :: byte, 2]) idle_conn = Inl Assert_failed"
  using idle_conn_wf write_error_aborts [of idle_conn "[1, 2]" 11] by simp

text \<open>
  C14. \<open>handleRead\<close>: bytes that arrive are appended to the input buffer and the message callback
  runs; end of file closes the connection, with the connection and close callbacks in this
  order; a read error also runs the message callback, with no new bytes, and never reaches
  \<open>handleError\<close> or \<open>handleClose\<close>, because -1 became a large \<open>size_t\<close>.
\<close>

theorem read_outcomes:
  assumes "wf_buffer (m_inputBuffer s)" and "length (bufvec (m_inputBuffer s)) + extrabuf_size \<le> max_size"
    and "length bytes \<le> readv_capacity (m_inputBuffer s)" and "bytes \<noteq> []"
    and "m_msgCb s" and "m_connectionCb s" and "m_closeCb s" and "m_stat s = KCONNECT \<or> m_stat s = KDISCONNECTING"
  shows "(\<exists>b. conn_handleRead (Rv_data bytes) s
             = Inr (s\<lparr>m_inputBuffer := b, tc_calls := tc_calls s @ [Call_message]\<rparr>)
           \<and> contents b = contents (m_inputBuffer s) @ bytes)
     \<and> (\<exists>b. conn_handleRead (Rv_data []) s
             = Inr (s\<lparr>m_inputBuffer := b, m_stat := KDISCONNECTED,
                    tc_calls := tc_calls s @ [Call_connection, Call_close]\<rparr>)
           \<and> contents b = contents (m_inputBuffer s))
     \<and> conn_handleRead (Rv_error e) s = Inr (s\<lparr>tc_calls := tc_calls s @ [Call_message]\<rparr>)"
proof (intro conjI)
  have cap: "readv_capacity (m_inputBuffer s) < 2 ^ 64"
    using assms(2) wf_bufferD [OF assms(1)]
    by (auto simp: readv_capacity_def Let_def wf_observers [OF assms(1)] max_size_def extrabuf_size_def)
  then have "nat (int (length bytes) mod 2 ^ 64) = length bytes" using assms(3) by simp
  with readFd_ok [OF assms(1,3,2)] assms(4,5)
  show "\<exists>b. conn_handleRead (Rv_data bytes) s
             = Inr (s\<lparr>m_inputBuffer := b, tc_calls := tc_calls s @ [Call_message]\<rparr>)
           \<and> contents b = contents (m_inputBuffer s) @ bytes"
    by (auto simp: conn_handleRead_def call_cb_def Let_def)
  from readFd_ok [OF assms(1) _ assms(2), of "[]"] assms(6-8)
  show "\<exists>b. conn_handleRead (Rv_data []) s
             = Inr (s\<lparr>m_inputBuffer := b, m_stat := KDISCONNECTED,
                    tc_calls := tc_calls s @ [Call_connection, Call_close]\<rparr>)
           \<and> contents b = contents (m_inputBuffer s)"
    by (auto simp: conn_handleRead_def call_cb_def handleClose_def setState_def Let_def)
  show "conn_handleRead (Rv_error e) s = Inr (s\<lparr>tc_calls := tc_calls s @ [Call_message]\<rparr>)"
    using assms(5) by (simp add: conn_handleRead_def readFd_def call_cb_def Let_def)
qed

theorem read_outcomes_witness:
  "conn_handleRead (Rv_error 104) idle_conn = Inr (idle_conn\<lparr>tc_calls := [Call_message]\<rparr>)
     \<and> (\<exists>b. conn_handleRead (Rv_data [65]) idle_conn
             = Inr (idle_conn\<lparr>m_inputBuffer := b, tc_calls := [Call_message]\<rparr>) \<and> contents b = [65])"
proof -
  have i: "m_inputBuffer idle_conn = retrieveAll example_buffer" "m_msgCb idle_conn" "m_connectionCb idle_conn"
    "m_closeCb idle_conn" "m_stat idle_conn = KCONNECT" "tc_calls idle_conn = []"
    by (simp_all add: idle_conn_def)
  have "wf_buffer (m_inputBuffer idle_conn)" "contents (m_inputBuffer idle_conn) = []"
    using retrieveAll_ok [OF example_buffer_wf(1)] i by simp_all
  moreover have "length (bufvec (m_inputBuffer idle_conn)) + extrabuf_size \<le> max_size"
    "length [65 :: byte] \<le> readv_capacity (m_inputBuffer idle_conn)"
    by (simp_all add: i retrieveAll_def example_buffer_def max_size_def extrabuf_size_def
        readv_capacity_def writableBytes_def kCheapPrepend_def)
  ultimately show ?thesis using read_outcomes [of idle_conn "[65]" 104] i by simp
qed

lemma run_conn_shutWr:
  assumes "wf_conn r" and "m_stat r \<noteq> KDISCONNECTED" and "foldR run_conn es r = Inr u"
    and "max kCheapPrepend (writerIndex (m_outputBuffer r)) + length (concat (map sent_by es)) \<le> max_size"
  shows "tc_shutWr u = tc_shutWr r"
  using assms
proof (induction es arbitrary: r)
  case Nil
  then show ?case by simp
next
  case (Cons e es)
  have "max kCheapPrepend (writerIndex (m_outputBuffer r)) + length (sent_by e) \<le> max_size"
    using Cons.prems(4) by simp
  from run_conn_ok [OF Cons.prems(1,2) this] obtain v where v: "run_conn e r = Inr v" "wf_conn v"
    "m_stat v = m_stat r" "tc_shutWr v = tc_shutWr r"
    "max kCheapPrepend (writerIndex (m_outputBuffer v))
       \<le> max kCheapPrepend (writerIndex (m_outputBuffer r)) + length (sent_by e)" by blast
  have "max kCheapPrepend (writerIndex (m_outputBuffer v)) + length (concat (map sent_by es)) \<le> max_size"
    using v(5) Cons.prems(4) unfolding list.map concat.simps length_append by linarith
  with Cons.IH [OF v(2)] v Cons.prems(2,3) show ?case by simp
qed

text \<open>
  C13. \<open>shutDown\<close> is inverted. On a connected channel with nothing left to send it changes the
  state to disconnecting and never shuts the sending side down, not even when the output drains
  later; with bytes still waiting it shuts the sending side at once, before they are sent.
\<close>

theorem shutdown_inverted:
  assumes "wf_conn s" and "m_stat s = KCONNECT"
  shows "\<exists>t. shutDown True s = Inr t \<and> m_stat t = KDISCONNECTING
     \<and> tc_shutWr t = (tc_shutWr s \<or> contents (m_outputBuffer s) \<noteq> [])
     \<and> (\<forall>es u. max kCheapPrepend (writerIndex (m_outputBuffer s)) + length (concat (map sent_by es)) \<le> max_size
          \<longrightarrow> foldR run_conn es t = Inr u \<longrightarrow> tc_shutWr u = tc_shutWr t)"
proof -
  let ?t = "s\<lparr>m_stat := KDISCONNECTING, tc_shutWr := tc_shutWr s \<or> writing s\<rparr>"
  have wt: "wf_conn ?t" using assms(1) by (simp add: wf_conn_def writing_def)
  have "usable (tc_channel s) (tc_poller s)" using assms(1) by (simp add: wf_conn_def)
  then have t: "shutDown True s = Inr ?t"
    using shutdown_idle [of "setState KDISCONNECTING s"] assms(2)
    by (simp add: shutDown_def setState_def writing_def)
  have wr: "writing s \<longleftrightarrow> contents (m_outputBuffer s) \<noteq> []" using assms(1) by (simp add: wf_conn_def)
  have "tc_shutWr u = tc_shutWr ?t"
    if "max kCheapPrepend (writerIndex (m_outputBuffer s)) + length (concat (map sent_by es)) \<le> max_size"
      "foldR run_conn es ?t = Inr u" for es u
    by (rule run_conn_shutWr [OF wt _ that(2)]) (use that(1) in simp_all)
  then show ?thesis
    using t wr by (intro exI [of _ ?t] conjI allI impI) simp_all
qed

theorem shutdown_inverted_witness:
  "wf_conn idle_conn \<and> (\<exists>t. shutDown True idle_conn = Inr t \<and> m_stat t = KDISCONNECTING \<and> \<not> tc_shutWr t)"
  using idle_conn_wf shutdown_inverted [OF idle_conn_wf(1,3)] by (auto simp: idle_conn_def)

text \<open>
  C11. An established connection is never taken down cleanly: \<open>connectionDestory\<close> on a connected
  one fails the assertion of \<open>removeChannel\<close> (its \<open>disableAll\<close> has marked the channel deleted),
  and after \<open>handleClose\<close>, which disables nothing, it fails \<open>assert(isNoneEvent())\<close> of \<open>remove\<close>.
\<close>

theorem teardown_aborts:
  assumes "wf_poller (tc_poller s)" and "usable (tc_channel s) (tc_poller s)"
    and "chans (tc_poller s) (tc_channel s) = Some c" and "ch_idxs c = KADDED" and "ch_events c \<noteq> 0"
    and "m_connectionCb s" and "m_closeCb s"
  shows "(m_stat s = KCONNECT \<longrightarrow> connectionDestory s = Inl Assert_failed)
     \<and> bindR (handleClose s) connectionDestory = Inl Assert_failed"
proof -
  let ?a = "tc_channel s" and ?p = "tc_poller s"
  obtain q where q: "disableAll ?a ?p = Inr q"
    using set_events_ex [OF assms(1,2), of "\<lambda>_. KNoneEvent"] by (auto simp: disableAll_def)
  with disable_then_remove [OF assms(1-3)] assms(4) have r: "channel_remove ?a q = Inl Assert_failed"
    by simp
  have "connectionDestory s = Inl Assert_failed" if "m_stat s = KCONNECT"
    using that assms(6) q r by (simp add: connectionDestory_def on_channel_def setState_def call_cb_def)
  moreover have "bindR (handleClose s) connectionDestory = Inl Assert_failed"
    using assms(3,5-7)
    by (simp add: handleClose_def call_cb_def setState_def connectionDestory_def on_channel_def
        channel_remove_def get_channel_def isNoneEvent_def KNoneEvent_def assertR_def)
  ultimately show ?thesis by simp
qed

theorem teardown_aborts_witness:
  "wf_conn idle_conn \<and> connectionDestory idle_conn = Inl Assert_failed
     \<and> bindR (handleClose idle_conn) connectionDestory = Inl Assert_failed"
proof -
  have "wf_poller (tc_poller idle_conn)" "usable (tc_channel idle_conn) (tc_poller idle_conn)"
    using idle_conn_wf(1) by (simp_all add: wf_conn_def)
  moreover have "chans (tc_poller idle_conn) (tc_channel idle_conn)
      = Some ((new_channel 5)\<lparr>ch_events := 3, ch_idxs := KADDED\<rparr>)"
    by (simp add: idle_conn_def watched_poller_def)
  ultimately show ?thesis
    using teardown_aborts [of idle_conn] idle_conn_wf(1,3) by (simp add: idle_conn_def)
qed

end
