(* ===== verification/Doubles.thy ===== *)
theory Doubles
  imports Complex_Main "HOL-Library.Log_Nat"
begin

text \<open>
  The arithmetic of \<open>double\<close>: a value is the rational it stands for, and every operation rounds the exact
  result to 53 significant bits, ties to even. The range of the exponent is left out: the values the
  program computes with are zero or between \<open>2 ^ -20\<close> and \<open>2 ^ 83\<close> in size.
\<close>

section \<open>Double precision\<close>

text \<open>Nearest integer, ties to even.\<close>

definition rne :: "rat \<Rightarrow> int" where
  "rne x = (let f = \<lfloor>x\<rfloor>; d = x - of_int f in if d < 1 / 2 \<or> d = 1 / 2 \<and> even f then f else f + 1)"

text \<open>The exponent of the leading bit of a positive rational.\<close>

definition lg2 :: "rat \<Rightarrow> int" where
  "lg2 x = (let (a, b) = quotient_of x; k = int (floorlog 2 (nat a)) - int (floorlog 2 (nat b))
            in if 2 powi k \<le> x then k else k - 1)"

definition fl :: "rat \<Rightarrow> rat" where
  "fl x = (if x = 0 then 0 else let ulp = 2 powi (lg2 \<bar>x\<bar> - 52) in of_int (rne (x / ulp)) * ulp)"

section \<open>Rounding\<close>

lemma rne_of_int [simp]: "rne (of_int m) = m"
  by (simp add: rne_def)

lemma rne_mono: "x \<le> y \<Longrightarrow> rne x \<le> rne y"
proof -
  assume le: "x \<le> y"
  then have f: "\<lfloor>x\<rfloor> \<le> \<lfloor>y\<rfloor>" by (rule floor_mono)
  show ?thesis
  proof (cases "\<lfloor>x\<rfloor> = \<lfloor>y\<rfloor>")
    case True
    with le show ?thesis by (auto simp: rne_def Let_def)
  next
    case False
    with f show ?thesis by (auto simp: rne_def Let_def)
  qed
qed

lemma rne_le: "x \<le> of_int m \<Longrightarrow> rne x \<le> m"
  using rne_mono [of x "of_int m"] by simp

lemma rne_ge: "of_int m \<le> x \<Longrightarrow> m \<le> rne x"
  using rne_mono [of "of_int m" x] by simp

lemma rne_below: "x < of_int m + 1 / 2 \<Longrightarrow> rne x \<le> m"
proof -
  assume x: "x < of_int m + 1 / 2"
  then have "\<lfloor>x\<rfloor> \<le> m" by linarith
  moreover have "rne x = m" if "\<lfloor>x\<rfloor> = m" using that x by (simp add: rne_def Let_def)
  ultimately show ?thesis by (cases "\<lfloor>x\<rfloor> = m") (auto simp: rne_def Let_def)
qed

lemma rne_above: "of_int m - 1 / 2 < x \<Longrightarrow> m \<le> rne x"
proof -
  assume x: "of_int m - 1 / 2 < x"
  then have "m - 1 \<le> \<lfloor>x\<rfloor>" by linarith
  moreover have "rne x = m" if "\<lfloor>x\<rfloor> = m - 1" using that x by (simp add: rne_def Let_def)
  ultimately show ?thesis by (cases "\<lfloor>x\<rfloor> = m - 1") (auto simp: rne_def Let_def)
qed

lemma rne_error: "\<bar>of_int (rne x) - x\<bar> \<le> 1 / 2"
proof (cases "x - of_int \<lfloor>x\<rfloor> < 1 / 2 \<or> x - of_int \<lfloor>x\<rfloor> = 1 / 2 \<and> even \<lfloor>x\<rfloor>")
  case True
  then have "rne x = \<lfloor>x\<rfloor>" by (simp add: rne_def Let_def)
  with True show ?thesis by linarith
next
  case False
  then have "rne x = \<lfloor>x\<rfloor> + 1" "x - of_int \<lfloor>x\<rfloor> \<ge> 1 / 2" by (auto simp: rne_def Let_def)
  then show ?thesis by linarith
qed

lemma pow_le_of_int: "2 ^ (n - 1) \<le> nat a \<Longrightarrow> 0 < a \<Longrightarrow> 0 < n \<Longrightarrow> 2 powi (int n - 1) \<le> (of_int a :: rat)"
proof -
  assume h: "2 ^ (n - 1) \<le> nat a" "0 < a" "0 < n"
  then have "2 ^ (n - 1) \<le> a" by (simp add: le_nat_iff)
  then have "(of_int (2 ^ (n - 1)) :: rat) \<le> of_int a" by (simp only: of_int_le_iff)
  moreover have e: "int n - 1 = int (n - 1)" using h(3) by linarith
  ultimately show ?thesis by (simp only: e power_int_of_nat of_int_power of_int_numeral)
qed

lemma pow_of_int_less: "nat a < 2 ^ n \<Longrightarrow> (of_int a :: rat) < 2 powi int n"
proof -
  assume "nat a < 2 ^ n"
  then have "a < 2 ^ n" by (simp add: nat_less_iff split: if_splits)
  then have "(of_int a :: rat) < of_int (2 ^ n)" by (simp only: of_int_less_iff)
  then show ?thesis by simp
qed

lemma lg2_bounds:
  assumes "0 < x"
  shows "2 powi lg2 x \<le> x \<and> x < 2 powi (lg2 x + 1)"
proof -
  obtain a b where q: "quotient_of x = (a, b)" by force
  have b: "0 < b" by (rule quotient_of_denom_pos [OF q])
  have x: "x = of_int a / of_int b" by (rule quotient_of_div [OF q])
  with assms b have a: "0 < a" by (simp add: zero_less_divide_iff)
  let ?A = "floorlog 2 (nat a)" and ?B = "floorlog 2 (nat b)"
  have A: "0 < ?A" "0 < ?B" using a b by (simp_all add: floorlog_def)
  have fa: "2 ^ (?A - 1) \<le> nat a" "nat a < 2 ^ ?A" using floorlog_bounds [of "nat a" 2] a by simp_all
  have fb: "2 ^ (?B - 1) \<le> nat b" "nat b < 2 ^ ?B" using floorlog_bounds [of "nat b" 2] b by simp_all
  have pw: "(of_nat (2 ^ n) :: rat) = 2 powi int n" for n by simp
  have ra: "2 powi (int ?A - 1) \<le> (of_int a :: rat)" "(of_int a :: rat) < 2 powi int ?A"
    using fa a A(1) by (simp_all add: pow_le_of_int pow_of_int_less)
  have rb: "2 powi (int ?B - 1) \<le> (of_int b :: rat)" "(of_int b :: rat) < 2 powi int ?B"
    using fb b A(2) by (simp_all add: pow_le_of_int pow_of_int_less)
  have lo: "2 powi (int ?A - int ?B - 1) \<le> x"
  proof -
    have "2 powi (int ?A - int ?B - 1) * (of_int b :: rat) \<le> 2 powi (int ?A - int ?B - 1) * 2 powi int ?B"
      using rb by (intro mult_left_mono) simp_all
    also have "\<dots> = 2 powi (int ?A - 1)" by (subst power_int_add [symmetric]) simp_all
    finally show ?thesis using ra(1) b unfolding x by (simp add: pos_le_divide_eq)
  qed
  have hi: "x < 2 powi (int ?A - int ?B + 1)"
  proof -
    have "2 powi int ?A = 2 powi (int ?A - int ?B + 1) * (2 powi (int ?B - 1) :: rat)"
      by (subst power_int_add [symmetric]) simp_all
    also have "\<dots> \<le> 2 powi (int ?A - int ?B + 1) * of_int b" using rb by (intro mult_left_mono) simp_all
    finally have "of_int a < 2 powi (int ?A - int ?B + 1) * (of_int b :: rat)" by (rule less_le_trans [OF ra(2)])
    then show ?thesis using b unfolding x by (simp add: pos_divide_less_eq)
  qed
  show ?thesis using lo hi unfolding lg2_def by (auto simp: q Let_def)
qed

lemma powi_mono: "j \<le> k \<Longrightarrow> 2 powi j \<le> (2 powi k :: rat)"
  by (rule power_int_increasing) simp_all

lemma lg2_eq: "2 powi k \<le> x \<Longrightarrow> x < 2 powi (k + 1) \<Longrightarrow> lg2 x = k"
proof -
  assume k: "2 powi k \<le> x" "x < 2 powi (k + 1)"
  have "0 < (2 powi k :: rat)" by simp
  with k(1) have "0 < x" by linarith
  from lg2_bounds [OF this] have l: "2 powi lg2 x \<le> x" "x < 2 powi (lg2 x + 1)" by simp_all
  have "\<not> lg2 x + 1 \<le> k" using powi_mono [of "lg2 x + 1" k] k l by linarith
  moreover have "\<not> k + 1 \<le> lg2 x" using powi_mono [of "k + 1" "lg2 x"] k l by linarith
  ultimately show ?thesis by simp
qed

lemma lg2_mono: "0 < x \<Longrightarrow> x \<le> y \<Longrightarrow> lg2 x \<le> lg2 y"
proof (rule ccontr)
  assume x: "0 < x" "x \<le> y" and "\<not> lg2 x \<le> lg2 y"
  then have "2 powi (lg2 y + 1) \<le> (2 powi lg2 x :: rat)" by (intro powi_mono) simp
  with lg2_bounds [of x] lg2_bounds [of y] x show False by linarith
qed

lemma fl_pos: "0 < x \<Longrightarrow> fl x = of_int (rne (x / 2 powi (lg2 x - 52))) * 2 powi (lg2 x - 52)"
  by (simp add: fl_def Let_def)

lemma fl_0 [simp]: "fl 0 = 0"
  by (simp add: fl_def)

lemma powi_52: "(2 powi (k - 52) :: rat) * 4503599627370496 = 2 powi k"
  using power_int_add [of "2 :: rat" "k - 52" 52] by simp

lemma fl_binade:
  assumes "0 < x"
  shows "2 powi lg2 x \<le> fl x \<and> fl x \<le> 2 powi (lg2 x + 1)"
proof -
  let ?u = "2 powi (lg2 x - 52) :: rat"
  have u: "0 < ?u" "?u * 4503599627370496 = 2 powi lg2 x" "2 powi (lg2 x + 1) = 2 * (2 powi lg2 x :: rat)"
    by (simp_all add: powi_52 power_int_add)
  have "of_int 4503599627370496 \<le> x / ?u" "x / ?u \<le> of_int 9007199254740992"
    using lg2_bounds [OF assms] u by (simp_all add: pos_le_divide_eq pos_divide_le_eq mult.commute)
  then have "4503599627370496 \<le> rne (x / ?u)" "rne (x / ?u) \<le> 9007199254740992"
    by (blast intro: rne_ge rne_le)+
  then have "4503599627370496 \<le> (of_int (rne (x / ?u)) :: rat)" "(of_int (rne (x / ?u)) :: rat) \<le> 9007199254740992"
    by linarith+
  then have "4503599627370496 * ?u \<le> of_int (rne (x / ?u)) * ?u" "of_int (rne (x / ?u)) * ?u \<le> 9007199254740992 * ?u"
    using u(1) by (intro mult_right_mono; simp)+
  then show ?thesis unfolding fl_pos [OF assms] using u(2,3) by linarith
qed

lemma fl_mono:
  assumes "0 < x" "x \<le> y"
  shows "fl x \<le> fl y"
proof (cases "lg2 x = lg2 y")
  case True
  have "rne (x / 2 powi (lg2 x - 52)) \<le> rne (y / 2 powi (lg2 x - 52))"
    using assms by (intro rne_mono divide_right_mono) simp_all
  then have "(of_int (rne (x / 2 powi (lg2 x - 52))) :: rat) \<le> of_int (rne (y / 2 powi (lg2 x - 52)))" by simp
  with assms True show ?thesis by (simp add: fl_pos)
next
  case False
  with lg2_mono [OF assms] have "2 powi (lg2 x + 1) \<le> (2 powi lg2 y :: rat)" by (intro powi_mono) simp
  with fl_binade [of x] fl_binade [of y] assms show ?thesis by linarith
qed

lemma fl_error:
  assumes "0 < x"
  shows "\<bar>fl x - x\<bar> * 9007199254740992 \<le> x"
proof -
  let ?u = "2 powi (lg2 x - 52) :: rat"
  have u: "0 < ?u" "?u * 4503599627370496 = 2 powi lg2 x" by (simp_all add: powi_52)
  have "\<bar>of_int (rne (x / ?u)) - x / ?u\<bar> * ?u \<le> 1 / 2 * ?u"
    using u(1) rne_error [of "x / ?u"] by (intro mult_right_mono) simp_all
  moreover have "\<bar>of_int (rne (x / ?u)) - x / ?u\<bar> * ?u = \<bar>(of_int (rne (x / ?u)) - x / ?u) * ?u\<bar>"
    using u(1) by (simp add: abs_mult)
  moreover have "(of_int (rne (x / ?u)) - x / ?u) * ?u = fl x - x"
    using u(1) fl_pos [OF assms] by (simp add: left_diff_distrib)
  ultimately have "\<bar>fl x - x\<bar> \<le> 1 / 2 * ?u" by (simp only:)
  then have "\<bar>fl x - x\<bar> * 9007199254740992 \<le> 1 / 2 * ?u * 9007199254740992" by (rule mult_right_mono) simp
  also have "\<dots> = 2 powi lg2 x" using u(2) by simp
  finally show ?thesis using conjunct1 [OF lg2_bounds [OF assms]] by (rule order.trans)
qed

lemma fl_upper: "0 < x \<Longrightarrow> fl x * 9007199254740992 \<le> x * 9007199254740993"
proof -
  assume x: "0 < x"
  have "(fl x - x) * 9007199254740992 \<le> \<bar>fl x - x\<bar> * 9007199254740992" by (intro mult_right_mono) simp_all
  also have "\<dots> \<le> x" by (rule fl_error [OF x])
  finally show ?thesis unfolding left_diff_distrib by linarith
qed

section \<open>Exact values\<close>

text \<open>Scaling by a power of two is exact.\<close>

lemma lg2_scale: "0 < x \<Longrightarrow> lg2 (x * 2 powi k) = lg2 x + k"
proof (rule lg2_eq)
  assume "0 < x"
  from lg2_bounds [OF this] have "2 powi lg2 x * (2 powi k :: rat) \<le> x * 2 powi k" "x * 2 powi k < 2 powi (lg2 x + 1) * 2 powi k"
    by (auto intro: mult_right_mono mult_strict_right_mono)
  moreover have "2 powi lg2 x * (2 powi k :: rat) = 2 powi (lg2 x + k)" "2 powi (lg2 x + 1) * (2 powi k :: rat) = 2 powi (lg2 x + k + 1)"
    using power_int_add [of "2 :: rat" "lg2 x" k] power_int_add [of "2 :: rat" "lg2 x + 1" k] by (simp_all add: add.assoc add.commute [of 1])
  ultimately show "2 powi (lg2 x + k) \<le> x * 2 powi k" "x * 2 powi k < 2 powi (lg2 x + k + 1)" by simp_all
qed

lemma fl_scale:
  assumes "0 < x"
  shows "fl (x * 2 powi k) = fl x * 2 powi k"
proof -
  have "0 < x * 2 powi k" using assms by simp
  from fl_pos [OF this] show ?thesis
    unfolding lg2_scale [OF assms] fl_pos [OF assms]
    using power_int_add [of "2 :: rat" "lg2 x - 52" k] by (simp add: algebra_simps)
qed

lemma fl_fixed:
  assumes "0 < x" "x = of_int q * 2 powi (lg2 x - 52)"
  shows "fl x = x"
proof -
  have "x / 2 powi (lg2 x - 52) = of_int q" by (subst assms(2)) simp
  then show ?thesis using fl_pos [OF assms(1)] assms(2) by simp
qed

lemma fl_power [simp]: "fl (2 powi k) = 2 powi k"
proof (rule fl_fixed)
  have "lg2 (2 powi k) = k" by (rule lg2_eq) (simp_all add: power_int_add)
  then show "2 powi k = of_int 4503599627370496 * (2 powi (lg2 (2 powi k) - 52) :: rat)"
    using powi_52 [of k] by (simp add: mult.commute)
qed simp

lemma fl_idem: "0 < x \<Longrightarrow> fl (fl x) = fl x"
proof -
  assume x: "0 < x"
  have b: "2 powi lg2 x \<le> fl x" "fl x \<le> 2 powi (lg2 x + 1)" using fl_binade [OF x] by simp_all
  show ?thesis
  proof (cases "fl x = 2 powi (lg2 x + 1)")
    case False
    with b have l: "lg2 (fl x) = lg2 x" by (intro lg2_eq) simp_all
    have "0 < (2 powi lg2 x :: rat)" by simp
    with b(1) have "0 < fl x" by linarith
    then show ?thesis by (rule fl_fixed) (use fl_pos [OF x] l in simp)
  qed (simp only: fl_power)
qed

lemma fl_int:
  assumes "0 < m" "m < 9007199254740992"
  shows "fl (of_int m) = of_int m"
proof -
  let ?L = "lg2 (of_int m)"
  have x: "0 < (of_int m :: rat)" using assms(1) by simp
  have "(of_int m :: rat) < of_int 9007199254740992" using assms(2) by (simp only: of_int_less_iff)
  then have m: "(of_int m :: rat) < 2 powi 53" by simp
  have "?L < 53"
  proof (rule ccontr)
    assume "\<not> ?L < 53"
    then have "2 powi 53 \<le> (2 powi ?L :: rat)" by (intro powi_mono) simp
    with m conjunct1 [OF lg2_bounds [OF x]] show False by (meson leD order.trans)
  qed
  then obtain j where e: "52 - ?L = int j" using zero_le_imp_eq_int [of "52 - ?L"] by auto
  have "(of_int m :: rat) = of_int m * (2 powi (52 - ?L) * 2 powi (?L - 52))"
    using power_int_add [of "2 :: rat" "52 - ?L" "?L - 52"] by simp
  then have "of_int m = of_int (m * 2 ^ j) * (2 powi (?L - 52) :: rat)"
    by (simp only: e power_int_of_nat of_int_mult of_int_power of_int_numeral mult.assoc)
  with x show ?thesis by (rule fl_fixed)
qed

lemma fl_below: "0 < x \<Longrightarrow> fl x = x \<Longrightarrow> x < fl c \<Longrightarrow> 0 < c \<Longrightarrow> x < c"
  using fl_mono [of c x] by (cases "c \<le> x") auto

section \<open>Signs\<close>

lemma fl_positive: "0 < x \<Longrightarrow> 0 < fl x"
proof -
  assume "0 < x"
  then have "2 powi lg2 x \<le> fl x" using fl_binade [of x] by simp
  moreover have "0 < (2 powi lg2 x :: rat)" by simp
  ultimately show ?thesis by linarith
qed

lemma fl_nonneg: "0 \<le> x \<Longrightarrow> 0 \<le> fl x"
  using fl_positive [of x] by (cases "x = 0") auto

lemma floor_ratio: "\<lfloor>numeral a / numeral b :: rat\<rfloor> = numeral a div numeral b"
  by (metis floor_divide_of_int_eq of_int_numeral)

lemma fl_at: "2 powi k \<le> x \<Longrightarrow> x < 2 powi (k + 1) \<Longrightarrow> fl x = of_int (rne (x / 2 powi (k - 52))) * 2 powi (k - 52)"
proof -
  assume k: "2 powi k \<le> x" "x < 2 powi (k + 1)"
  have "0 < (2 powi k :: rat)" by simp
  with k(1) have "0 < x" by linarith
  with lg2_eq [OF k] show ?thesis by (simp add: fl_pos)
qed

end
