(* ===== verification/FloatTexts.thy ===== *)
theory FloatTexts
  imports Formats Doubles
begin

text \<open>
  \<open>%.pg\<close> of \<open>printf\<close> on a \<open>double\<close>: \<open>p\<close> significant digits of the exact value, ties to even, in
  the fixed style for exponents from -4 to \<open>p - 1\<close> and in the exponent style otherwise, without the
  zeros at the end of the fraction.
\<close>

section \<open>Values and their text\<close>

text \<open>A value with its sign bit; the magnitude is that of a positive number or zero.\<close>

datatype double =
    Finite bool rat
  | Infinite bool
  | NaN bool

text \<open>The exponent of the first decimal digit of a positive rational.\<close>

definition lg10 :: "rat \<Rightarrow> int" where
  "lg10 x = (let (a, b) = quotient_of x; k = int (length (nat_str (nat a))) - int (length (nat_str (nat b)))
             in if 10 powi k \<le> x then k else k - 1)"

text \<open>The first \<open>p\<close> digits as a number, and the exponent of the first after the rounding.\<close>

definition decimal :: "nat \<Rightarrow> rat \<Rightarrow> nat \<times> int" where
  "decimal p x =
     (let e = lg10 x; m = nat (rne (x / 10 powi (e + 1 - int p)))
      in if m = 10 ^ p then (10 ^ (p - 1), e + 1) else (m, e))"

definition strip_zeros :: "string \<Rightarrow> string" where
  "strip_zeros s = rev (dropWhile (\<lambda>c. c = CHR ''0'') (rev s))"

definition fraction :: "string \<Rightarrow> string" where
  "fraction s = (case strip_zeros s of [] \<Rightarrow> [] | ds \<Rightarrow> CHR ''.'' # ds)"

definition fmt_exp :: "int \<Rightarrow> string" where
  "fmt_exp e = CHR ''e'' # (if e < 0 then CHR ''-'' else CHR ''+'') # fmt_0wd 2 \<bar>e\<bar>"

definition fmt_g :: "nat \<Rightarrow> rat \<Rightarrow> string" where
  "fmt_g p x =
     (if x = 0 then ''0''
      else let (m, e) = decimal p x; ds = nat_str m
        in if - 4 \<le> e \<and> e < int p then
             if 0 \<le> e then take (nat e + 1) ds @ fraction (drop (nat e + 1) ds)
             else ''0'' @ fraction (replicate (nat (- e) - 1) CHR ''0'' @ ds)
           else take 1 ds @ fraction (drop 1 ds) @ fmt_exp e)"

fun fmt_double :: "nat \<Rightarrow> double \<Rightarrow> string" where
  "fmt_double p (Finite neg x) = (if neg then ''-'' else '''') @ fmt_g p x"
| "fmt_double p (Infinite neg) = (if neg then ''-'' else '''') @ ''inf''"
| "fmt_double p (NaN neg) = (if neg then ''-'' else '''') @ ''nan''"

text \<open>The finite magnitudes of 64 bits.\<close>

definition min_double :: rat where
  "min_double = 2 powi - 1074"

definition sup_double :: rat where
  "sup_double = 2 powi 1024"

fun double_ok :: "double \<Rightarrow> bool" where
  "double_ok (Finite neg x) = (x = 0 \<or> min_double \<le> x \<and> x < sup_double)"
| "double_ok _ = True"

section \<open>The decimal exponent\<close>

lemma nat_str_bounds:
  assumes "0 < n"
  shows "10 ^ (length (nat_str n) - 1) \<le> n \<and> n < 10 ^ length (nat_str n)"
proof -
  obtain k where k: "length (nat_str n) = Suc k" by (cases "length (nat_str n)") simp_all
  have "\<not> 10 ^ Suc k \<le> n" using length_nat_str_ge [of "Suc k" n] k by auto
  moreover have "10 ^ k \<le> n"
  proof (cases k)
    case (Suc j)
    then have "\<not> n < 10 ^ Suc j" using length_nat_str_le [of n j] k by auto
    with Suc show ?thesis by (simp only: not_less)
  qed (use assms in simp)
  ultimately show ?thesis by (simp add: k)
qed

lemma powi10_mono: "j \<le> k \<Longrightarrow> 10 powi j \<le> (10 powi k :: rat)"
  by (rule power_int_increasing) simp_all

lemma nat_str_powi:
  assumes "0 < a"
  shows "10 powi (int (length (nat_str (nat a))) - 1) \<le> (of_int a :: rat)"
    "(of_int a :: rat) < 10 powi int (length (nat_str (nat a)))"
proof -
  obtain k where k: "length (nat_str (nat a)) = Suc k" by (cases "length (nat_str (nat a))") simp_all
  have "10 ^ k \<le> nat a" "nat a < 10 ^ Suc k" using nat_str_bounds [of "nat a"] assms by (simp_all add: k)
  then have "10 ^ k \<le> a" "a < 10 ^ Suc k" using assms by (simp_all add: le_nat_iff nat_less_iff del: power_Suc)
  then have "(of_int (10 ^ k) :: rat) \<le> of_int a" "(of_int a :: rat) < of_int (10 ^ Suc k)"
    by (simp_all only: of_int_le_iff of_int_less_iff)
  then show "10 powi (int (length (nat_str (nat a))) - 1) \<le> (of_int a :: rat)"
    "(of_int a :: rat) < 10 powi int (length (nat_str (nat a)))" by (simp_all add: k power_int_add)
qed

lemma lg10_bounds:
  assumes "0 < x"
  shows "10 powi lg10 x \<le> x \<and> x < 10 powi (lg10 x + 1)"
proof -
  obtain a b where q: "quotient_of x = (a, b)" by force
  have b: "0 < b" by (rule quotient_of_denom_pos [OF q])
  have x: "x = of_int a / of_int b" by (rule quotient_of_div [OF q])
  with assms b have a: "0 < a" by (simp add: zero_less_divide_iff)
  let ?A = "int (length (nat_str (nat a)))" and ?B = "int (length (nat_str (nat b)))"
  note ra = nat_str_powi [OF a] and rb = nat_str_powi [OF b]
  have lo: "10 powi (?A - ?B - 1) \<le> x"
  proof -
    have "10 powi (?A - ?B - 1) * (of_int b :: rat) \<le> 10 powi (?A - ?B - 1) * 10 powi ?B"
      using rb by (intro mult_left_mono) simp_all
    also have "\<dots> = 10 powi (?A - 1)" by (subst power_int_add [symmetric]) simp_all
    finally show ?thesis using ra(1) b unfolding x by (simp add: pos_le_divide_eq)
  qed
  have hi: "x < 10 powi (?A - ?B + 1)"
  proof -
    have "10 powi ?A = 10 powi (?A - ?B + 1) * (10 powi (?B - 1) :: rat)"
      by (subst power_int_add [symmetric]) simp_all
    also have "\<dots> \<le> 10 powi (?A - ?B + 1) * of_int b" using rb by (intro mult_left_mono) simp_all
    finally have "of_int a < 10 powi (?A - ?B + 1) * (of_int b :: rat)" by (rule less_le_trans [OF ra(2)])
    then show ?thesis using b unfolding x by (simp add: pos_divide_less_eq)
  qed
  show ?thesis using lo hi unfolding lg10_def by (auto simp: q Let_def)
qed

lemma lg10_eq: "10 powi k \<le> x \<Longrightarrow> x < 10 powi (k + 1) \<Longrightarrow> lg10 x = k"
proof -
  assume k: "10 powi k \<le> x" "x < 10 powi (k + 1)"
  have "0 < (10 powi k :: rat)" by simp
  with k(1) have "0 < x" by linarith
  from lg10_bounds [OF this] have l: "10 powi lg10 x \<le> x" "x < 10 powi (lg10 x + 1)" by simp_all
  have "\<not> lg10 x + 1 \<le> k" using powi10_mono [of "lg10 x + 1" k] k l by linarith
  moreover have "\<not> k + 1 \<le> lg10 x" using powi10_mono [of "k + 1" "lg10 x"] k l by linarith
  ultimately show ?thesis by simp
qed

lemma lg10_range:
  assumes "0 < x" "10 powi j \<le> x" "x < 10 powi k"
  shows "j \<le> lg10 x" "lg10 x < k"
proof -
  have "\<not> lg10 x + 1 \<le> j" using powi10_mono [of "lg10 x + 1" j] lg10_bounds [OF assms(1)] assms by linarith
  then show "j \<le> lg10 x" by simp
  have "\<not> k \<le> lg10 x" using powi10_mono [of k "lg10 x"] lg10_bounds [OF assms(1)] assms by linarith
  then show "lg10 x < k" by simp
qed

lemma decimal_bounds:
  assumes x: "0 < x" and p: "0 < p" and d: "decimal p x = (m, e)"
  shows "10 ^ (p - 1) \<le> m \<and> m < 10 ^ p \<and> (e = lg10 x \<or> e = lg10 x + 1)"
proof -
  let ?u = "10 powi (lg10 x + 1 - int p) :: rat"
  have "?u * 10 powi int (p - 1) = 10 powi lg10 x"
    using power_int_add [of "10 :: rat" "lg10 x + 1 - int p" "int (p - 1)"] p by (simp del: power_int_of_nat)
  moreover have "?u * 10 powi int p = 10 powi (lg10 x + 1)"
    using power_int_add [of "10 :: rat" "lg10 x + 1 - int p" "int p"] by (simp del: power_int_of_nat)
  ultimately have u: "0 < ?u" "?u * 10 ^ (p - 1) = 10 powi lg10 x" "?u * 10 ^ p = 10 powi (lg10 x + 1)"
    by (simp_all only: power_int_of_nat) simp
  have "of_int (10 ^ (p - 1)) \<le> x / ?u" "x / ?u \<le> of_int (10 ^ p)"
    using lg10_bounds [OF x] u by (simp_all add: pos_le_divide_eq pos_divide_le_eq mult.commute)
  then have "10 ^ (p - 1) \<le> rne (x / ?u)" "rne (x / ?u) \<le> 10 ^ p" by (blast intro: rne_ge rne_le)+
  then have "10 ^ (p - 1) \<le> nat (rne (x / ?u))" "nat (rne (x / ?u)) \<le> 10 ^ p" by (simp_all add: le_nat_iff nat_le_iff)
  with d show ?thesis by (auto simp: decimal_def Let_def power_strict_increasing_iff p split: if_splits)
qed

section \<open>Lengths\<close>

lemma length_strip_zeros: "length (strip_zeros s) \<le> length s"
  using length_dropWhile_le [of "\<lambda>c. c = CHR ''0''" "rev s"] by (simp add: strip_zeros_def)

lemma length_fraction: "length (fraction s) \<le> Suc (length s)"
  using length_strip_zeros [of s] by (cases "strip_zeros s") (simp_all add: fraction_def)

lemma length_fmt_exp:
  assumes "\<bar>e\<bar> < 1000"
  shows "length (fmt_exp e) \<le> 5"
proof -
  have "nat \<bar>e\<bar> < 10 ^ Suc 2" using assms by simp
  from length_nat_str_le [OF this] show ?thesis by (simp add: fmt_exp_def fmt_0wd_def)
qed

lemma length_fmt_g:
  assumes "0 < p" "0 \<le> x" "x = 0 \<or> 10 powi j \<le> x \<and> x < 10 powi k" "- 998 \<le> j" "k \<le> 998"
  shows "length (fmt_g p x) \<le> p + 6"
proof (cases "x = 0")
  case False
  with assms have x: "0 < x" "10 powi j \<le> x" "x < 10 powi k" by auto
  obtain m e where d: "decimal p x = (m, e)" by force
  from decimal_bounds [OF x(1) assms(1) d] have m: "10 ^ (p - 1) \<le> m" "m < 10 ^ p" and e: "e = lg10 x \<or> e = lg10 x + 1" by auto
  have l: "length (nat_str m) = p"
    using length_nat_str_le [of m "p - 1"] length_nat_str_ge [of "p - 1" m] m assms(1) by simp
  have "\<bar>e\<bar> < 1000" using lg10_range [OF x] e assms(4,5) by linarith
  note ex = length_fmt_exp [OF this]
  have fr: "length (fraction (drop n (nat_str m))) \<le> Suc (p - n)" for n
    using length_fraction [of "drop n (nat_str m)"] l by simp
  have "length (fraction (replicate (nat (- e) - 1) CHR ''0'' @ nat_str m)) \<le> Suc (nat (- e) - 1 + p)"
    using length_fraction [of "replicate (nat (- e) - 1) CHR ''0'' @ nat_str m"] l by simp
  moreover have "nat (- e) - 1 \<le> 3" if "- 4 \<le> e" using that by simp
  ultimately have small: "length (''0'' @ fraction (replicate (nat (- e) - 1) CHR ''0'' @ nat_str m)) \<le> p + 6"
    if "- 4 \<le> e" using that by simp
  have "length (take (nat e + 1) (nat_str m) @ fraction (drop (nat e + 1) (nat_str m))) \<le> p + 6"
    if "0 \<le> e" "e < int p" using fr [of "nat e + 1"] l that by simp
  moreover have "length (take 1 (nat_str m) @ fraction (drop 1 (nat_str m)) @ fmt_exp e) \<le> p + 6"
    using fr [of 1] ex l assms(1) by simp
  ultimately show ?thesis using small False by (simp only: fmt_g_def d if_False Let_def prod.case split: if_split) blast
qed (simp add: fmt_g_def)

lemma double_range: "10 powi - int 998 \<le> min_double" "sup_double < 10 powi int 998"
proof -
  have p: "(2 :: rat) ^ k < 10 ^ 998" if "k \<le> 3 * 998" for k
  proof -
    have "(2 :: rat) ^ k \<le> 2 ^ (3 * 998)" using that by (intro power_increasing) simp_all
    also have "\<dots> = (2 ^ 3) ^ 998" by (rule power_mult)
    also have "\<dots> < 10 ^ 998" by (rule power_strict_mono) simp_all
    finally show ?thesis .
  qed
  have "(2 :: rat) ^ 1024 < 10 ^ 998" by (rule p) simp
  then show "sup_double < 10 powi int 998" unfolding sup_double_def by (simp only: power_int_numeral power_int_of_nat)
  have "(2 :: rat) ^ 1074 < 10 ^ 998" by (rule p) simp
  then have "inverse (10 ^ 998 :: rat) \<le> inverse (2 ^ 1074)" by (rule le_imp_inverse_le [OF less_imp_le zero_less_power]) (rule zero_less_numeral)
  then show "10 powi - int 998 \<le> min_double"
    unfolding min_double_def by (simp only: power_int_minus power_int_numeral power_int_of_nat)
qed

lemma length_fmt_double:
  assumes "0 < p" "double_ok v"
  shows "length (fmt_double p v) \<le> p + 7"
proof (cases v)
  case (Finite neg x)
  have "0 < min_double" by (simp add: min_double_def power_int_minus del: power_int_numeral power_int_numeral_neg_numeral)
  with Finite assms(2) have x: "0 \<le> x" "x = 0 \<or> min_double \<le> x \<and> x < sup_double" by auto
  then have "x = 0 \<or> 10 powi - int 998 \<le> x \<and> x < 10 powi int 998"
    using double_range by (meson order.trans order.strict_trans)
  then have "length (fmt_g p x) \<le> p + 6" by (rule length_fmt_g [OF assms(1) x(1)]) simp_all
  then show ?thesis by (simp add: Finite)
qed (use assms in simp_all)

section \<open>Whole numbers\<close>

text \<open>A whole number of at most \<open>p\<close> digits is written with its digits.\<close>

lemma digit_char_0 [simp]: "digit_char 0 = CHR ''0''"
  by (simp add: digit_char_def char_of_def bit_Suc_0_iff)

lemma nat_str_zeros: "nat_str (n * 10 ^ k) = nat_str n @ replicate k CHR ''0''" if "0 < n"
proof (induction k)
  case (Suc k)
  have "\<not> n * 10 ^ Suc k < 10" using that by simp
  then have "nat_str (n * 10 ^ Suc k) = nat_str (n * 10 ^ k) @ [digit_char 0]"
    by (subst nat_str_step) (simp_all add: mult.left_commute [of n])
  with Suc show ?case by (simp add: replicate_append_same [symmetric] del: replicate_append_same)
qed simp

lemma fraction_zeros [simp]: "fraction (replicate k CHR ''0'') = []"
  by (simp add: fraction_def strip_zeros_def)

lemma fmt_g_nat:
  assumes "0 < n" "n < 10 ^ p"
  shows "fmt_g p (of_nat n) = nat_str n"
proof -
  obtain k where k: "length (nat_str n) = Suc k" by (cases "length (nat_str n)") simp_all
  have b: "10 ^ k \<le> n" "n < 10 ^ Suc k" using nat_str_bounds [OF assms(1)] by (simp_all add: k)
  then have "(of_nat (10 ^ k) :: rat) \<le> of_nat n" "(of_nat n :: rat) < of_nat (10 ^ Suc k)"
    by (simp_all only: of_nat_le_iff of_nat_less_iff)
  then have l: "lg10 (of_nat n) = int k" by (intro lg10_eq) (simp_all add: power_int_add)
  have "10 ^ k < (10 :: nat) ^ p" using b(1) assms(2) by (rule le_less_trans)
  then have "k < p" by simp
  then obtain j where p: "p = Suc (k + j)" using less_imp_Suc_add by blast
  then have "(of_nat n :: rat) / 10 powi (int k + 1 - int p) = of_int (int (n * 10 ^ j))"
    by (simp add: power_int_minus field_simps)
  then have m: "nat (rne (of_nat n / 10 powi (int k + 1 - int p))) = n * 10 ^ j" by (simp only: rne_of_int nat_int)
  have "n * 10 ^ j < 10 ^ Suc k * 10 ^ j" using b(2) by simp
  then have "n * 10 ^ j \<noteq> 10 ^ p" by (simp add: p power_add)
  then have "decimal p (of_nat n) = (n * 10 ^ j, int k)" unfolding decimal_def Let_def l m by simp
  then show ?thesis using assms(1) k p by (simp add: fmt_g_def nat_str_zeros)
qed

lemma double_ok_ge_1:
  assumes "1 \<le> x" "x < 2 powi k" "k \<le> 1024"
  shows "double_ok (Finite neg x)"
proof -
  have "min_double \<le> 2 powi 0" unfolding min_double_def by (rule power_int_increasing) simp_all
  moreover have "2 powi k \<le> sup_double" unfolding sup_double_def using assms(3) by (rule power_int_increasing) simp_all
  ultimately show ?thesis using assms(1,2) by simp
qed

lemma fmt_g_12: "fmt_g 12 12 = ''12''"
  using fmt_g_nat [of 12 12] by (simp add: nat_str_step nat_str_small digit_char_def char_of_def bit_Suc_0_iff)

end
