(* ===== verification/LogStreams.thy ===== *)
theory LogStreams
  imports FloatTexts "HOL-Library.Signed_Division"
begin

text \<open>
  \<open>src/src/base/LogStream.h\<close> and \<open>LogStream.cc\<close>: the fixed buffer a log line is built in, the
  integer conversions and the \<open><<\<close> operators. \<open>fb_data\<close> is the array \<open>data_\<close> and \<open>fb_cur\<close> the
  offset of \<open>cur_\<close>; a copy past the array is \<open>Undefined\<close>.
\<close>

section \<open>Fixed buffers\<close>

definition KSmallBuffer :: nat where
  "KSmallBuffer = 4000"

definition KLargeBuffer :: nat where
  "KLargeBuffer = 4000 * 1000"

record FixedBuffer =
  fb_data :: string
  fb_cur :: nat

definition new_FixedBuffer :: "nat \<Rightarrow> FixedBuffer" where
  "new_FixedBuffer SIZE = \<lparr>fb_data = replicate SIZE (CHR 0x00), fb_cur = 0\<rparr>"

definition fb_avail :: "FixedBuffer \<Rightarrow> int" where
  "fb_avail b = int (length (fb_data b)) - int (fb_cur b)"

definition fb_length :: "FixedBuffer \<Rightarrow> int" where
  "fb_length b = int (fb_cur b)"

definition fb_toString :: "FixedBuffer \<Rightarrow> string" where
  "fb_toString b = take (nat (fb_length b)) (fb_data b)"

definition fb_write :: "string \<Rightarrow> FixedBuffer \<Rightarrow> FixedBuffer res" where
  "fb_write text b = bindR (copy_into (fb_data b) (fb_cur b) text) (\<lambda>d. Inr (b\<lparr>fb_data := d\<rparr>))"

definition fb_add :: "nat \<Rightarrow> FixedBuffer \<Rightarrow> FixedBuffer" where
  "fb_add len b = b\<lparr>fb_cur := fb_cur b + len\<rparr>"

text \<open>\<open>append\<close> compares as \<open>size_t\<close>; \<open>len\<close> bytes must be readable at \<open>buf\<close>.\<close>

definition fb_append :: "string \<Rightarrow> nat \<Rightarrow> FixedBuffer \<Rightarrow> FixedBuffer res" where
  "fb_append buf len b =
     (if nat (fb_avail b mod 2 ^ 64) > len then
        if length buf < len then Inl Undefined
        else bindR (fb_write (take len buf) b) (\<lambda>b. Inr (fb_add len b))
      else Inr b)"

definition fb_reset :: "FixedBuffer \<Rightarrow> FixedBuffer" where
  "fb_reset b = b\<lparr>fb_cur := 0\<rparr>"

definition fb_bzero :: "FixedBuffer \<Rightarrow> FixedBuffer" where
  "fb_bzero b = b\<lparr>fb_data := replicate (length (fb_data b)) (CHR 0x00)\<rparr>"

text \<open>\<open>debugString\<close> ends the text with a null character and gives the data from its beginning.\<close>

definition fb_debugString :: "FixedBuffer \<Rightarrow> (string \<times> FixedBuffer) res" where
  "fb_debugString b = bindR (fb_write [CHR 0x00] b) (\<lambda>b. Inr (fb_data b, b))"

section \<open>Integers to text\<close>

definition digits :: string where
  "digits = ''9876543210123456789''"

text \<open>The loop of \<open>convert\<close>: least significant digit first, the sign of \<open>%\<close> undone by \<open>zero\<close>.\<close>

function convert_loop :: "int \<Rightarrow> string" where
  "convert_loop i =
     (let lsd = i smod 10; i = i sdiv 10; c = digits ! nat (9 + lsd)
      in if i \<noteq> 0 then c # convert_loop i else [c])"
  by pat_completeness auto
termination
proof (relation "measure (\<lambda>i. nat \<bar>i\<bar>)")
  fix i j :: int and l c
  assume "j = i sdiv 10" "j \<noteq> 0"
  then show "(j, i) \<in> measure (\<lambda>i. nat \<bar>i\<bar>)"
    by (auto simp: signed_divide_int_def abs_mult sgn_if split: if_splits)
qed simp

declare convert_loop.simps [simp del]

definition convert :: "int \<Rightarrow> string" where
  "convert value = rev (convert_loop value @ (if value < 0 then ''-'' else ''''))"

definition digitsHex :: string where
  "digitsHex = ''0123456789ABCDEF''"

function hex_loop :: "nat \<Rightarrow> string" where
  "hex_loop i =
     (let lsd = i mod 16; i = i div 16; c = digitsHex ! lsd
      in if i \<noteq> 0 then c # hex_loop i else [c])"
  by pat_completeness auto
termination
  by (relation "measure (\<lambda>i. i)") auto

declare hex_loop.simps [simp del]

definition convertHex :: "nat \<Rightarrow> string" where
  "convertHex value = rev (hex_loop value)"

section \<open>The stream\<close>

definition kMaxNumericSize :: int where
  "kMaxNumericSize = 48"

text \<open>
  \<open>formatInteger\<close> and the pointer operator write the text and a terminator straight into the
  buffer.
\<close>

definition formatInteger :: "int \<Rightarrow> FixedBuffer \<Rightarrow> FixedBuffer res" where
  "formatInteger v b =
     (if fb_avail b \<ge> kMaxNumericSize then
        let text = convert v
        in bindR (fb_write (text @ [CHR 0x00]) b) (\<lambda>b. Inr (fb_add (length text) b))
      else Inr b)"

definition put_pointer :: "nat \<Rightarrow> FixedBuffer \<Rightarrow> FixedBuffer res" where
  "put_pointer v b =
     (if fb_avail b \<ge> kMaxNumericSize then
        let text = convertHex v
        in bindR (fb_write (''0x'' @ text @ [CHR 0x00]) b) (\<lambda>b. Inr (fb_add (length text + 2) b))
      else Inr b)"

text \<open>
  The operator for \<open>double\<close> adds the length \<open>snprintf\<close> returns, also if the text was cut; the one for
  \<open>float\<close> passes its value on, the conversion being exact.
\<close>

definition put_double :: "double \<Rightarrow> FixedBuffer \<Rightarrow> FixedBuffer res" where
  "put_double v b =
     (if fb_avail b \<ge> kMaxNumericSize then
        let (text, len) = snprintf (nat kMaxNumericSize) (fmt_double 12 v)
        in bindR (fb_write (text @ [CHR 0x00]) b) (\<lambda>b. Inr (fb_add (i32_to_size len) b))
      else Inr b)"

definition put_float :: "double \<Rightarrow> FixedBuffer \<Rightarrow> FixedBuffer res" where
  "put_float v b = put_double v b"

definition put_bool :: "bool \<Rightarrow> FixedBuffer \<Rightarrow> FixedBuffer res" where
  "put_bool v b = fb_append (if v then ''1'' else ''0'') 1 b"

definition put_char :: "char \<Rightarrow> FixedBuffer \<Rightarrow> FixedBuffer res" where
  "put_char v b = fb_append [v] 1 b"

text \<open>A C string is the characters before its terminator, a null pointer \<open>None\<close>.\<close>

definition put_cstr :: "string option \<Rightarrow> FixedBuffer \<Rightarrow> FixedBuffer res" where
  "put_cstr str b =
     (case str of Some s \<Rightarrow> fb_append s (length s) b | None \<Rightarrow> fb_append ''(null)'' 6 b)"

definition put_string :: "string \<Rightarrow> FixedBuffer \<Rightarrow> FixedBuffer res" where
  "put_string v b = fb_append v (length v) b"

definition stream_append :: "string \<Rightarrow> int \<Rightarrow> FixedBuffer \<Rightarrow> FixedBuffer res" where
  "stream_append data len b = fb_append data (i32_to_size len) b"

definition put_buffer :: "FixedBuffer \<Rightarrow> FixedBuffer \<Rightarrow> FixedBuffer res" where
  "put_buffer v b = stream_append (fb_data v) (fb_length v) b"

text \<open>
  \<open>Fmt\<close> formats one number with a format of the caller: the text \<open>printf\<close> makes of the two is the
  argument. Its buffer has 32 bytes and the text must fit.
\<close>

record Fmt =
  fmt_buf :: string
  fmt_length :: int

definition new_Fmt :: "string \<Rightarrow> Fmt res" where
  "new_Fmt formatted =
     (let (buf, len) = snprintf 32 formatted
      in assertR (i32_to_size len < 32) (Inr \<lparr>fmt_buf = buf, fmt_length = len\<rparr>))"

definition put_Fmt :: "Fmt \<Rightarrow> FixedBuffer \<Rightarrow> FixedBuffer res" where
  "put_Fmt f b = stream_append (fmt_buf f) (fmt_length f) b"

text \<open>One \<open><<\<close>: the narrower integer types widen to \<open>int\<close> and go through \<open>formatInteger\<close>.\<close>

datatype log_item =
    Put_bool bool
  | Put_char char
  | Put_cstr "string option"
  | Put_string string
  | Put_int int
  | Put_pointer nat
  | Put_double double

fun put_item :: "log_item \<Rightarrow> FixedBuffer \<Rightarrow> FixedBuffer res" where
  "put_item (Put_bool v) b = put_bool v b"
| "put_item (Put_char v) b = put_char v b"
| "put_item (Put_cstr v) b = put_cstr v b"
| "put_item (Put_string v) b = put_string v b"
| "put_item (Put_int v) b = formatInteger v b"
| "put_item (Put_pointer v) b = put_pointer v b"
| "put_item (Put_double v) b = put_double v b"

section \<open>The conversions are those of printf\<close>

lemma digits_nth: "0 \<le> d \<Longrightarrow> d < 10 \<Longrightarrow> digits ! nat (9 + d) = digit_char (nat d) \<and> digits ! nat (9 - d) = digit_char (nat d)"
proof -
  assume "0 \<le> d" "d < 10"
  then have "d = 0 \<or> d = 1 \<or> d = 2 \<or> d = 3 \<or> d = 4 \<or> d = 5 \<or> d = 6 \<or> d = 7 \<or> d = 8 \<or> d = 9" by presburger
  then show ?thesis by (elim disjE) (simp_all add: digits_def digit_char_def char_of_def bit_Suc_0_iff)
qed

lemma convert_loop_nonneg: "0 \<le> i \<Longrightarrow> rev (convert_loop i) = nat_str (nat i)"
proof (induction i rule: convert_loop.induct)
  case (1 i)
  have m: "0 \<le> i mod 10" "i mod 10 < 10" by simp_all
  have n: "nat (i mod 10) = nat i mod 10" "nat (i div 10) = nat i div 10"
    using 1(2) by (simp_all add: nat_mod_distrib nat_div_distrib)
  have c: "digits ! nat (9 + i smod 10) = digit_char (nat i mod 10)"
    using digits_nth [OF m] 1(2) n(1) by (simp add: smod_nonneg)
  show ?case
  proof (cases "i sdiv 10 = 0")
    case True
    then have "i < 10" using 1(2) by (simp add: sdiv_nonneg)
    with True c 1(2) show ?thesis
      by (simp add: convert_loop.simps [of i] nat_str_small Let_def)
  next
    case False
    then have "\<not> nat i < 10" using 1(2) by (simp add: sdiv_nonneg)
    moreover have "rev (convert_loop (i sdiv 10)) = nat_str (nat (i sdiv 10))"
      using 1(1) [OF refl refl refl False] 1(2) by (simp add: sdiv_nonneg)
    ultimately show ?thesis
      using False c 1(2) n(2)
      by (simp add: convert_loop.simps [of i] nat_str_step Let_def sdiv_nonneg)
  qed
qed

lemma convert_loop_minus: "convert_loop (- i) = convert_loop i"
proof (induction i rule: convert_loop.induct)
  case (1 i)
  have s: "(- i) sdiv 10 = - (i sdiv 10)" "(- i) smod 10 = - (i smod 10)"
    by (auto simp: signed_divide_int_def signed_modulo_int_def sgn_if)
  have "digits ! nat (9 + (- i) smod 10) = digits ! nat (9 + i smod 10)"
  proof -
    have "\<bar>i smod 10\<bar> < 10" by (simp add: signed_modulo_int_def abs_mult sgn_if)
    with digits_nth [of "i smod 10"] digits_nth [of "- (i smod 10)"] show ?thesis
      unfolding s by (cases "0 \<le> i smod 10") auto
  qed
  then show ?case
    using 1 [OF refl refl refl] s by (auto simp: convert_loop.simps [of i] convert_loop.simps [of "- i"] Let_def)
qed

lemma convert_printf: "convert v = fmt_d v"
proof (cases "v < 0")
  case True
  then have "rev (convert_loop v) = nat_str (nat (- v))"
    using convert_loop_nonneg [of "- v"] by (simp add: convert_loop_minus)
  with True show ?thesis by (simp add: convert_def fmt_d_def)
next
  case False
  then show ?thesis using convert_loop_nonneg [of v] by (simp add: convert_def fmt_d_def)
qed

text \<open>Reading hexadecimal text back.\<close>

definition hex_digit :: "char \<Rightarrow> nat" where
  "hex_digit c = (if of_char c \<ge> (65 :: nat) then of_char c - 55 else of_char c - 48)"

definition hex_val :: "string \<Rightarrow> nat" where
  "hex_val s = foldl (\<lambda>v c. 16 * v + hex_digit c) 0 s"

lemma hex_digit_nth: "d < 16 \<Longrightarrow> hex_digit (digitsHex ! d) = d"
proof -
  assume "d < 16"
  then have "d = 0 \<or> d = 1 \<or> d = 2 \<or> d = 3 \<or> d = 4 \<or> d = 5 \<or> d = 6 \<or> d = 7 \<or> d = 8 \<or> d = 9
    \<or> d = 10 \<or> d = 11 \<or> d = 12 \<or> d = 13 \<or> d = 14 \<or> d = 15" by presburger
  then show ?thesis by (elim disjE) (simp_all add: digitsHex_def hex_digit_def)
qed

lemma hex_val_snoc: "hex_val (s @ [c]) = 16 * hex_val s + hex_digit c"
  by (simp add: hex_val_def)

lemma hex_loop_step: "hex_loop i = digitsHex ! (i mod 16) # (if i div 16 \<noteq> 0 then hex_loop (i div 16) else [])"
  by (subst hex_loop.simps) (simp add: Let_def)

lemma convertHex_val: "hex_val (convertHex v) = v"
proof (induction v rule: less_induct)
  case (less v)
  have d: "hex_digit (digitsHex ! (v mod 16)) = v mod 16" by (simp add: hex_digit_nth)
  show ?case
  proof (cases "v div 16 = 0")
    case True
    then have "v mod 16 = v" by simp
    with d True show ?thesis
      by (simp add: convertHex_def hex_loop_step [of v] hex_val_snoc [of "[]", simplified]) (simp add: hex_val_def)
  next
    case False
    then have "hex_val (convertHex (v div 16)) = v div 16" by (intro less) (cases "v = 0", auto)
    with False d show ?thesis
      by (simp add: convertHex_def hex_loop_step [of v] hex_val_snoc)
  qed
qed

lemma length_convertHex: "v < 16 ^ Suc k \<Longrightarrow> length (convertHex v) \<le> Suc k"
proof (induction k arbitrary: v)
  case 0
  then show ?case by (simp add: convertHex_def hex_loop_step)
next
  case (Suc k)
  then have "v div 16 < 16 ^ Suc k" by (simp add: less_mult_imp_div_less mult.commute)
  from Suc.IH [OF this] show ?case by (simp add: convertHex_def hex_loop_step [of v])
qed

lemma set_convertHex: "set (convertHex v) \<subseteq> set digitsHex"
proof (induction v rule: less_induct)
  case (less v)
  have m: "digitsHex ! (v mod 16) \<in> set digitsHex" by (rule nth_mem) (simp add: digitsHex_def)
  show ?case
  proof (cases "v div 16 = 0")
    case False
    then have "set (convertHex (v div 16)) \<subseteq> set digitsHex" by (intro less) (cases "v = 0", auto)
    with m show ?thesis by (auto simp: convertHex_def hex_loop_step [of v])
  qed (use m in \<open>simp add: convertHex_def hex_loop_step [of v]\<close>)
qed

section \<open>What a stream holds\<close>

definition wf_fb :: "FixedBuffer \<Rightarrow> bool" where
  "wf_fb b \<longleftrightarrow> fb_cur b < length (fb_data b) \<and> length (fb_data b) < 2 ^ 31"

fun item_text :: "log_item \<Rightarrow> string" where
  "item_text (Put_bool v) = (if v then ''1'' else ''0'')"
| "item_text (Put_char v) = [v]"
| "item_text (Put_cstr v) = (case v of Some s \<Rightarrow> s | None \<Rightarrow> ''(null)'')"
| "item_text (Put_string v) = v"
| "item_text (Put_int v) = fmt_d v"
| "item_text (Put_pointer v) = ''0x'' @ convertHex v"
| "item_text (Put_double v) = fmt_double 12 v"

text \<open>The values of the C++ types: 64-bit integers, signed or not, pointers and \<open>double\<close>.\<close>

fun item_ok :: "log_item \<Rightarrow> bool" where
  "item_ok (Put_int v) = (- (2 ^ 63) \<le> v \<and> v < 2 ^ 64)"
| "item_ok (Put_pointer v) = (v < 2 ^ 64)"
| "item_ok (Put_double v) = double_ok v"
| "item_ok _ = True"

text \<open>Whether an item is written into a buffer of \<open>SIZE\<close> bytes that holds \<open>n\<close>.\<close>

fun item_fits :: "nat \<Rightarrow> nat \<Rightarrow> log_item \<Rightarrow> bool" where
  "item_fits SIZE n (Put_int v) = (n + 48 \<le> SIZE)"
| "item_fits SIZE n (Put_pointer v) = (n + 48 \<le> SIZE)"
| "item_fits SIZE n (Put_double v) = (n + 48 \<le> SIZE)"
| "item_fits SIZE n it = (n + length (item_text it) < SIZE)"

lemma length_fmt_d: "- (2 ^ 63) \<le> v \<Longrightarrow> v < 2 ^ 64 \<Longrightarrow> length (fmt_d v) \<le> 21"
proof -
  assume "- (2 ^ 63) \<le> v" "v < 2 ^ 64"
  then have "nat v < 10 ^ Suc 19" "nat (- v) < 10 ^ Suc 19" by simp_all
  from length_nat_str_le [OF this(1)] length_nat_str_le [OF this(2)] show ?thesis
    by (auto simp: fmt_d_def)
qed

lemma fb_write_ok:
  assumes "fb_cur b + length text \<le> length (fb_data b)"
  obtains d where "fb_write text b = Inr (b\<lparr>fb_data := d\<rparr>)" "length d = length (fb_data b)"
    "take (fb_cur b + length text) d = take (fb_cur b) (fb_data b) @ text"
  using that [of "take (fb_cur b) (fb_data b) @ text @ drop (fb_cur b + length text) (fb_data b)"] assms
  by (simp add: fb_write_def)

lemma fb_toString_cur: "fb_toString b = take (fb_cur b) (fb_data b)"
  by (simp add: fb_toString_def fb_length_def)

lemma length_fb_toString: "wf_fb b \<Longrightarrow> length (fb_toString b) = fb_cur b"
  by (simp add: fb_toString_cur wf_fb_def)

text \<open>There is always room for the null character, and the text is not changed.\<close>

lemma fb_debugString_ok:
  assumes "wf_fb b"
  shows "\<exists>d b'. fb_debugString b = Inr (d, b') \<and> wf_fb b' \<and> fb_toString b' = fb_toString b
    \<and> take (fb_cur b + 1) d = fb_toString b @ [CHR 0x00]"
proof -
  from assms have l: "fb_cur b + length [CHR 0x00] \<le> length (fb_data b)" by (simp add: wf_fb_def)
  obtain d where d: "fb_write [CHR 0x00] b = Inr (b\<lparr>fb_data := d\<rparr>)" "length d = length (fb_data b)"
    "take (fb_cur b + length [CHR 0x00]) d = take (fb_cur b) (fb_data b) @ [CHR 0x00]" by (rule fb_write_ok [OF l])
  from arg_cong [OF d(3), of "take (fb_cur b)"] l have "take (fb_cur b) d = take (fb_cur b) (fb_data b)"
    by (simp add: min_def)
  with d assms show ?thesis by (simp add: fb_debugString_def wf_fb_def fb_toString_cur)
qed

lemma fb_append_ok:
  assumes w: "wf_fb b"
  shows "\<exists>b'. fb_append text (length text) b = Inr b' \<and> wf_fb b' \<and> length (fb_data b') = length (fb_data b)
    \<and> fb_toString b' = fb_toString b @ (if fb_cur b + length text < length (fb_data b) then text else [])"
proof -
  have "nat (fb_avail b mod 2 ^ 64) = length (fb_data b) - fb_cur b"
    using w by (simp add: fb_avail_def wf_fb_def nat_minus_as_int)
  note av = this [simplified]
  show ?thesis
  proof (cases "fb_cur b + length text < length (fb_data b)")
    case True
    then have "fb_cur b + length text \<le> length (fb_data b)" by simp
    from fb_write_ok [OF this] obtain d where d: "fb_write text b = Inr (b\<lparr>fb_data := d\<rparr>)"
      "length d = length (fb_data b)"
      "take (fb_cur b + length text) d = take (fb_cur b) (fb_data b) @ text" .
    from True have "fb_append text (length text) b = Inr (fb_add (length text) (b\<lparr>fb_data := d\<rparr>))"
      using d(1) by (simp add: fb_append_def av)
    then show ?thesis using True d(2,3) w by (simp add: fb_add_def fb_toString_cur wf_fb_def)
  next
    case False
    then have "\<not> length (fb_data b) - fb_cur b > length text" by simp
    then have "fb_append text (length text) b = Inr b" by (simp add: fb_append_def av)
    with False w show ?thesis by simp
  qed
qed

lemma numeric_ok:
  assumes w: "wf_fb b" and len: "length text \<le> 47" and f: "fb_avail b \<ge> kMaxNumericSize"
  shows "\<exists>b'. bindR (fb_write (text @ [CHR 0x00]) b) (\<lambda>b. Inr (fb_add (length text) b)) = Inr b' \<and> wf_fb b'
    \<and> length (fb_data b') = length (fb_data b) \<and> fb_toString b' = fb_toString b @ text"
proof -
  have room: "fb_cur b + 48 \<le> length (fb_data b)" using f by (simp add: fb_avail_def kMaxNumericSize_def)
  with len have "fb_cur b + length (text @ [CHR 0x00]) \<le> length (fb_data b)" by simp
  from fb_write_ok [OF this] obtain d where d: "fb_write (text @ [CHR 0x00]) b = Inr (b\<lparr>fb_data := d\<rparr>)"
    "length d = length (fb_data b)"
    "take (fb_cur b + length (text @ [CHR 0x00])) d = take (fb_cur b) (fb_data b) @ text @ [CHR 0x00]" .
  have "take (fb_cur b + length text) d = take (fb_cur b + length text) (take (fb_cur b + length (text @ [CHR 0x00])) d)"
    by (simp add: min_def)
  also have "\<dots> = take (fb_cur b) (fb_data b) @ text" using room unfolding d(3) by (simp add: min_def)
  finally show ?thesis
    using d(1,2) room len w by (simp add: fb_add_def fb_toString_cur wf_fb_def)
qed

lemma put_text_ok:
  assumes w: "wf_fb b"
    and p: "put_item it b = fb_append (item_text it) (length (item_text it)) b"
    and f: "item_fits (length (fb_data b)) (fb_cur b) it
      \<longleftrightarrow> fb_cur b + length (item_text it) < length (fb_data b)"
  shows "\<exists>b'. put_item it b = Inr b' \<and> wf_fb b' \<and> length (fb_data b') = length (fb_data b)
    \<and> fb_toString b' = fb_toString b
        @ (if item_fits (length (fb_data b)) (length (fb_toString b)) it then item_text it else [])"
  using fb_append_ok [OF w, of "item_text it"] w by (simp add: p f length_fb_toString split del: if_split)

lemma put_item_ok:
  assumes w: "wf_fb b" and it: "item_ok it"
  shows "\<exists>b'. put_item it b = Inr b' \<and> wf_fb b' \<and> length (fb_data b') = length (fb_data b)
    \<and> fb_toString b' = fb_toString b
        @ (if item_fits (length (fb_data b)) (length (fb_toString b)) it then item_text it else [])"
proof (cases it)
  case (Put_int v)
  have f: "fb_avail b \<ge> kMaxNumericSize \<longleftrightarrow> fb_cur b + 48 \<le> length (fb_data b)"
    by (auto simp: fb_avail_def kMaxNumericSize_def)
  have "length (fmt_d v) \<le> 47" using length_fmt_d [of v] it Put_int by simp
  then show ?thesis
    using numeric_ok [OF w, of "fmt_d v"] w f
    by (simp add: Put_int formatInteger_def convert_printf length_fb_toString Let_def)
next
  case (Put_pointer v)
  have f: "fb_avail b \<ge> kMaxNumericSize \<longleftrightarrow> fb_cur b + 48 \<le> length (fb_data b)"
    by (auto simp: fb_avail_def kMaxNumericSize_def)
  have "length (''0x'' @ convertHex v) \<le> 47" using length_convertHex [of v 15] it Put_pointer by simp
  from numeric_ok [OF w this] w f show ?thesis
    by (simp add: Put_pointer put_pointer_def length_fb_toString Let_def)
next
  case (Put_double v)
  have f: "fb_avail b \<ge> kMaxNumericSize \<longleftrightarrow> fb_cur b + 48 \<le> length (fb_data b)"
    by (auto simp: fb_avail_def kMaxNumericSize_def)
  have len: "length (fmt_double 12 v) \<le> 19" using length_fmt_double [of 12 v] it Put_double by simp
  then have "snprintf (nat kMaxNumericSize) (fmt_double 12 v) = (fmt_double 12 v, int (length (fmt_double 12 v)))"
    by (simp add: snprintf_def kMaxNumericSize_def)
  moreover have "i32_to_size (int (length (fmt_double 12 v))) = length (fmt_double 12 v)"
    using len by (simp add: i32_to_size_nonneg)
  moreover have "length (fmt_double 12 v) \<le> 47" using len by simp
  note numeric_ok [OF w this]
  ultimately show ?thesis using w f
    by (simp add: Put_double put_double_def length_fb_toString Let_def)
next
  case (Put_bool v)
  show ?thesis by (rule put_text_ok [OF w]) (simp_all add: Put_bool put_bool_def)
next
  case (Put_char v)
  show ?thesis by (rule put_text_ok [OF w]) (simp_all add: Put_char put_char_def)
next
  case (Put_cstr v)
  have n: "(6 :: nat) = length ''(null)''" by simp
  show ?thesis by (rule put_text_ok [OF w]; cases v; simp only: Put_cstr put_cstr_def n put_item.simps
        item_text.simps item_fits.simps option.case)
next
  case (Put_string v)
  show ?thesis by (rule put_text_ok [OF w]) (simp_all add: Put_string put_string_def)
qed

lemma put_Fmt_ok:
  assumes "length formatted < 32"
  shows "bindR (new_Fmt formatted) (\<lambda>f. put_Fmt f b) = put_item (Put_string formatted) b"
  using assms by (simp add: new_Fmt_def put_Fmt_def put_string_def stream_append_def snprintf_def i32_to_size_nonneg Let_def)

text \<open>What the stream should hold: every item that fits, in order, whole.\<close>

fun fitting_text :: "nat \<Rightarrow> string \<Rightarrow> log_item list \<Rightarrow> string" where
  "fitting_text SIZE t [] = t"
| "fitting_text SIZE t (it # items) =
     fitting_text SIZE (if item_fits SIZE (length t) it then t @ item_text it else t) items"

lemma put_items_ok:
  "wf_fb b \<Longrightarrow> \<forall>it \<in> set items. item_ok it \<Longrightarrow>
    \<exists>b'. foldR put_item items b = Inr b' \<and> wf_fb b' \<and> length (fb_data b') = length (fb_data b)
      \<and> fb_toString b' = fitting_text (length (fb_data b)) (fb_toString b) items"
proof (induction items arbitrary: b)
  case (Cons it items)
  from put_item_ok [of b it] Cons.prems obtain b1 where b1: "put_item it b = Inr b1" "wf_fb b1"
    "length (fb_data b1) = length (fb_data b)"
    "fb_toString b1 = fb_toString b
      @ (if item_fits (length (fb_data b)) (length (fb_toString b)) it then item_text it else [])"
    by auto
  from Cons.IH [OF b1(2)] Cons.prems(2) obtain b' where "foldR put_item items b1 = Inr b'" "wf_fb b'"
    "length (fb_data b') = length (fb_data b1)"
    "fb_toString b' = fitting_text (length (fb_data b1)) (fb_toString b1) items"
    by auto
  with b1(1,3,4) show ?case by (simp split: if_splits)
qed simp

text \<open>
  C26. The \<open><<\<close> operators never write outside the buffer of a stream: from a well-formed buffer every
  sequence of items succeeds, leaves room for one more byte, and the text held is what was there
  followed by exactly the items that fit, each whole and in order. An item that does not fit is
  dropped whole, and the items after it may still be written.
\<close>

theorem log_stream_text:
  assumes "wf_fb b" "\<forall>it \<in> set items. item_ok it"
  shows "\<exists>b'. foldR put_item items b = Inr b' \<and> fb_length b' < int (length (fb_data b'))
    \<and> length (fb_data b') = length (fb_data b)
    \<and> fb_toString b' = fitting_text (length (fb_data b)) (fb_toString b) items"
  using put_items_ok [OF assms] by (force simp: wf_fb_def fb_length_def)

lemma fitting_text_example:
  "fitting_text 50 '''' [Put_double (Finite True 12), Put_int (- 5), Put_cstr None, Put_char CHR ''x''] = ''-12(null)x''"
  by (simp add: fmt_g_12)

lemma log_stream_text_witness:
  "\<exists>b'. foldR put_item [Put_double (Finite True 12), Put_int (- 5), Put_cstr None, Put_char CHR ''x''] (new_FixedBuffer 50)
      = Inr b' \<and> fb_toString b' = ''-12(null)x''"
proof -
  have "wf_fb (new_FixedBuffer 50)" "length (fb_data (new_FixedBuffer 50)) = 50" "fb_toString (new_FixedBuffer 50) = ''''"
    by (simp_all add: wf_fb_def new_FixedBuffer_def fb_toString_def fb_length_def)
  moreover have "double_ok (Finite True 12)" by (rule double_ok_ge_1 [of 12 4]) simp_all
  ultimately show ?thesis using log_stream_text [of "new_FixedBuffer 50" "[Put_double (Finite True 12), Put_int (- 5), Put_cstr None, Put_char CHR ''x'']"]
    by (auto simp: fitting_text_example simp del: double_ok.simps fitting_text.simps)
qed

text \<open>
  The integer conversions are right on every value of 64 bits: \<open>convert\<close> writes what \<open>printf\<close>
  writes for \<open>%d\<close>, at most 21 characters that read back to the value, and \<open>convertHex\<close> writes
  at most 16 upper case hexadecimal digits that read back to the address.
\<close>

theorem conversions_read_back:
  assumes "- (2 ^ 63) \<le> v" "v < 2 ^ 64" "p < 2 ^ 64"
  shows "convert v = fmt_d v \<and> str_val (convert v) = v \<and> length (convert v) \<le> 21
    \<and> hex_val (convertHex p) = p \<and> length (convertHex p) \<le> 16 \<and> set (convertHex p) \<subseteq> set digitsHex"
  using length_fmt_d [OF assms(1,2)] length_convertHex [of p 15] assms(3)
  by (simp add: convert_printf convertHex_val set_convertHex)

lemma conversions_read_back_witness:
  "str_val (convert (- 9223372036854775808)) = - 9223372036854775808 \<and> hex_val (convertHex 48879) = 48879"
  using conversions_read_back [of "- 9223372036854775808" 48879] by simp

end
