(* ===== verification/AsyncLogs.thy ===== *)
theory AsyncLogs
  imports LogStreams
begin

text \<open>
  \<open>src/src/base/AsyncLog.h\<close> and \<open>AsyncLog.cc\<close>: the asynchronous log. Any thread appends lines to
  the current buffer under \<open>m_mux\<close>; one back-end thread runs \<open>threadFunc\<close>, which swaps the full
  buffers out under the same mutex and then writes them without it. A \<open>unique_ptr\<close> is an option
  (\<open>None\<close> is null, also after \<open>std::move\<close>), the locals of \<open>threadFunc\<close> are fields of the state,
  and the steps of the two sides interleave in any order. \<open>SIZE\<close> is the template argument of
  \<open>Buffer\<close>, \<open>KLargeBuffer\<close> in the code.
\<close>

section \<open>State\<close>

type_synonym buffer_ptr = "FixedBuffer option"

record async_log =
  m_currentBuffer :: buffer_ptr
  m_nextBuffer :: buffer_ptr
  m_vecBuffer :: "buffer_ptr list"
  newBuffer1 :: buffer_ptr
  newBuffer2 :: buffer_ptr
  buffersToWrite :: "buffer_ptr list"
  swapped :: bool                      \<comment> \<open>the back end is past the critical section of its loop\<close>
  outPut :: "string list"              \<comment> \<open>the calls \<open>outPut.append\<close>, in order\<close>

definition new_buffer :: "nat \<Rightarrow> buffer_ptr" where
  "new_buffer SIZE = Some (fb_bzero (new_FixedBuffer SIZE))"

text \<open>The constructor, with the part of \<open>threadFunc\<close> before its loop.\<close>

definition new_async :: "nat \<Rightarrow> async_log" where
  "new_async SIZE =
     \<lparr>m_currentBuffer = new_buffer SIZE, m_nextBuffer = new_buffer SIZE, m_vecBuffer = [],
      newBuffer1 = new_buffer SIZE, newBuffer2 = new_buffer SIZE, buffersToWrite = [],
      swapped = False, outPut = []\<rparr>"

definition deref :: "'a option \<Rightarrow> 'a res" where
  "deref p = (case p of Some x \<Rightarrow> Inr x | None \<Rightarrow> Inl Null_deref)"

section \<open>The front end\<close>

definition al_append :: "nat \<Rightarrow> string \<Rightarrow> async_log \<Rightarrow> async_log res" where
  "al_append SIZE line st =
     bindR (deref (m_currentBuffer st)) (\<lambda>cur.
     if fb_avail cur > int (length line) then
       bindR (fb_append line (length line) cur) (\<lambda>cur.
       Inr (st\<lparr>m_currentBuffer := Some cur\<rparr>))
     else
       let st = st\<lparr>m_vecBuffer := m_vecBuffer st @ [m_currentBuffer st], m_currentBuffer := None\<rparr>;
           st = (if m_nextBuffer st \<noteq> None
                 then st\<lparr>m_currentBuffer := m_nextBuffer st, m_nextBuffer := None\<rparr>
                 else st\<lparr>m_currentBuffer := Some (new_FixedBuffer SIZE)\<rparr>)
       in bindR (deref (m_currentBuffer st)) (\<lambda>cur.
          bindR (fb_append line (length line) cur) (\<lambda>cur.
          Inr (st\<lparr>m_currentBuffer := Some cur\<rparr>))))"

section \<open>The back end\<close>

definition is_empty_buffer :: "buffer_ptr \<Rightarrow> bool" where
  "is_empty_buffer p = (case p of Some b \<Rightarrow> fb_length b = 0 | None \<Rightarrow> False)"

text \<open>
  The assertions at the loop head and the critical section. The wait on \<open>m_cond\<close> ends by a
  notification, by the time out or spuriously, and the buffers are swapped in each case.
\<close>

definition al_swap :: "async_log \<Rightarrow> async_log res" where
  "al_swap st =
     assertR (is_empty_buffer (newBuffer1 st)) (
     assertR (is_empty_buffer (newBuffer2 st)) (
     assertR (buffersToWrite st = []) (
       let st = st\<lparr>m_vecBuffer := m_vecBuffer st @ [m_currentBuffer st]\<rparr>;
           st = st\<lparr>m_currentBuffer := newBuffer1 st, newBuffer1 := None\<rparr>;
           st = st\<lparr>buffersToWrite := m_vecBuffer st, m_vecBuffer := buffersToWrite st\<rparr>;
           st = (if m_nextBuffer st = None
                 then st\<lparr>m_nextBuffer := newBuffer2 st, newBuffer2 := None\<rparr> else st)
       in Inr (st\<lparr>swapped := True\<rparr>))))"

text \<open>\<open>now\<close> is what \<open>toFormattedString\<close> returns for the time of the write.\<close>

definition drop_message :: "string \<Rightarrow> nat \<Rightarrow> string" where
  "drop_message now n =
     fst (snprintf 256 (''Dropped log messages at '' @ now @ '', '' @ nat_str (n - 2) @ '' larger buffers'' @ [CHR 0x0A]))"

definition al_drop :: "string \<Rightarrow> async_log \<Rightarrow> async_log" where
  "al_drop now st =
     (if length (buffersToWrite st) > 25 then
        st\<lparr>outPut := outPut st @ [drop_message now (length (buffersToWrite st))],
           buffersToWrite := take 2 (buffersToWrite st)\<rparr>
      else st)"

definition al_put :: "buffer_ptr \<Rightarrow> async_log \<Rightarrow> async_log res" where
  "al_put p st = bindR (deref p) (\<lambda>b. Inr (st\<lparr>outPut := outPut st @ [take (nat (fb_length b)) (fb_data b)]\<rparr>))"

text \<open>A null spare buffer takes over the last written one.\<close>

definition recycle :: "buffer_ptr \<Rightarrow> buffer_ptr list \<Rightarrow> (buffer_ptr \<times> buffer_ptr list) res" where
  "recycle spare bufs =
     (if spare = None then
        assertR (bufs \<noteq> []) (
          bindR (deref (List.last bufs)) (\<lambda>b. Inr (Some (fb_reset b), butlast bufs)))
      else Inr (spare, bufs))"

definition al_write :: "string \<Rightarrow> async_log \<Rightarrow> async_log res" where
  "al_write now st =
     assertR (buffersToWrite st \<noteq> []) (
       let st = al_drop now st
       in bindR (foldR al_put (buffersToWrite st) st) (\<lambda>st.
          let st = (if length (buffersToWrite st) > 2
                    then st\<lparr>buffersToWrite := take 2 (buffersToWrite st)\<rparr> else st)
          in bindR (recycle (newBuffer1 st) (buffersToWrite st)) (\<lambda>(b1, bufs).
             bindR (recycle (newBuffer2 st) bufs) (\<lambda>(b2, bufs).
             Inr (st\<lparr>newBuffer1 := b1, newBuffer2 := b2, buffersToWrite := [], swapped := False\<rparr>)))))"

section \<open>Interleaving\<close>

text \<open>An event of the back end happens only where its thread is.\<close>

datatype log_event = Append string | Swap | Write string

definition al_step :: "nat \<Rightarrow> log_event \<Rightarrow> async_log \<Rightarrow> async_log res" where
  "al_step SIZE ev st =
     (case ev of Append line \<Rightarrow> al_append SIZE line st
      | Swap \<Rightarrow> if swapped st then Inr st else al_swap st
      | Write now \<Rightarrow> if swapped st then al_write now st else Inr st)"

section \<open>What the log promises\<close>

text \<open>
  The specification knows texts and no buffers: the chunks handed to the file, the chunks taken
  for writing (if the back end has taken some), the full chunks waiting, the text being filled
  and the chunks dropped.
\<close>

record log_spec =
  sp_out :: "string list"
  sp_taken :: "string list option"
  sp_full :: "string list"
  sp_text :: string
  sp_dropped :: "string list"

definition spec_init :: log_spec where
  "spec_init = \<lparr>sp_out = [], sp_taken = None, sp_full = [], sp_text = [], sp_dropped = []\<rparr>"

definition spec_step :: "nat \<Rightarrow> log_event \<Rightarrow> log_spec \<Rightarrow> log_spec" where
  "spec_step SIZE ev s =
     (case ev of
        Append line \<Rightarrow>
          if length (sp_text s) + length line < SIZE then s\<lparr>sp_text := sp_text s @ line\<rparr>
          else s\<lparr>sp_full := sp_full s @ [sp_text s], sp_text := (if length line < SIZE then line else [])\<rparr>
      | Swap \<Rightarrow>
          (case sp_taken s of
             None \<Rightarrow> s\<lparr>sp_taken := Some (sp_full s @ [sp_text s]), sp_full := [], sp_text := []\<rparr>
           | Some _ \<Rightarrow> s)
      | Write now \<Rightarrow>
          (case sp_taken s of
             None \<Rightarrow> s
           | Some cs \<Rightarrow>
               if length cs > 25
               then s\<lparr>sp_out := sp_out s @ drop_message now (length cs) # take 2 cs, sp_taken := None,
                      sp_dropped := sp_dropped s @ drop 2 cs\<rparr>
               else s\<lparr>sp_out := sp_out s @ cs, sp_taken := None\<rparr>))"

definition sp_all :: "log_spec \<Rightarrow> string" where
  "sp_all s = concat (sp_out s) @ concat (case sp_taken s of None \<Rightarrow> [] | Some cs \<Rightarrow> cs)
     @ concat (sp_full s) @ sp_text s"

fun line_of :: "log_event \<Rightarrow> string" where
  "line_of (Append line) = line"
| "line_of _ = []"

section \<open>The buffers implement the specification\<close>

definition live :: "nat \<Rightarrow> buffer_ptr \<Rightarrow> bool" where
  "live SIZE p = (case p of Some b \<Rightarrow> wf_fb b \<and> length (fb_data b) = SIZE | None \<Rightarrow> False)"

definition text_of :: "buffer_ptr \<Rightarrow> string" where
  "text_of p = (case p of Some b \<Rightarrow> fb_toString b | None \<Rightarrow> [])"

definition spare :: "nat \<Rightarrow> buffer_ptr \<Rightarrow> bool" where
  "spare SIZE p \<longleftrightarrow> live SIZE p \<and> text_of p = []"

definition al_inv :: "nat \<Rightarrow> async_log \<Rightarrow> bool" where
  "al_inv SIZE st \<longleftrightarrow>
     live SIZE (m_currentBuffer st) \<and> (\<forall>p \<in> set (m_vecBuffer st). live SIZE p) \<and>
     (m_nextBuffer st = None \<longrightarrow> m_vecBuffer st \<noteq> []) \<and>
     (m_nextBuffer st \<noteq> None \<longrightarrow> spare SIZE (m_nextBuffer st)) \<and>
     (if swapped st
      then newBuffer1 st = None \<and> buffersToWrite st \<noteq> [] \<and> (\<forall>p \<in> set (buffersToWrite st). live SIZE p)
        \<and> (newBuffer2 st = None \<longrightarrow> length (buffersToWrite st) \<ge> 2)
        \<and> (newBuffer2 st \<noteq> None \<longrightarrow> spare SIZE (newBuffer2 st))
      else spare SIZE (newBuffer1 st) \<and> spare SIZE (newBuffer2 st) \<and> buffersToWrite st = [])"

definition al_abs :: "async_log \<Rightarrow> string list \<Rightarrow> log_spec" where
  "al_abs st dropped =
     \<lparr>sp_out = outPut st, sp_taken = (if swapped st then Some (map text_of (buffersToWrite st)) else None),
      sp_full = map text_of (m_vecBuffer st), sp_text = text_of (m_currentBuffer st), sp_dropped = dropped\<rparr>"

lemma live_Some: "live SIZE p \<longleftrightarrow> (\<exists>b. p = Some b \<and> wf_fb b \<and> length (fb_data b) = SIZE)"
  by (cases p) (auto simp: live_def)

lemma spare_Some: "spare SIZE p \<longleftrightarrow> (\<exists>b. p = Some b \<and> wf_fb b \<and> length (fb_data b) = SIZE \<and> fb_cur b = 0)"
  by (cases p) (auto simp: spare_def live_def text_of_def length_fb_toString [symmetric])

lemma new_buffer_spare: "0 < SIZE \<Longrightarrow> SIZE < 2 ^ 31 \<Longrightarrow> spare SIZE (new_buffer SIZE)"
  by (simp add: spare_Some new_buffer_def fb_bzero_def new_FixedBuffer_def wf_fb_def)

lemma new_FixedBuffer_spare: "0 < SIZE \<Longrightarrow> SIZE < 2 ^ 31 \<Longrightarrow> spare SIZE (Some (new_FixedBuffer SIZE))"
  by (simp add: spare_Some new_FixedBuffer_def wf_fb_def)

lemma fb_append_live:
  assumes "live SIZE (Some b)"
  shows "\<exists>b'. fb_append line (length line) b = Inr b' \<and> live SIZE (Some b')
    \<and> fb_toString b' = fb_toString b @ (if length (fb_toString b) + length line < SIZE then line else [])"
  using fb_append_ok [of b line] assms by (auto simp: live_Some length_fb_toString)

lemma avail_live: "live SIZE (Some b) \<Longrightarrow> fb_avail b > int n \<longleftrightarrow> length (fb_toString b) + n < SIZE"
  by (auto simp: live_Some fb_avail_def length_fb_toString)

lemma al_append_ok:
  assumes i: "al_inv SIZE st" and S: "0 < SIZE" "SIZE < 2 ^ 31"
  shows "\<exists>st'. al_append SIZE line st = Inr st' \<and> al_inv SIZE st'
    \<and> al_abs st' d = spec_step SIZE (Append line) (al_abs st d)"
proof -
  from i obtain cur where cur: "m_currentBuffer st = Some cur" "live SIZE (Some cur)"
    by (auto simp: al_inv_def live_Some)
  show ?thesis
  proof (cases "length (fb_toString cur) + length line < SIZE")
    case True
    from fb_append_live [OF cur(2), of line] obtain c where
      "fb_append line (length line) cur = Inr c" "live SIZE (Some c)" "fb_toString c = fb_toString cur @ line"
      using True by auto
    then show ?thesis
      using True i cur avail_live [OF cur(2), of "length line"]
      by (simp add: al_append_def deref_def al_inv_def al_abs_def spec_step_def text_of_def)
  next
    case False
    let ?n = "case m_nextBuffer st of Some b \<Rightarrow> b | None \<Rightarrow> new_FixedBuffer SIZE"
    have "spare SIZE (Some ?n)"
      using i new_FixedBuffer_spare [OF S] by (auto simp: al_inv_def split: option.splits)
    then have n: "live SIZE (Some ?n)" "fb_toString ?n = []" by (simp_all add: spare_def text_of_def)
    from fb_append_live [OF n(1), of line] n(2) obtain c where
      c: "fb_append line (length line) ?n = Inr c" "live SIZE (Some c)"
      "fb_toString c = (if length line < SIZE then line else [])"
      by auto
    show ?thesis
      using c False i cur avail_live [OF cur(2), of "length line"]
      by (cases "m_nextBuffer st")
        (simp_all add: al_append_def deref_def al_inv_def al_abs_def spec_step_def text_of_def Let_def)
  qed
qed

lemma al_swap_ok:
  assumes i: "al_inv SIZE st" and b: "\<not> swapped st"
  shows "\<exists>st'. al_swap st = Inr st' \<and> al_inv SIZE st' \<and> al_abs st' d = spec_step SIZE Swap (al_abs st d)"
proof -
  from i b obtain b1 b2 where s: "newBuffer1 st = Some b1" "newBuffer2 st = Some b2" "fb_cur b1 = 0" "fb_cur b2 = 0"
    "buffersToWrite st = []" "spare SIZE (newBuffer1 st)" "spare SIZE (newBuffer2 st)"
    by (auto simp: al_inv_def spare_Some)
  then have e: "is_empty_buffer (newBuffer1 st)" "is_empty_buffer (newBuffer2 st)"
    by (simp_all add: is_empty_buffer_def fb_length_def)
  from s(6,7) have l: "live SIZE (newBuffer1 st)" "text_of (newBuffer1 st) = []" by (simp_all add: spare_def)
  show ?thesis
    using e s l i b
    by (cases "m_nextBuffer st")
      (auto simp: al_swap_def al_inv_def al_abs_def spec_step_def Let_def Suc_le_eq)
qed

lemma foldR_al_put:
  "\<forall>p \<in> set bufs. live SIZE p \<Longrightarrow> foldR al_put bufs st = Inr (st\<lparr>outPut := outPut st @ map text_of bufs\<rparr>)"
proof (induction bufs arbitrary: st)
  case (Cons p bufs)
  then obtain b where "p = Some b" by (auto simp: live_Some)
  with Cons show ?case by (simp add: al_put_def deref_def text_of_def fb_toString_def)
qed simp

lemma recycle_ok:
  assumes "q = None \<longrightarrow> bufs \<noteq> []" "\<forall>p \<in> set bufs. live SIZE p" "q \<noteq> None \<longrightarrow> spare SIZE q"
  shows "\<exists>b bufs'. recycle q bufs = Inr (b, bufs') \<and> spare SIZE b
    \<and> bufs' = (if q = None then butlast bufs else bufs)"
proof (cases q)
  case None
  with assms have "live SIZE (List.last bufs)" by simp
  then obtain b where "List.last bufs = Some b" "wf_fb b" "length (fb_data b) = SIZE" by (auto simp: live_Some)
  with None assms(1) show ?thesis
    by (simp add: recycle_def deref_def spare_Some fb_reset_def wf_fb_def)
qed (use assms in \<open>auto simp: recycle_def\<close>)

lemma al_write_ok:
  assumes i: "al_inv SIZE st" and b: "swapped st"
  shows "\<exists>st' d'. al_write now st = Inr st' \<and> al_inv SIZE st' \<and> al_abs st' d' = spec_step SIZE (Write now) (al_abs st d)"
proof -
  let ?w = "buffersToWrite st"
  let ?st1 = "al_drop now st"
  let ?bufs = "take 2 ?w"
  from i b have w: "?w \<noteq> []" "\<forall>p \<in> set ?w. live SIZE p" "newBuffer1 st = None"
    "newBuffer2 st = None \<longrightarrow> length ?w \<ge> 2" "newBuffer2 st \<noteq> None \<longrightarrow> spare SIZE (newBuffer2 st)"
    by (auto simp: al_inv_def)
  have live2: "\<forall>p \<in> set (buffersToWrite ?st1). live SIZE p" "\<forall>p \<in> set ?bufs. live SIZE p"
    using w(2) by (auto simp: al_drop_def dest: in_set_takeD)
  let ?u = "?st1\<lparr>outPut := outPut ?st1 @ map text_of (buffersToWrite ?st1)\<rparr>"
  have keep: "(if length (buffersToWrite ?u) > 2 then ?u\<lparr>buffersToWrite := take 2 (buffersToWrite ?u)\<rparr> else ?u)
      = ?u\<lparr>buffersToWrite := ?bufs\<rparr>"
    by (simp add: al_drop_def)
  have spares: "newBuffer1 ?st1 = newBuffer1 st" "newBuffer2 ?st1 = newBuffer2 st" by (simp_all add: al_drop_def)
  from recycle_ok [of None ?bufs SIZE] w(1) live2(2) obtain b1 where
    r1: "recycle None ?bufs = Inr (b1, butlast ?bufs)" "spare SIZE b1"
    by auto
  have "newBuffer2 st = None \<longrightarrow> butlast ?bufs \<noteq> []"
    using w(4) by (cases ?w; cases "tl ?w") auto
  moreover have "\<forall>p \<in> set (butlast ?bufs). live SIZE p" using live2(2) by (auto dest: in_set_butlastD)
  ultimately obtain b2 bufs where r2: "recycle (newBuffer2 st) (butlast ?bufs) = Inr (b2, bufs)" "spare SIZE b2"
    using recycle_ok [of "newBuffer2 st" "butlast ?bufs" SIZE] w(5) by auto
  let ?st' = "?st1\<lparr>outPut := outPut ?st1 @ map text_of (buffersToWrite ?st1), newBuffer1 := b1, newBuffer2 := b2,
    buffersToWrite := [], swapped := False\<rparr>"
  have "al_write now st = Inr ?st'"
    unfolding al_write_def Let_def foldR_al_put [OF live2(1)] bindR_Inr keep
    using w(1,3) r1(1) r2(1) by (simp add: spares)
  moreover have "al_inv SIZE ?st'"
    using i r1(2) r2(2) by (simp add: al_inv_def al_drop_def)
  moreover have "al_abs ?st' (if length ?w > 25 then d @ map text_of (drop 2 ?w) else d)
      = spec_step SIZE (Write now) (al_abs st d)"
    using b by (simp add: al_abs_def al_drop_def spec_step_def take_map drop_map)
  ultimately show ?thesis by blast
qed

lemma al_step_ok:
  assumes "al_inv SIZE st" "0 < SIZE" "SIZE < 2 ^ 31"
  shows "\<exists>st' d'. al_step SIZE ev st = Inr st' \<and> al_inv SIZE st' \<and> al_abs st' d' = spec_step SIZE ev (al_abs st d)"
proof (cases ev)
  case (Append line)
  show ?thesis using al_append_ok [OF assms, of line d] by (auto simp: al_step_def Append)
next
  case Swap
  show ?thesis
  proof (cases "swapped st")
    case True
    then have "spec_step SIZE Swap (al_abs st d) = al_abs st d" by (simp add: spec_step_def al_abs_def)
    then show ?thesis using True assms(1) Swap by (auto simp: al_step_def)
  qed (use al_swap_ok [OF assms(1), of d] Swap in \<open>auto simp: al_step_def\<close>)
next
  case (Write now)
  show ?thesis
  proof (cases "swapped st")
    case False
    then have "spec_step SIZE (Write now) (al_abs st d) = al_abs st d" by (simp add: spec_step_def al_abs_def)
    then show ?thesis using False assms(1) Write by (auto simp: al_step_def)
  qed (use al_write_ok [OF assms(1), of now d] Write in \<open>auto simp: al_step_def\<close>)
qed

lemma al_run_ok:
  assumes "0 < SIZE" "SIZE < 2 ^ 31"
  shows "al_inv SIZE st \<Longrightarrow> \<exists>st' d'. foldR (al_step SIZE) evs st = Inr st' \<and> al_inv SIZE st'
    \<and> al_abs st' d' = fold (spec_step SIZE) evs (al_abs st d)"
proof (induction evs arbitrary: st d)
  case (Cons ev evs)
  from al_step_ok [OF Cons.prems assms, of ev d] obtain st1 d1 where
    1: "al_step SIZE ev st = Inr st1" "al_inv SIZE st1" "al_abs st1 d1 = spec_step SIZE ev (al_abs st d)"
    by blast
  from Cons.IH [OF 1(2), of d1] 1 show ?case by simp
qed auto

lemma new_async_ok:
  assumes "0 < SIZE" "SIZE < 2 ^ 31"
  shows "al_inv SIZE (new_async SIZE)" "al_abs (new_async SIZE) [] = spec_init"
  using new_buffer_spare [OF assms]
  by (simp_all add: al_inv_def new_async_def al_abs_def spec_init_def)
    (simp_all add: spare_def new_buffer_def)

lemma spec_dropped_mono: "length (sp_dropped s) \<le> length (sp_dropped (fold (spec_step SIZE) evs s))"
proof (induction evs arbitrary: s)
  case (Cons ev evs)
  have "length (sp_dropped s) \<le> length (sp_dropped (spec_step SIZE ev s))"
    by (auto simp: spec_step_def split: log_event.split option.split)
  with Cons [of "spec_step SIZE ev s"] show ?case by simp
qed simp

lemma spec_keeps_lines:
  "sp_dropped (fold (spec_step SIZE) evs s) = [] \<Longrightarrow> \<forall>ev \<in> set evs. length (line_of ev) < SIZE \<Longrightarrow>
    sp_all (fold (spec_step SIZE) evs s) = sp_all s @ concat (map line_of evs)"
proof (induction evs arbitrary: s)
  case (Cons ev evs)
  let ?s = "spec_step SIZE ev s"
  from Cons.prems(1) have d: "sp_dropped ?s = []" using spec_dropped_mono [of ?s SIZE evs] by simp
  have "sp_all ?s = sp_all s @ line_of ev"
  proof (cases ev)
    case (Append line)
    with Cons.prems(2) show ?thesis by (simp add: spec_step_def sp_all_def)
  next
    case (Write now)
    with d show ?thesis by (auto simp: spec_step_def sp_all_def split: option.splits if_splits)
  qed (auto simp: spec_step_def sp_all_def split: option.splits)
  with Cons show ?case by simp
qed simp

section \<open>Properties\<close>

text \<open>
  C28. The asynchronous log implements its specification under every interleaving: whatever lines
  threads append and whenever the back end swaps and writes, no assertion of \<open>threadFunc\<close> fails,
  no null buffer is used and no buffer overflows, and the texts in the buffers are those of the
  specification, where the spare buffers and the recycling of written ones cannot be seen.
\<close>

theorem async_log_refines:
  assumes "0 < SIZE" "SIZE < 2 ^ 31"
  shows "\<exists>st d. foldR (al_step SIZE) evs (new_async SIZE) = Inr st
    \<and> al_abs st d = fold (spec_step SIZE) evs spec_init"
  using al_run_ok [OF assms new_async_ok(1) [OF assms], of evs "[]"] new_async_ok(2) [OF assms] by auto

lemma async_log_refines_witness:
  "\<exists>st d. foldR (al_step KLargeBuffer) [Append ''a'', Swap, Append ''b'', Write ''t''] (new_async KLargeBuffer) = Inr st
    \<and> al_abs st d = \<lparr>sp_out = [''a''], sp_taken = None, sp_full = [], sp_text = ''b'', sp_dropped = []\<rparr>"
  using async_log_refines [of KLargeBuffer "[Append ''a'', Swap, Append ''b'', Write ''t'']"]
  by (simp add: KLargeBuffer_def spec_step_def spec_init_def)

text \<open>
  No line is lost, doubled or reordered: as long as the back end has dropped no buffer (it
  drops only when more than 25 wait) and every line is shorter than a buffer, what was handed to
  the file, then what is being written, then what waits in the buffers is exactly the
  concatenation of the appended lines in the order of the appends.
\<close>

theorem async_log_keeps_lines:
  assumes "0 < SIZE" "SIZE < 2 ^ 31" "\<forall>ev \<in> set evs. length (line_of ev) < SIZE"
    and "sp_dropped (fold (spec_step SIZE) evs spec_init) = []"
  shows "\<exists>st. foldR (al_step SIZE) evs (new_async SIZE) = Inr st
    \<and> concat (outPut st) @ concat (map text_of (buffersToWrite st @ m_vecBuffer st @ [m_currentBuffer st]))
        = concat (map line_of evs)"
proof -
  from al_run_ok [OF assms(1,2) new_async_ok(1) [OF assms(1,2)], of evs "[]"] new_async_ok(2) [OF assms(1,2)]
  obtain st d where st: "foldR (al_step SIZE) evs (new_async SIZE) = Inr st" "al_inv SIZE st"
    "al_abs st d = fold (spec_step SIZE) evs spec_init"
    by auto
  have "sp_all (al_abs st d) = concat (map line_of evs)"
    using spec_keeps_lines [OF assms(4,3)] st(3) by (simp add: sp_all_def spec_init_def)
  moreover have "\<not> swapped st \<longrightarrow> buffersToWrite st = []" using st(2) by (simp add: al_inv_def)
  ultimately show ?thesis using st(1) by (auto simp: sp_all_def al_abs_def split: if_splits)
qed

lemma async_log_keeps_lines_witness:
  "\<exists>st. foldR (al_step KLargeBuffer) [Append ''a'', Swap, Append ''b'', Write ''t'', Append ''c'', Swap]
      (new_async KLargeBuffer) = Inr st
    \<and> concat (outPut st) @ concat (map text_of (buffersToWrite st @ m_vecBuffer st @ [m_currentBuffer st])) = ''abc''"
  using async_log_keeps_lines [of KLargeBuffer
      "[Append ''a'', Swap, Append ''b'', Write ''t'', Append ''c'', Swap]"]
  by (simp add: KLargeBuffer_def spec_step_def spec_init_def)

end
