(* ===== verification/LogFiles.thy ===== *)
theory LogFiles
  imports Formats
begin

text \<open>
  \<open>src/src/base/FileUnit.h\<close>, \<open>FileUnit.cc\<close>, \<open>LogFile.h\<close> and \<open>LogFile.cc\<close>: files that are appended to or
  read whole, and the log file that starts anew when it is large or old. What \<open>fwrite\<close>, \<open>ferror\<close>,
  \<open>time\<close> and \<open>read\<close> answer are arguments.
\<close>

section \<open>Appending\<close>

record AppendFile =
  af_name :: string
  af_contents :: string
  m_writtenBytes :: nat

definition new_AppendFile :: "string \<Rightarrow> AppendFile" where
  "new_AppendFile fileName = \<lparr>af_name = fileName, af_contents = [], m_writtenBytes = 0\<rparr>"

text \<open>
  The loop of \<open>append\<close>: an answer is the number of bytes \<open>fwrite\<close> took and the error state
  afterwards. The result is the number of bytes counted and the bytes the file got, \<open>None\<close> while the
  answers do not end the loop.
\<close>

fun append_loop :: "(nat \<times> int) list \<Rightarrow> string \<Rightarrow> nat \<Rightarrow> (nat \<times> string) option" where
  "append_loop ans charLine written =
     (if written = length charLine then Some (written, [])
      else case ans of
        [] \<Rightarrow> None
      | (thisTimeWrite, err) # ans \<Rightarrow>
          let remain = length charLine - written; taken = take thisTimeWrite (drop written charLine)
          in if thisTimeWrite \<noteq> remain \<and> err \<noteq> 0 then Some (written, taken)
             else map_option (\<lambda>(n, bytes). (n, taken @ bytes)) (append_loop ans charLine (written + thisTimeWrite)))"

declare append_loop.simps [simp del]

definition file_append :: "(nat \<times> int) list \<Rightarrow> string \<Rightarrow> AppendFile \<Rightarrow> AppendFile option" where
  "file_append ans charLine f =
     map_option (\<lambda>(n, bytes). f\<lparr>af_contents := af_contents f @ bytes, m_writtenBytes := m_writtenBytes f + n\<rparr>)
       (append_loop ans charLine 0)"

text \<open>
  The constructor asserts that the file could be opened, and the destructor closes it; \<open>files\<close> are the
  names that are open. The 64 KB of \<open>m_buffer\<close> are given to the stream.
\<close>

definition construct_AppendFile :: "bool \<Rightarrow> string \<Rightarrow> string list \<Rightarrow> (AppendFile \<times> string list) res" where
  "construct_AppendFile opened fileName files =
     assertR opened (Inr (new_AppendFile fileName, files @ [fileName]))"

definition delete_AppendFile :: "AppendFile \<Rightarrow> string list \<Rightarrow> string list" where
  "delete_AppendFile f files = remove1 (af_name f) files"

section \<open>Reading a small file\<close>

definition KSmallBufferSize :: nat where
  "KSmallBufferSize = 64 * 1024"

record ReadSmallFile =
  m_fd :: int
  m_err :: int
  m_buffer :: string

text \<open>
  The constructor, with the answer of \<open>open\<close> or its \<open>errno\<close> and what the memory of the buffer held; the
  destructor does not close the descriptor. \<open>fds\<close> are the descriptors that are open.
\<close>

definition construct_ReadSmallFile :: "int + int \<Rightarrow> string \<Rightarrow> int list \<Rightarrow> ReadSmallFile \<times> int list" where
  "construct_ReadSmallFile ans garbage fds =
     (case ans of
        Inr fd \<Rightarrow> (\<lparr>m_fd = fd, m_err = 0, m_buffer = garbage[0 := CHR 0x00]\<rparr>, fds @ [fd])
      | Inl errno \<Rightarrow> (\<lparr>m_fd = - 1, m_err = errno, m_buffer = garbage[0 := CHR 0x00]\<rparr>, fds))"

definition delete_ReadSmallFile :: "ReadSmallFile \<Rightarrow> int list \<Rightarrow> int list" where
  "delete_ReadSmallFile f fds = fds"

lemma descriptor_leaked:
  "0 \<le> fd \<Longrightarrow> (let (f, fds') = construct_ReadSmallFile (Inr fd) garbage fds in fd \<in> set (delete_ReadSmallFile f fds'))"
  by (simp add: construct_ReadSmallFile_def delete_ReadSmallFile_def)

text \<open>\<open>readToBuffer\<close>: \<open>Inl\<close> is the \<open>errno\<close> of a failed \<open>pread\<close>, whose -1 is then used as an index.\<close>

definition readToBuffer :: "int \<Rightarrow> int + string \<Rightarrow> ReadSmallFile \<Rightarrow> (int \<times> int option \<times> ReadSmallFile) res" where
  "readToBuffer errno ans f =
     (if m_fd f \<ge> 0 then
        (case ans of
           Inr bytes \<Rightarrow>
             let n = length (take (KSmallBufferSize - 1) bytes)
             in Inr (m_err f, Some (int n),
                  f\<lparr>m_buffer := take n bytes @ [CHR 0x00] @ drop (n + 1) (m_buffer f)\<rparr>)
         | Inl _ \<Rightarrow> Inl Undefined)
      else Inr (errno, None, f))"

section \<open>The log file\<close>

record log_file =
  lf_baseName :: string
  m_rollSize :: int
  m_flushInterVal :: int
  m_checkEveryN :: int
  m_count :: int
  m_startOfPeriod :: int
  m_lastRoll :: int
  m_lastFlush :: int
  m_threadSafe :: bool
  m_file :: "AppendFile option"
  lf_closed :: "AppendFile list"         \<comment> \<open>the files that were open before, oldest first\<close>

definition KRollPerSeconds :: int where
  "KRollPerSeconds = 60 * 60 * 24"

text \<open>\<open>stamp\<close> is what \<open>strftime\<close> prints for a time in UTC, \<open>pid\<close> the process.\<close>

definition getLogFileName :: "(int \<Rightarrow> string) \<Rightarrow> int \<Rightarrow> string \<Rightarrow> int \<Rightarrow> string" where
  "getLogFileName stamp pid basename now = basename @ stamp now @ ''.'' @ fmt_d pid @ ''.log''"

text \<open>
  \<open>opened_at\<close> below describes runs in which every new file opens; where one does not, the constructor of
  \<open>AppendFile\<close> (\<open>construct_AppendFile\<close>) fails its assertion and the program ends.
\<close>

definition rollFile :: "(int \<Rightarrow> string) \<Rightarrow> int \<Rightarrow> int \<Rightarrow> log_file \<Rightarrow> bool \<times> log_file" where
  "rollFile stamp pid now l =
     (let fileName = getLogFileName stamp pid (lf_baseName l) now;
          start = now sdiv KRollPerSeconds * KRollPerSeconds
      in if now > m_lastRoll l then
           (True, l\<lparr>m_lastRoll := now, m_lastFlush := now, m_startOfPeriod := start,
              lf_closed := lf_closed l @ (case m_file l of Some f \<Rightarrow> [f] | None \<Rightarrow> []),
              m_file := Some (new_AppendFile fileName)\<rparr>)
         else (False, l))"

text \<open>The constructor; \<open>threadSafe\<close> is what the member, which nothing initialises, holds.\<close>

definition new_log_file ::
  "(int \<Rightarrow> string) \<Rightarrow> int \<Rightarrow> int \<Rightarrow> bool \<Rightarrow> string \<Rightarrow> int \<Rightarrow> int \<Rightarrow> int \<Rightarrow> log_file res" where
  "new_log_file stamp pid now threadSafe baseName rollSize flushInterval checkEveryN =
     assertR (CHR ''/'' \<notin> set baseName) (
       Inr (snd (rollFile stamp pid now
         \<lparr>lf_baseName = baseName, m_rollSize = rollSize, m_flushInterVal = flushInterval, m_checkEveryN = checkEveryN,
          m_count = 0, m_startOfPeriod = 0, m_lastRoll = 0, m_lastFlush = 0, m_threadSafe = threadSafe,
          m_file = None, lf_closed = []\<rparr>)))"

text \<open>\<open>held\<close>: the caller has locked \<open>m_mutex\<close>; locking it again is undefined (it never returns).\<close>

definition lf_flush :: "bool \<Rightarrow> log_file \<Rightarrow> log_file res" where
  "lf_flush held l =
     (if m_threadSafe l \<and> held then Inl Undefined
      else if m_file l = None then Inl Null_deref else Inr l)"

text \<open>One append: the answers of \<open>fwrite\<close> and the times \<open>time\<close> gives here and in \<open>rollFile\<close>.\<close>

record append_answers =
  an_writes :: "(nat \<times> int) list"
  an_now :: int
  an_roll :: int

definition appendFileUnlock ::
  "(int \<Rightarrow> string) \<Rightarrow> int \<Rightarrow> bool \<Rightarrow> append_answers \<Rightarrow> string \<Rightarrow> log_file \<Rightarrow> log_file res option" where
  "appendFileUnlock stamp pid held ans logLine l =
     (case m_file l of
        None \<Rightarrow> Some (Inl Null_deref)
      | Some f \<Rightarrow>
          (case file_append (an_writes ans) logLine f of
             None \<Rightarrow> None
           | Some f \<Rightarrow>
               let l = l\<lparr>m_file := Some f\<rparr>
               in if int (m_writtenBytes f) > m_rollSize l then Some (Inr (snd (rollFile stamp pid (an_roll ans) l)))
                  else
                    let l = l\<lparr>m_count := m_count l + 1\<rparr>
                    in if m_count l \<ge> m_checkEveryN l then
                         let l = l\<lparr>m_count := 0\<rparr>; now = an_now ans;
                             thisP = now sdiv KRollPerSeconds * KRollPerSeconds
                         in if thisP \<noteq> m_startOfPeriod l then Some (Inr (snd (rollFile stamp pid (an_roll ans) l)))
                            else if now - m_lastFlush l > m_flushInterVal l
                              then Some (lf_flush held (l\<lparr>m_lastFlush := now\<rparr>))
                              else Some (Inr l)
                       else Some (Inr l)))"

definition lf_append :: "(int \<Rightarrow> string) \<Rightarrow> int \<Rightarrow> append_answers \<Rightarrow> string \<Rightarrow> log_file \<Rightarrow> log_file res option" where
  "lf_append stamp pid ans logLine l = appendFileUnlock stamp pid (m_threadSafe l) ans logLine l"

fun lf_run :: "(int \<Rightarrow> string) \<Rightarrow> int \<Rightarrow> (append_answers \<times> string) list \<Rightarrow> log_file \<Rightarrow> log_file res option" where
  "lf_run stamp pid [] l = Some (Inr l)"
| "lf_run stamp pid ((ans, line) # evs) l =
     (case lf_append stamp pid ans line l of
        None \<Rightarrow> None
      | Some (Inl e) \<Rightarrow> Some (Inl e)
      | Some (Inr l) \<Rightarrow> lf_run stamp pid evs l)"

section \<open>What the files hold\<close>

text \<open>The answers take the whole line, at once or in parts, without a broken stream.\<close>

definition takes_all :: "append_answers \<times> string \<Rightarrow> bool" where
  "takes_all ev \<longleftrightarrow> append_loop (an_writes (fst ev)) (snd ev) 0 = Some (length (snd ev), snd ev)"

lemma append_loop_parts:
  "(\<forall>(w, err) \<in> set ans. err = 0) \<Longrightarrow> written + sum_list (map fst ans) = length line \<Longrightarrow>
    append_loop ans line written = Some (length line, drop written line)"
proof (induction ans arbitrary: written)
  case Nil
  then show ?case by (simp add: append_loop.simps)
next
  case (Cons a ans)
  obtain w err where a: "a = (w, err)" by (cases a)
  with Cons.prems have e: "err = 0" "written + w + sum_list (map fst ans) = length line" by auto
  show ?case
  proof (cases "written = length line")
    case True
    then show ?thesis by (simp add: append_loop.simps)
  next
    case False
    have "take w (drop written line) @ drop (written + w) line = drop written line"
      by (metis append_take_drop_id drop_drop add.commute)
    with False e Cons.IH [OF _ e(2)] Cons.prems(1) a show ?thesis by (simp add: append_loop.simps [of "(w, 0) # ans"] Let_def)
  qed
qed

definition all_text :: "log_file \<Rightarrow> string" where
  "all_text l = concat (map af_contents (lf_closed l)) @ (case m_file l of Some f \<Rightarrow> af_contents f | None \<Rightarrow> [])"

text \<open>The files, named after the times they were opened at, each later than the one before.\<close>

definition opened_at :: "(int \<Rightarrow> string) \<Rightarrow> int \<Rightarrow> log_file \<Rightarrow> int list \<Rightarrow> bool" where
  "opened_at stamp pid l ts \<longleftrightarrow> (\<exists>f. m_file l = Some f \<and>
     map af_name (lf_closed l @ [f]) = map (getLogFileName stamp pid (lf_baseName l)) ts)
     \<and> sorted_wrt (<) ts \<and> ts \<noteq> [] \<and> List.last ts = m_lastRoll l"

lemma sorted_snoc: "sorted_wrt (<) ts \<Longrightarrow> ts \<noteq> [] \<Longrightarrow> List.last ts < (t :: int) \<Longrightarrow> sorted_wrt (<) (ts @ [t])"
proof -
  assume s: "sorted_wrt (<) ts" "ts \<noteq> []" "List.last ts < t"
  have "x \<le> List.last ts" if "x \<in> set ts" for x
    using s(1) that by (induction ts) (auto simp: less_imp_le)
  with s show ?thesis by (auto simp: sorted_wrt_append dest: le_less_trans)
qed

lemma rollFile_keeps:
  assumes "opened_at stamp pid l ts"
  shows "all_text (snd (rollFile stamp pid now l)) = all_text l"
    and "\<exists>ts'. opened_at stamp pid (snd (rollFile stamp pid now l)) ts'"
    and "m_threadSafe (snd (rollFile stamp pid now l)) = m_threadSafe l"
proof -
  from assms obtain f where f: "m_file l = Some f" by (auto simp: opened_at_def)
  show "all_text (snd (rollFile stamp pid now l)) = all_text l"
    by (simp add: rollFile_def all_text_def f new_AppendFile_def Let_def)
  show "m_threadSafe (snd (rollFile stamp pid now l)) = m_threadSafe l" by (simp add: rollFile_def Let_def)
  show "\<exists>ts'. opened_at stamp pid (snd (rollFile stamp pid now l)) ts'"
  proof (cases "now > m_lastRoll l")
    case True
    with assms sorted_snoc [of ts now] have "opened_at stamp pid (snd (rollFile stamp pid now l)) (ts @ [now])"
      by (auto simp: opened_at_def rollFile_def new_AppendFile_def Let_def)
    then show ?thesis by blast
  qed (use assms in \<open>auto simp: rollFile_def Let_def\<close>)
qed

lemma lf_append_keeps:
  assumes "opened_at stamp pid l ts" "\<not> m_threadSafe l" "takes_all (ans, line)"
  shows "\<exists>l' ts'. lf_append stamp pid ans line l = Some (Inr l') \<and> all_text l' = all_text l @ line
    \<and> opened_at stamp pid l' ts' \<and> \<not> m_threadSafe l'"
proof -
  from assms(1) obtain f where f: "m_file l = Some f" by (auto simp: opened_at_def)
  let ?f = "f\<lparr>af_contents := af_contents f @ line, m_writtenBytes := m_writtenBytes f + length line\<rparr>"
  have a: "file_append (an_writes ans) line f = Some ?f"
    using assms(3) by (simp add: file_append_def takes_all_def)
  let ?l = "l\<lparr>m_file := Some ?f\<rparr>"
  have same: "opened_at stamp pid (?l\<lparr>m_count := c\<rparr>) ts" "all_text (?l\<lparr>m_count := c\<rparr>) = all_text l @ line"
    "opened_at stamp pid (?l\<lparr>m_count := c, m_lastFlush := t\<rparr>) ts"
    "all_text (?l\<lparr>m_count := c, m_lastFlush := t\<rparr>) = all_text l @ line" for c t
    using assms(1) f by (auto simp: opened_at_def all_text_def)
  have same0: "opened_at stamp pid ?l ts" "all_text ?l = all_text l @ line"
    using assms(1) f by (auto simp: opened_at_def all_text_def)
  let ?good = "\<lambda>l'. all_text l' = all_text l @ line \<and> (\<exists>ts'. opened_at stamp pid l' ts') \<and> \<not> m_threadSafe l'"
  have ex: "\<exists>ts'. opened_at stamp pid (?l\<lparr>m_count := c\<rparr>) ts'"
    "\<exists>ts'. opened_at stamp pid (?l\<lparr>m_count := c, m_lastFlush := t\<rparr>) ts'" for c t
    using same by blast+
  have good: "?good (snd (rollFile stamp pid (an_roll ans) ?l))"
    "?good (snd (rollFile stamp pid (an_roll ans) (?l\<lparr>m_count := c\<rparr>)))"
    "?good (?l\<lparr>m_count := c\<rparr>)" "?good (?l\<lparr>m_count := c, m_lastFlush := t\<rparr>)" for c t
    using rollFile_keeps [OF same0(1), of "an_roll ans"] rollFile_keeps [OF same(1) [of c], of "an_roll ans"]
      same same0 assms(2) ex by simp_all
  have "\<exists>l'. lf_append stamp pid ans line l = Some (Inr l') \<and> ?good l'"
    unfolding lf_append_def appendFileUnlock_def f option.case a Let_def
    using good(1) good(2,3) [where c = 0] good(3) [where c = "m_count l + 1"] good(4) [where c = 0 and t = "an_now ans"] assms(2)
    by (simp add: lf_flush_def)
  then show ?thesis by blast
qed

lemma lf_run_keeps:
  assumes "opened_at stamp pid l ts" "\<not> m_threadSafe l" "list_all takes_all evs"
  shows "\<exists>l' ts'. lf_run stamp pid evs l = Some (Inr l') \<and> all_text l' = all_text l @ concat (map snd evs)
    \<and> opened_at stamp pid l' ts' \<and> \<not> m_threadSafe l'"
  using assms
proof (induction evs arbitrary: l ts)
  case (Cons ev evs)
  obtain ans line where ev: "ev = (ans, line)" by (cases ev)
  from lf_append_keeps [OF Cons.prems(1,2), of ans line] Cons.prems(3) ev obtain l1 ts1 where
    1: "lf_append stamp pid ans line l = Some (Inr l1)" "all_text l1 = all_text l @ line"
    "opened_at stamp pid l1 ts1" "\<not> m_threadSafe l1"
    by auto
  from Cons.IH [OF 1(3,4)] Cons.prems(3) 1(1,2) ev show ?case by simp
qed auto

text \<open>
  Rolling loses no byte: when \<open>fwrite\<close> takes every line, at once or in parts, a run of appends
  succeeds and the files, in the order they were opened, hold together what they held before and then
  the lines in order; a file is opened only at a later second than the one before, and is named after
  it, so no two files share a name as long as the time stamps of different seconds differ.
\<close>

theorem log_file_keeps_lines:
  assumes "opened_at stamp pid l ts" "\<not> m_threadSafe l" "list_all takes_all evs"
  shows "\<exists>l' ts'. lf_run stamp pid evs l = Some (Inr l') \<and> all_text l' = all_text l @ concat (map snd evs)
    \<and> opened_at stamp pid l' ts'"
  using lf_run_keeps [OF assms] by blast

definition sample_log :: log_file where
  "sample_log =
     \<lparr>lf_baseName = ''s'', m_rollSize = 3, m_flushInterVal = 3, m_checkEveryN = 2, m_count = 0, m_startOfPeriod = 0,
      m_lastRoll = 5, m_lastFlush = 5, m_threadSafe = False,
      m_file = Some (new_AppendFile (getLogFileName (\<lambda>t. nat_str (nat t)) 1 ''s'' 5)), lf_closed = []\<rparr>"

lemma log_file_keeps_lines_witness:
  "\<exists>l'. lf_run (\<lambda>t. nat_str (nat t)) 1
      [(\<lparr>an_writes = [(2, 0), (2, 0)], an_now = 6, an_roll = 6\<rparr>, ''abcd''), (\<lparr>an_writes = [(1, 0)], an_now = 7, an_roll = 7\<rparr>, ''e'')]
      sample_log = Some (Inr l') \<and> all_text l' = ''abcde''"
proof -
  let ?stamp = "\<lambda>t. nat_str (nat t)"
  let ?evs = "[(\<lparr>an_writes = [(2, 0), (2, 0)], an_now = 6, an_roll = 6\<rparr>, ''abcd''),
    (\<lparr>an_writes = [(1, 0)], an_now = 7, an_roll = 7\<rparr>, ''e'')] :: (append_answers \<times> string) list"
  have "opened_at ?stamp 1 sample_log [5]" "\<not> m_threadSafe sample_log" "all_text sample_log = []"
    by (simp_all add: opened_at_def sample_log_def new_AppendFile_def all_text_def)
  moreover have "list_all takes_all ?evs"
    by (simp add: takes_all_def append_loop_parts)
  ultimately show ?thesis using log_file_keeps_lines [of ?stamp 1 sample_log "[5]" ?evs] by auto
qed

text \<open>
  Where the log file does not return: with \<open>m_threadSafe\<close> the mutex is held when a flush is due, and
  a stream that takes nothing and reports no error is tried for ever.
\<close>

lemma thread_safe_flush_stuck: "m_threadSafe l \<Longrightarrow> lf_flush True l = Inl Undefined"
  by (simp add: lf_flush_def)

lemma append_never_ends: "line \<noteq> [] \<Longrightarrow> file_append (replicate k (0, 0)) line f = None"
proof -
  have "line \<noteq> [] \<Longrightarrow> append_loop (replicate k (0, 0)) line 0 = None" for line
    by (induction k) (simp_all add: append_loop.simps [of _ line] Let_def)
  then show "line \<noteq> [] \<Longrightarrow> file_append (replicate k (0, 0)) line f = None" by (simp add: file_append_def)
qed

end
