(* ===== verification/AsyncLives.thy ===== *)
theory AsyncLives
  imports AsyncLogs LogFiles
begin

text \<open>
  The life of the asynchronous log of \<open>src/src/base/AsyncLog.h\<close> and \<open>AsyncLog.cc\<close>: its thread with the
  log file it writes to, \<open>start\<close>, \<open>stop\<close> and the destructor, interleaved with the threads that log.
\<close>

section \<open>The object and its threads\<close>

datatype worker =
    No_worker
  | Starting         \<comment> \<open>the thread is made and has not run yet\<close>
  | Looping
  | Ended

text \<open>The thread that owns the object.\<close>

datatype owner = Outside | Joining | Gone

record al_life =
  al_log :: async_log
  al_isRunning :: bool
  al_thread :: worker
  al_owner :: owner
  al_outPut :: "log_file option"      \<comment> \<open>the local \<open>outPut\<close> of \<open>threadFunc\<close>\<close>
  al_stderr :: "string list"

text \<open>An assignment to a \<open>std::thread\<close> that is joinable terminates the program.\<close>

definition life_start :: "al_life \<Rightarrow> al_life res" where
  "life_start p =
     (let p = p\<lparr>al_isRunning := True\<rparr>
      in if al_thread p \<noteq> No_worker then Inl Terminate else Inr (p\<lparr>al_thread := Starting\<rparr>))"

text \<open>
  The constructor also makes its \<open>append\<close> the output function of the log, which is state of \<open>Log\<close>:
  \<open>main_logging\<close> of \<open>Demos\<close> has that call.
\<close>

definition construct_AsyncLog :: "nat \<Rightarrow> al_life res" where
  "construct_AsyncLog SIZE =
     life_start \<lparr>al_log = new_async SIZE, al_isRunning = True, al_thread = No_worker, al_owner = Outside,
       al_outPut = None, al_stderr = []\<rparr>"

definition life_stop :: "al_life \<Rightarrow> al_life res" where
  "life_stop p = Inr (p\<lparr>al_isRunning := False, al_owner := Joining\<rparr>)"

text \<open>The destructor; a thread that was joined is not joinable any more.\<close>

definition delete_AsyncLog :: "al_life \<Rightarrow> al_life res" where
  "delete_AsyncLog p =
     (if al_isRunning p then life_stop p
      else if al_thread p = No_worker then Inr (p\<lparr>al_owner := Gone\<rparr>) else Inl Terminate)"

definition life_join :: "al_life \<Rightarrow> al_life" where
  "life_join p = (if al_thread p = Ended then p\<lparr>al_thread := No_worker, al_owner := Outside\<rparr> else p)"

section \<open>The thread\<close>

text \<open>The part before the loop: \<open>garbage\<close> is the value \<open>LogFile\<close> finds in its member \<open>m_threadSafe\<close>.\<close>

definition threadFunc_enter ::
  "(int \<Rightarrow> string) \<Rightarrow> int \<Rightarrow> string \<Rightarrow> int \<Rightarrow> int \<Rightarrow> bool \<Rightarrow> al_life \<Rightarrow> al_life res" where
  "threadFunc_enter stamp pid baseName rollSize now garbage p =
     assertR (al_isRunning p) (
       bindR (new_log_file stamp pid now garbage baseName rollSize 3 1024) (\<lambda>f.
       Inr (p\<lparr>al_outPut := Some f, al_thread := Looping\<rparr>)))"

text \<open>The condition of the loop.\<close>

definition loop_again :: "al_life \<Rightarrow> bool" where
  "loop_again p = True"

text \<open>
  The rest of a turn: the chunks go to the log file, the \<open>k\<close>-th with the answers \<open>ans k\<close> gives, and the
  file is flushed; \<open>None\<close> while \<open>append\<close> does not return. After the loop the file is flushed once more.
\<close>

definition threadFunc_write ::
  "(int \<Rightarrow> string) \<Rightarrow> int \<Rightarrow> string \<Rightarrow> (nat \<Rightarrow> string \<Rightarrow> append_answers) \<Rightarrow> al_life \<Rightarrow> al_life res option" where
  "threadFunc_write stamp pid now ans p =
     (case al_write now (al_log p) of
        Inl e \<Rightarrow> Some (Inl e)
      | Inr st \<Rightarrow>
          let chunks = drop (length (outPut (al_log p))) (outPut st);
              n = length (buffersToWrite (al_log p));
              err = (if n > 25 then [drop_message now n] else [])
          in (case al_outPut p of
                None \<Rightarrow> Some (Inl Undefined)
              | Some f \<Rightarrow>
                  (case lf_run stamp pid (zip (map2 ans [0..<length chunks] chunks) chunks) f of
                     None \<Rightarrow> None
                   | Some r \<Rightarrow> Some (
                       bindR r (\<lambda>f.
                       bindR (lf_flush False f) (\<lambda>f.
                       let p = p\<lparr>al_log := st, al_outPut := Some f, al_stderr := al_stderr p @ err\<rparr>
                       in if loop_again p then Inr p
                          else bindR (lf_flush False f) (\<lambda>f. Inr (p\<lparr>al_thread := Ended\<rparr>))))))))"

section \<open>Interleaving\<close>

text \<open>An event happens only where its thread is.\<close>

datatype life_event =
    Line string
  | Start
  | Stop
  | Destroy
  | Join
  | Enter int bool
  | Turn_swap
  | Turn_write string "nat \<Rightarrow> string \<Rightarrow> append_answers"

fun life_step ::
  "(int \<Rightarrow> string) \<Rightarrow> int \<Rightarrow> string \<Rightarrow> int \<Rightarrow> nat \<Rightarrow> life_event \<Rightarrow> al_life \<Rightarrow> al_life res option" where
  "life_step stamp pid baseName rollSize SIZE (Line l) p =
     Some (bindR (al_step SIZE (Append l) (al_log p)) (\<lambda>st. Inr (p\<lparr>al_log := st\<rparr>)))"
| "life_step stamp pid baseName rollSize SIZE Start p = Some (if al_owner p = Outside then life_start p else Inr p)"
| "life_step stamp pid baseName rollSize SIZE Stop p = Some (if al_owner p = Outside then life_stop p else Inr p)"
| "life_step stamp pid baseName rollSize SIZE Destroy p = Some (if al_owner p = Outside then delete_AsyncLog p else Inr p)"
| "life_step stamp pid baseName rollSize SIZE Join p = Some (Inr (if al_owner p = Joining then life_join p else p))"
| "life_step stamp pid baseName rollSize SIZE (Enter now garbage) p =
     Some (if al_thread p = Starting then threadFunc_enter stamp pid baseName rollSize now garbage p else Inr p)"
| "life_step stamp pid baseName rollSize SIZE Turn_swap p =
     Some (if al_thread p = Looping
           then bindR (al_step SIZE Swap (al_log p)) (\<lambda>st. Inr (p\<lparr>al_log := st\<rparr>)) else Inr p)"
| "life_step stamp pid baseName rollSize SIZE (Turn_write now ans) p =
     (if al_thread p = Looping \<and> swapped (al_log p) then threadFunc_write stamp pid now ans p else Some (Inr p))"

fun life_run ::
  "(int \<Rightarrow> string) \<Rightarrow> int \<Rightarrow> string \<Rightarrow> int \<Rightarrow> nat \<Rightarrow> life_event list \<Rightarrow> al_life res \<Rightarrow> al_life res option" where
  "life_run stamp pid baseName rollSize SIZE evs (Inl e) = Some (Inl e)"
| "life_run stamp pid baseName rollSize SIZE [] (Inr p) = Some (Inr p)"
| "life_run stamp pid baseName rollSize SIZE (ev # evs) (Inr p) =
     (case life_step stamp pid baseName rollSize SIZE ev p of
        None \<Rightarrow> None | Some r \<Rightarrow> life_run stamp pid baseName rollSize SIZE evs r)"

section \<open>Invariants of a run\<close>

lemma life_run_invariant:
  assumes step: "\<And>es ev p q. I es p \<Longrightarrow> ok ev \<Longrightarrow> life_step stamp pid baseName rollSize SIZE ev p = Some (Inr q)
    \<Longrightarrow> I (es @ [ev]) q"
  shows "I es p \<Longrightarrow> list_all ok evs \<Longrightarrow> life_run stamp pid baseName rollSize SIZE evs (Inr p) = Some (Inr q)
    \<Longrightarrow> I (es @ evs) q"
proof (induction evs arbitrary: es p)
  case (Cons ev evs)
  from Cons.prems(3) obtain r where r: "life_step stamp pid baseName rollSize SIZE ev p = Some r"
    "life_run stamp pid baseName rollSize SIZE evs r = Some (Inr q)" by (auto split: option.splits)
  then obtain p' where "r = Inr p'" by (cases r) auto
  with r Cons.IH [of "es @ [ev]" p'] step [OF Cons.prems(1)] Cons.prems(2) show ?case by simp
qed simp

definition stopping :: "life_event list \<Rightarrow> bool" where
  "stopping evs \<longleftrightarrow> Stop \<in> set evs \<or> Destroy \<in> set evs"

definition life_inv :: "life_event list \<Rightarrow> al_life \<Rightarrow> bool" where
  "life_inv evs p \<longleftrightarrow> (al_thread p = Starting \<or> al_thread p = Looping)
     \<and> al_owner p = (if stopping evs then Joining else Outside) \<and> al_isRunning p = (\<not> stopping evs)"

lemma write_fields:
  assumes "threadFunc_write stamp pid now ans p = Some (Inr q)"
  shows "al_thread q = al_thread p \<and> al_owner q = al_owner p \<and> al_isRunning q = al_isRunning p"
  using assms by (auto simp: threadFunc_write_def loop_again_def res_simps Let_def split: sum.splits option.splits)

lemma life_inv_step:
  assumes "life_inv es p" "life_step stamp pid baseName rollSize SIZE ev p = Some (Inr q)"
  shows "life_inv (es @ [ev]) q"
proof (cases ev)
  case (Turn_write now ans)
  with assms show ?thesis by (auto simp: life_inv_def stopping_def dest: write_fields split: if_splits)
qed (use assms in \<open>auto simp: life_inv_def stopping_def life_start_def life_stop_def delete_AsyncLog_def life_join_def
  threadFunc_enter_def res_simps Let_def split: if_splits\<close>)

lemma construct_ok:
  "\<exists>p. construct_AsyncLog SIZE = Inr p \<and> al_log p = new_async SIZE \<and> al_isRunning p \<and> al_thread p = Starting
    \<and> al_owner p = Outside \<and> al_outPut p = None \<and> al_stderr p = []"
  by (simp add: construct_AsyncLog_def life_start_def)

section \<open>Lines on their way to the file\<close>

fun life_line :: "life_event \<Rightarrow> string" where
  "life_line (Line l) = l"
| "life_line _ = []"

text \<open>Lines shorter than a buffer, a file name of a time after the epoch, and files that take every byte.\<close>

fun good_event :: "nat \<Rightarrow> life_event \<Rightarrow> bool" where
  "good_event SIZE (Line l) = (length l < SIZE)"
| "good_event SIZE (Enter now garbage) = (0 < now \<and> \<not> garbage)"
| "good_event SIZE (Turn_write now ans) = (\<forall>k c. takes_all (ans k c, c))"
| "good_event SIZE _ = True"

definition log_inv :: "nat \<Rightarrow> life_event list \<Rightarrow> al_life \<Rightarrow> log_event list \<Rightarrow> string list \<Rightarrow> bool" where
  "log_inv SIZE evs p les d \<longleftrightarrow> al_inv SIZE (al_log p) \<and> al_abs (al_log p) d = fold (spec_step SIZE) les spec_init
     \<and> concat (map line_of les) = concat (map life_line evs) \<and> (\<forall>e \<in> set les. length (line_of e) < SIZE)
     \<and> (al_stderr p = [] \<longrightarrow> d = [])"

definition file_inv :: "(int \<Rightarrow> string) \<Rightarrow> int \<Rightarrow> al_life \<Rightarrow> bool" where
  "file_inv stamp pid p \<longleftrightarrow>
     (case al_outPut p of
        None \<Rightarrow> outPut (al_log p) = [] \<and> al_thread p \<noteq> Looping
      | Some f \<Rightarrow> all_text f = concat (outPut (al_log p)) \<and> (\<exists>ts. opened_at stamp pid f ts) \<and> \<not> m_threadSafe f
          \<and> al_thread p \<noteq> Starting)"

lemma log_inv_step:
  assumes i: "log_inv SIZE es p les d" and s: "0 < SIZE" "SIZE < 2 ^ 31"
    and e: "al_step SIZE ev (al_log p) = Inr st" "length (line_of ev) < SIZE" "line_of ev = life_line lev"
    and w: "\<And>now. ev = Write now \<Longrightarrow> length (buffersToWrite (al_log p)) \<le> 25 \<or> err \<noteq> []"
  obtains d' where "log_inv SIZE (es @ [lev]) (p\<lparr>al_log := st, al_stderr := al_stderr p @ err\<rparr>) (les @ [ev]) d'"
    "al_abs st d' = spec_step SIZE ev (al_abs (al_log p) d)"
proof -
  from al_step_ok [OF _ s, of "al_log p" ev d] i e(1) obtain d' where
    d': "al_inv SIZE st" "al_abs st d' = spec_step SIZE ev (al_abs (al_log p) d)" by (auto simp: log_inv_def)
  have "d' = sp_dropped (al_abs st d')" by (simp add: al_abs_def)
  also have "\<dots> = d" if "al_stderr p @ err = []"
    using w that unfolding d'(2)
    by (auto simp: spec_step_def al_abs_def split: log_event.split option.split)
  finally have "al_stderr p @ err = [] \<longrightarrow> d' = []" using i by (auto simp: log_inv_def)
  with d' i e(2,3) have "log_inv SIZE (es @ [lev]) (p\<lparr>al_log := st, al_stderr := al_stderr p @ err\<rparr>) (les @ [ev]) d'"
    by (auto simp: log_inv_def)
  with d'(2) that show ?thesis by blast
qed

lemma log_inv_cong:
  "log_inv SIZE es p les d \<Longrightarrow> al_log q = al_log p \<Longrightarrow> al_stderr q = al_stderr p \<Longrightarrow> life_line ev = [] \<Longrightarrow>
    log_inv SIZE (es @ [ev]) q les d"
  by (simp add: log_inv_def)

lemma file_inv_cong:
  "file_inv stamp pid p \<Longrightarrow> outPut (al_log q) = outPut (al_log p) \<Longrightarrow> al_outPut q = al_outPut p \<Longrightarrow>
    al_thread q = al_thread p \<Longrightarrow> file_inv stamp pid q"
  by (cases "al_outPut p") (simp_all add: file_inv_def)

lemma out_of_abs: "al_abs st' d' = spec_step SIZE ev (al_abs st d) \<Longrightarrow> ev = Append l \<or> ev = Swap \<Longrightarrow> outPut st' = outPut st"
  by (auto simp: al_abs_def spec_step_def split: if_splits option.splits dest: arg_cong [where f = sp_out])

lemma new_log_file_ok:
  assumes "new_log_file stamp pid now False baseName rollSize i n = Inr f" "0 < now"
  shows "all_text f = [] \<and> (\<exists>ts. opened_at stamp pid f ts) \<and> \<not> m_threadSafe f"
proof -
  have "opened_at stamp pid f [now] \<and> all_text f = [] \<and> \<not> m_threadSafe f"
    using assms by (auto simp: new_log_file_def rollFile_def res_simps opened_at_def all_text_def new_AppendFile_def)
  then show ?thesis by blast
qed

lemma write_step:
  assumes f: "file_inv stamp pid p" and t: "al_thread p = Looping"
    and w: "threadFunc_write stamp pid now ans p = Some (Inr q)" and a: "\<forall>k c. takes_all (ans k c, c)"
    and o: "\<And>st. al_write now (al_log p) = Inr st \<Longrightarrow> \<exists>cs. outPut st = outPut (al_log p) @ cs"
  shows "file_inv stamp pid q \<and> (\<exists>st. al_write now (al_log p) = Inr st \<and> q = p\<lparr>al_log := st, al_outPut := al_outPut q,
    al_stderr := al_stderr p @ (if length (buffersToWrite (al_log p)) > 25
      then [drop_message now (length (buffersToWrite (al_log p)))] else [])\<rparr>)"
proof -
  from w obtain st where st: "al_write now (al_log p) = Inr st" by (auto simp: threadFunc_write_def split: sum.splits)
  with o obtain cs where cs: "outPut st = outPut (al_log p) @ cs" by blast
  from f t obtain g ts where g: "al_outPut p = Some g" "all_text g = concat (outPut (al_log p))" "opened_at stamp pid g ts"
    "\<not> m_threadSafe g" by (auto simp: file_inv_def split: option.splits)
  let ?evs = "zip (map2 ans [0..<length cs] cs) cs"
  have "list_all takes_all ?evs" using a by (auto simp: list_all_iff in_set_zip)
  from lf_run_keeps [OF g(3,4) this] obtain g' ts' where g': "lf_run stamp pid ?evs g = Some (Inr g')"
    "all_text g' = all_text g @ concat cs" "opened_at stamp pid g' ts'" "\<not> m_threadSafe g'" by auto
  then have "lf_flush False g' = Inr g'" by (auto simp: lf_flush_def opened_at_def)
  with w st cs g g' t show ?thesis
    by (auto simp: threadFunc_write_def loop_again_def file_inv_def Let_def)
qed

lemma life_step_keeps:
  assumes l: "log_inv SIZE es p les d" and f: "file_inv stamp pid p" and v: "life_inv es p"
    and s: "0 < SIZE" "SIZE < 2 ^ 31" and good: "good_event SIZE ev"
    and step: "life_step stamp pid baseName rollSize SIZE ev p = Some (Inr q)"
  shows "(\<exists>les d. log_inv SIZE (es @ [ev]) q les d) \<and> file_inv stamp pid q" (is ?thesis)
proof -
  have same: ?thesis if "q = p" "life_line ev = []" using log_inv_cong [OF l, of p ev] f that by blast
  show ?thesis
  proof (cases ev)
    case (Line x)
    with step obtain st where st: "al_step SIZE (Append x) (al_log p) = Inr st" "q = p\<lparr>al_log := st\<rparr>" by (auto simp: res_simps)
    obtain d' where "log_inv SIZE (es @ [ev]) (p\<lparr>al_log := st, al_stderr := al_stderr p @ []\<rparr>) (les @ [Append x]) d'"
      "al_abs st d' = spec_step SIZE (Append x) (al_abs (al_log p) d)"
      by (rule log_inv_step [OF l s st(1), of ev "[]"]) (use good Line in auto)
    then show ?thesis using st(2) file_inv_cong [OF f, of q] out_of_abs [of st d' SIZE "Append x"] by auto
  next
    case Turn_swap
    show ?thesis
    proof (cases "al_thread p = Looping")
      case True
      with step Turn_swap obtain st where st: "al_step SIZE Swap (al_log p) = Inr st" "q = p\<lparr>al_log := st\<rparr>" by (auto simp: res_simps)
      obtain d' where "log_inv SIZE (es @ [ev]) (p\<lparr>al_log := st, al_stderr := al_stderr p @ []\<rparr>) (les @ [Swap]) d'"
        "al_abs st d' = spec_step SIZE Swap (al_abs (al_log p) d)"
        by (rule log_inv_step [OF l s st(1), of ev "[]"]) (use s Turn_swap in auto)
      then show ?thesis using st(2) file_inv_cong [OF f, of q] out_of_abs [of st d' SIZE Swap] by auto
    qed (use step Turn_swap same in auto)
  next
    case (Turn_write now ans)
    show ?thesis
    proof (cases "al_thread p = Looping \<and> swapped (al_log p)")
      case True
      let ?n = "length (buffersToWrite (al_log p))"
      have ok: "\<exists>d'. log_inv SIZE (es @ [ev]) (p\<lparr>al_log := st, al_stderr := al_stderr p @ (if ?n > 25 then [drop_message now ?n] else [])\<rparr>)
          (les @ [Write now]) d' \<and> (\<exists>cs. outPut st = outPut (al_log p) @ cs)" if st: "al_write now (al_log p) = Inr st" for st
      proof -
        obtain d' where d': "log_inv SIZE (es @ [ev]) (p\<lparr>al_log := st, al_stderr := al_stderr p @ (if ?n > 25 then [drop_message now ?n] else [])\<rparr>)
          (les @ [Write now]) d'" "al_abs st d' = spec_step SIZE (Write now) (al_abs (al_log p) d)"
          by (rule log_inv_step [OF l s, where ev = "Write now" and st = st and lev = ev
            and err = "if ?n > 25 then [drop_message now ?n] else []"]) (use s Turn_write True st in \<open>auto simp: al_step_def\<close>)
        from arg_cong [OF d'(2), of sp_out] have "\<exists>cs. outPut st = outPut (al_log p) @ cs"
          by (auto simp: spec_step_def al_abs_def split: if_splits)
        with d'(1) show ?thesis by blast
      qed
      have "threadFunc_write stamp pid now ans p = Some (Inr q)" using step Turn_write True by simp
      from write_step [OF f _ this] good Turn_write True ok obtain st where
        q: "file_inv stamp pid q" "al_write now (al_log p) = Inr st" "q = p\<lparr>al_log := st, al_outPut := al_outPut q,
        al_stderr := al_stderr p @ (if ?n > 25 then [drop_message now ?n] else [])\<rparr>" by auto
      from ok [OF q(2)] obtain d' where d': "log_inv SIZE (es @ [ev])
        (p\<lparr>al_log := st, al_stderr := al_stderr p @ (if ?n > 25 then [drop_message now ?n] else [])\<rparr>) (les @ [Write now]) d'" by blast
      have "al_log q = st" "al_stderr q = al_stderr p @ (if ?n > 25 then [drop_message now ?n] else [])"
        by (subst q(3); simp)+
      with d' have "log_inv SIZE (es @ [ev]) q (les @ [Write now]) d'" by (simp add: log_inv_def)
      with q(1) show ?thesis by blast
    qed (use step Turn_write same in auto)
  next
    case (Enter now garbage)
    show ?thesis
    proof (cases "al_thread p = Starting")
      case True
      with step Enter obtain g where g: "new_log_file stamp pid now garbage baseName rollSize 3 1024 = Inr g"
        "q = p\<lparr>al_outPut := Some g, al_thread := Looping\<rparr>" by (auto simp: threadFunc_enter_def res_simps)
      have "al_outPut p = None" "outPut (al_log p) = []" using f True by (auto simp: file_inv_def split: option.splits)
      then have "file_inv stamp pid q"
        using g(2) new_log_file_ok [of stamp pid now baseName rollSize 3 1024 g] g(1) good Enter by (simp add: file_inv_def)
      moreover have "log_inv SIZE (es @ [ev]) q les d" using g(2) Enter by (intro log_inv_cong [OF l]) simp_all
      ultimately show ?thesis by blast
    qed (use step Enter same in auto)
  next
    case Start
    with step v have "q = p" by (auto simp: life_start_def life_inv_def Let_def split: if_splits)
    with Start same show ?thesis by simp
  next
    case Stop
    with step have q: "q = p \<or> q = p\<lparr>al_isRunning := False, al_owner := Joining\<rparr>" by (auto simp: life_stop_def split: if_splits)
    then have "log_inv SIZE (es @ [ev]) q les d" using Stop by (intro log_inv_cong [OF l]) auto
    with q file_inv_cong [OF f, of q] show ?thesis by auto
  next
    case Destroy
    with step v have q: "q = p \<or> q = p\<lparr>al_isRunning := False, al_owner := Joining\<rparr>"
      by (auto simp: life_stop_def delete_AsyncLog_def life_inv_def split: if_splits)
    then have "log_inv SIZE (es @ [ev]) q les d" using Destroy by (intro log_inv_cong [OF l]) auto
    with q file_inv_cong [OF f, of q] show ?thesis by auto
  next
    case Join
    with step v have "q = p" by (auto simp: life_join_def life_inv_def split: if_splits)
    with Join same show ?thesis by simp
  qed
qed

text \<open>What holds in every run with lines that fit.\<close>

lemma life_run_keeps:
  assumes "life_run stamp pid baseName rollSize SIZE evs (construct_AsyncLog SIZE) = Some (Inr p)"
    and "0 < SIZE" "SIZE < 2 ^ 31" "list_all (good_event SIZE) evs"
  shows "(\<exists>les d. log_inv SIZE evs p les d) \<and> file_inv stamp pid p"
proof -
  let ?I = "\<lambda>es p. (\<exists>les d. log_inv SIZE es p les d) \<and> file_inv stamp pid p \<and> life_inv es p"
  from construct_ok obtain p0 where p0: "construct_AsyncLog SIZE = Inr p0" "al_log p0 = new_async SIZE" "al_outPut p0 = None"
    "al_stderr p0 = []" "al_thread p0 = Starting" "life_inv [] p0"
    by (auto simp: life_inv_def stopping_def)
  have "log_inv SIZE [] p0 [] []" using new_async_ok [OF assms(2,3)] p0(2) by (simp add: log_inv_def)
  moreover have "file_inv stamp pid p0" using p0(2,3,5) by (simp add: file_inv_def new_async_def)
  ultimately have "?I [] p0" using p0(6) by blast
  have "?I ([] @ evs) p"
  proof (rule life_run_invariant [where I = ?I and ok = "good_event SIZE", OF _ \<open>?I [] p0\<close> assms(4)])
    show "life_run stamp pid baseName rollSize SIZE evs (Inr p0) = Some (Inr p)" using assms(1) p0(1) by simp
    show "?I (es @ [ev]) q" if "?I es p" "good_event SIZE ev"
      "life_step stamp pid baseName rollSize SIZE ev p = Some (Inr q)" for es ev p q
      using life_step_keeps [OF _ _ _ assms(2,3) that(2,3), of es] life_inv_step [OF _ that(3), of es] that(1) by blast
  qed
  then show ?thesis by simp
qed

section \<open>Properties\<close>

text \<open>
  C30. The log cannot be stopped. Once \<open>stop\<close> or the destructor was called, its caller waits in \<open>join\<close> in
  every later state: the thread never ends, because its loop does not look at \<open>m_isRunning\<close>. If the
  call comes before the thread has begun to run, the assertion at its beginning fails and ends the
  program, and a second \<open>start\<close>, after the one in the constructor, terminates it.
\<close>

theorem stop_never_returns:
  assumes "life_run stamp pid baseName rollSize SIZE evs (construct_AsyncLog SIZE) = Some (Inr p)"
  shows "al_thread p \<noteq> Ended
    \<and> al_owner p = (if Stop \<in> set evs \<or> Destroy \<in> set evs then Joining else Outside)
    \<and> (al_owner p = Joining \<and> al_thread p = Starting \<longrightarrow>
      life_step stamp pid baseName rollSize SIZE (Enter now garbage) p = Some (Inl Assert_failed))
    \<and> (al_owner p = Outside \<longrightarrow> life_step stamp pid baseName rollSize SIZE Start p = Some (Inl Terminate))"
proof -
  from construct_ok obtain p0 where p0: "construct_AsyncLog SIZE = Inr p0" "life_inv [] p0"
    by (auto simp: life_inv_def stopping_def)
  have "life_inv ([] @ evs) p"
    by (rule life_run_invariant [where I = life_inv and ok = "\<lambda>_. True", OF life_inv_step p0(2)])
      (use assms p0(1) in \<open>simp_all add: list_all_iff\<close>)
  then show ?thesis
    by (auto simp: life_inv_def stopping_def threadFunc_enter_def life_start_def Let_def split: if_splits)
qed

lemma stop_never_returns_witness:
  "\<exists>p. life_run (\<lambda>_. []) 1 ''a'' 100 8 [Stop] (construct_AsyncLog 8) = Some (Inr p) \<and> al_owner p = Joining
    \<and> life_step (\<lambda>_. []) 1 ''a'' 100 8 (Enter 5 False) p = Some (Inl Assert_failed)"
proof -
  obtain p where p: "life_run (\<lambda>_. []) 1 ''a'' 100 8 [Stop] (construct_AsyncLog 8) = Some (Inr p)" "al_thread p = Starting"
    by (simp add: construct_AsyncLog_def life_start_def life_stop_def)
  from stop_never_returns [OF p(1), of 5 False] p show ?thesis by auto
qed

text \<open>
  What is logged reaches the files. In every run of the log with its file, as long as no overflow was
  reported on the standard error stream and the files take every byte, what the files hold, then what is
  being written, then what waits in the buffers are the lines in the order they were logged.
\<close>

theorem log_lines_reach_files:
  assumes "life_run stamp pid baseName rollSize SIZE evs (construct_AsyncLog SIZE) = Some (Inr p)"
    and "0 < SIZE" "SIZE < 2 ^ 31" "list_all (good_event SIZE) evs" "al_stderr p = []"
  shows "(case al_outPut p of None \<Rightarrow> [] | Some f \<Rightarrow> all_text f)
    @ concat (map text_of (buffersToWrite (al_log p) @ m_vecBuffer (al_log p) @ [m_currentBuffer (al_log p)]))
    = concat (map life_line evs)"
proof -
  from life_run_keeps [OF assms(1-4)] obtain les where l: "log_inv SIZE evs p les []" and f: "file_inv stamp pid p"
    using assms(5) by (auto simp: log_inv_def)
  let ?s = "al_abs (al_log p) []"
  have e: "?s = fold (spec_step SIZE) les spec_init" using l by (simp add: log_inv_def)
  have "sp_dropped (fold (spec_step SIZE) les spec_init) = []" unfolding e [symmetric] by (simp add: al_abs_def)
  from spec_keeps_lines [OF this] l have "sp_all ?s = concat (map life_line evs)"
    by (simp add: log_inv_def e) (simp add: sp_all_def spec_init_def)
  moreover have "concat (outPut (al_log p)) = (case al_outPut p of None \<Rightarrow> [] | Some f \<Rightarrow> all_text f)"
    using f by (auto simp: file_inv_def split: option.splits)
  moreover have "\<not> swapped (al_log p) \<longrightarrow> buffersToWrite (al_log p) = []" using l by (simp add: log_inv_def al_inv_def)
  ultimately show ?thesis by (auto simp: sp_all_def al_abs_def split: if_splits)
qed

lemma log_lines_reach_files_witness:
  "\<exists>p f. life_run (\<lambda>_. []) 1 ''a'' 100 4 [Line ''ab'', Enter 5 False, Line ''cd'', Turn_swap,
      Turn_write [] (\<lambda>k c. \<lparr>an_writes = [(length c, 0)], an_now = 6, an_roll = 6\<rparr>), Line ''e''] (construct_AsyncLog 4) = Some (Inr p)
    \<and> al_outPut p = Some f \<and> all_text f @ text_of (m_currentBuffer (al_log p)) = ''abcde''"
proof -
  let ?ans = "\<lambda>(k :: nat) c. \<lparr>an_writes = [(length c, 0)], an_now = 6, an_roll = 6\<rparr>"
  let ?evs = "[Line ''ab'', Enter 5 False, Line ''cd'', Turn_swap, Turn_write [] ?ans, Line ''e'']"
  have "(case life_run (\<lambda>_. []) 1 ''a'' 100 4 ?evs (construct_AsyncLog 4) of
      Some (Inr p) \<Rightarrow> al_outPut p \<noteq> None \<and> al_stderr p = [] \<and> buffersToWrite (al_log p) = [] \<and> m_vecBuffer (al_log p) = []
    | _ \<Rightarrow> False)" by code_simp
  then obtain p f where p: "life_run (\<lambda>_. []) 1 ''a'' 100 4 ?evs (construct_AsyncLog 4) = Some (Inr p)"
    "al_outPut p = Some f" "al_stderr p = []" "buffersToWrite (al_log p) = []" "m_vecBuffer (al_log p) = []"
    by (auto split: option.splits sum.splits)
  have "list_all (good_event 4) ?evs" by (simp add: takes_all_def append_loop_parts)
  from log_lines_reach_files [OF p(1) _ _ this p(3)] p show ?thesis by auto
qed

end
