(* ===== verification/BlockQueues.thy ===== *)
theory BlockQueues
  imports Prelude
begin

text \<open>
  \<open>src/src/base/BlockQueue.h\<close>, \<open>BoundedBlockQueue.h\<close> and \<open>ThreadPool.h\<close>: the blocking queues
  and the pool of threads. Every queue operation runs under the queue's mutex; an operation that
  finds it has to wait returns \<open>None\<close> and changes nothing, and the waiting threads are counted in
  a separate state with the two condition variables.
\<close>

section \<open>The contract of a blocking queue\<close>

datatype 'a qop = Push 'a | Pop

text \<open>
  A run of operations by any threads in the order they take the mutex: the items that went in and
  the items that came out, in order. An operation that has to wait takes part when it is tried
  again, later in the list.
\<close>

fun bq_run :: "('a \<Rightarrow> 'q \<Rightarrow> 'q option res) \<Rightarrow> ('q \<Rightarrow> ('a \<times> 'q) option res) \<Rightarrow> 'a qop list \<Rightarrow> 'q
    \<Rightarrow> ('q \<times> 'a list \<times> 'a list) res" where
  "bq_run push pop [] q = Inr (q, [], [])"
| "bq_run push pop (Push x # ops) q =
     bindR (push x q) (\<lambda>r. case r of None \<Rightarrow> bq_run push pop ops q
       | Some q' \<Rightarrow> bindR (bq_run push pop ops q') (\<lambda>(q, ins, outs). Inr (q, x # ins, outs)))"
| "bq_run push pop (Pop # ops) q =
     bindR (pop q) (\<lambda>r. case r of None \<Rightarrow> bq_run push pop ops q
       | Some (x, q') \<Rightarrow> bindR (bq_run push pop ops q') (\<lambda>(q, ins, outs). Inr (q, ins, x # outs)))"

locale blocking_queue =
  fixes inv :: "'q \<Rightarrow> bool" and items :: "'q \<Rightarrow> 'a list" and full :: "'q \<Rightarrow> bool"
    and push :: "'a \<Rightarrow> 'q \<Rightarrow> 'q option res" and pop :: "'q \<Rightarrow> ('a \<times> 'q) option res"
  assumes push_full: "inv q \<Longrightarrow> full q \<Longrightarrow> push x q = Inr None"
    and push_room: "inv q \<Longrightarrow> \<not> full q \<Longrightarrow> \<exists>q'. push x q = Inr (Some q') \<and> inv q' \<and> items q' = items q @ [x]"
    and pop_empty: "inv q \<Longrightarrow> items q = [] \<Longrightarrow> pop q = Inr None"
    and pop_item: "inv q \<Longrightarrow> items q = x # xs \<Longrightarrow> \<exists>q'. pop q = Inr (Some (x, q')) \<and> inv q' \<and> items q' = xs"
begin

lemma push_cases:
  assumes "inv q"
  shows "full q \<and> push x q = Inr None
    \<or> \<not> full q \<and> (\<exists>q'. push x q = Inr (Some q') \<and> inv q' \<and> items q' = items q @ [x])"
  using assms push_full push_room by blast

lemma pop_cases:
  assumes "inv q"
  shows "items q = [] \<and> pop q = Inr None
    \<or> (\<exists>x q'. pop q = Inr (Some (x, q')) \<and> inv q' \<and> items q = x # items q')"
  using assms pop_empty pop_item by (cases "items q") fastforce+

lemma fifo:
  "inv q \<Longrightarrow> \<exists>q' ins outs. bq_run push pop ops q = Inr (q', ins, outs) \<and> inv q' \<and> items q @ ins = outs @ items q'"
proof (induction ops arbitrary: q)
  case (Cons op ops)
  show ?case
  proof (cases op)
    case (Push x)
    from push_cases [OF Cons.prems, of x] show ?thesis
    proof (elim disjE conjE exE)
      assume "push x q = Inr None"
      with Cons.IH [OF Cons.prems] Push show ?thesis by simp
    next
      fix q' assume q': "push x q = Inr (Some q')" "inv q'" "items q' = items q @ [x]"
      from Cons.IH [OF q'(2)] obtain q2 ins outs where
        "bq_run push pop ops q' = Inr (q2, ins, outs)" "inv q2" "items q' @ ins = outs @ items q2" by blast
      with q' Push show ?thesis by simp
    qed
  next
    case Pop
    from pop_cases [OF Cons.prems] show ?thesis
    proof (elim disjE conjE exE)
      assume "pop q = Inr None"
      with Cons.IH [OF Cons.prems] Pop show ?thesis by simp
    next
      fix x q' assume q': "pop q = Inr (Some (x, q'))" "inv q'" "items q = x # items q'"
      from Cons.IH [OF q'(2)] obtain q2 ins outs where
        "bq_run push pop ops q' = Inr (q2, ins, outs)" "inv q2" "items q' @ ins = outs @ items q2" by blast
      with q' Pop show ?thesis by simp
    qed
  qed
qed simp

end

section \<open>The unbounded queue\<close>

text \<open>The state is the \<open>std::queue\<close>, front first.\<close>

definition bq_push :: "'a \<Rightarrow> 'a list \<Rightarrow> 'a list option res" where
  "bq_push t q = Inr (Some (q @ [t]))"

definition bq_pop :: "'a list \<Rightarrow> ('a \<times> 'a list) option res" where
  "bq_pop q =
     (if q = [] then Inr None
      else assertR (q \<noteq> []) (Inr (Some (hd q, tl q))))"

interpretation bq: blocking_queue "\<lambda>_. True" "\<lambda>q. q" "\<lambda>_. False" bq_push bq_pop
  by unfold_locales (simp_all add: bq_push_def bq_pop_def)

section \<open>The bounded queue\<close>

text \<open>
  The template argument \<open>N\<close> is the length of the array. The indices are of type \<open>int\<close>; \<open>% N\<close>
  and the comparison with it are done as \<open>size_t\<close>.
\<close>

record 'a ring =
  m_BoundedBlockQueue :: "'a list"
  m_nowQueueHead :: int
  m_nowQueueTail :: int

definition new_ring :: "'a list \<Rightarrow> 'a ring" where
  "new_ring arr = \<lparr>m_BoundedBlockQueue = arr, m_nowQueueHead = 0, m_nowQueueTail = 0\<rparr>"

definition next_index :: "nat \<Rightarrow> int \<Rightarrow> nat" where
  "next_index N i = i32_to_size (i + 1) mod N"

definition isEmptyNoLock :: "'a ring \<Rightarrow> bool" where
  "isEmptyNoLock q \<longleftrightarrow> m_nowQueueHead q = m_nowQueueTail q"

definition isFullNoLock :: "'a ring \<Rightarrow> bool" where
  "isFullNoLock q \<longleftrightarrow>
     next_index (length (m_BoundedBlockQueue q)) (m_nowQueueTail q) = i32_to_size (m_nowQueueHead q)"

definition ring_push :: "'a \<Rightarrow> 'a ring \<Rightarrow> 'a ring option res" where
  "ring_push t q =
     (if isFullNoLock q then Inr None
      else assertR (\<not> isFullNoLock q) (
        let i = i32_to_size (m_nowQueueTail q)
        in if i < length (m_BoundedBlockQueue q) then
             Inr (Some (q\<lparr>m_BoundedBlockQueue := (m_BoundedBlockQueue q)[i := t],
               m_nowQueueTail := to_i32 (int (next_index (length (m_BoundedBlockQueue q)) (m_nowQueueTail q)))\<rparr>))
           else Inl Undefined))"

text \<open>\<open>moved\<close> is what \<open>std::move\<close> leaves behind of an item.\<close>

definition ring_pop :: "('a \<Rightarrow> 'a) \<Rightarrow> 'a ring \<Rightarrow> ('a \<times> 'a ring) option res" where
  "ring_pop moved q =
     (if isEmptyNoLock q then Inr None
      else assertR (\<not> isEmptyNoLock q) (
        let i = i32_to_size (m_nowQueueHead q)
        in if i < length (m_BoundedBlockQueue q) then
             let front = m_BoundedBlockQueue q ! i
             in Inr (Some (front, q\<lparr>m_BoundedBlockQueue := (m_BoundedBlockQueue q)[i := moved front],
               m_nowQueueHead := to_i32 (int (next_index (length (m_BoundedBlockQueue q)) (m_nowQueueHead q)))\<rparr>))
           else Inl Undefined))"

text \<open>The items held, oldest first.\<close>

definition ring_len :: "'a ring \<Rightarrow> nat" where
  "ring_len q =
     (nat (m_nowQueueTail q) + length (m_BoundedBlockQueue q) - nat (m_nowQueueHead q)) mod length (m_BoundedBlockQueue q)"

definition ring_items :: "'a ring \<Rightarrow> 'a list" where
  "ring_items q =
     map (\<lambda>k. m_BoundedBlockQueue q ! ((nat (m_nowQueueHead q) + k) mod length (m_BoundedBlockQueue q))) [0..<ring_len q]"

definition ring_inv :: "nat \<Rightarrow> 'a ring \<Rightarrow> bool" where
  "ring_inv N q \<longleftrightarrow> 0 < N \<and> N \<le> 2 ^ 31 - 1 \<and> length (m_BoundedBlockQueue q) = N \<and>
     0 \<le> m_nowQueueHead q \<and> m_nowQueueHead q < int N \<and> 0 \<le> m_nowQueueTail q \<and> m_nowQueueTail q < int N"

lemma length_ring_items [simp]: "length (ring_items q) = ring_len q"
  by (simp add: ring_items_def)

lemma ring_items_nth: "k < ring_len q \<Longrightarrow>
    ring_items q ! k = m_BoundedBlockQueue q ! ((nat (m_nowQueueHead q) + k) mod length (m_BoundedBlockQueue q))"
  by (simp add: ring_items_def)

lemma next_index_ok:
  assumes "0 \<le> i" "i < int N" "N \<le> 2 ^ 31 - 1"
  shows "next_index N i = Suc (nat i) mod N"
    and "to_i32 (int (next_index N i)) = int (Suc (nat i) mod N)"
proof -
  have "i + 1 < 2 ^ 31" using assms by simp
  then show *: "next_index N i = Suc (nat i) mod N"
    using assms by (simp add: next_index_def i32_to_size_nonneg nat_add_distrib)
  have "Suc (nat i) mod N < N" using assms by simp
  with assms(3) have "Suc (nat i) mod N < 2147483648" by simp
  then have "int (Suc (nat i) mod N) < 2 ^ 31" by simp
  then show "to_i32 (int (next_index N i)) = int (Suc (nat i) mod N)"
    unfolding * by (intro to_i32_id) simp_all
qed

text \<open>The indices as natural numbers.\<close>

lemma ring_shape:
  assumes "ring_inv N q"
  obtains h t where "m_nowQueueHead q = int h" "m_nowQueueTail q = int t" "h < N" "t < N"
    "0 < N" "length (m_BoundedBlockQueue q) = N"
    "i32_to_size (m_nowQueueHead q) = h" "i32_to_size (m_nowQueueTail q) = t"
    "next_index N (int h) = Suc h mod N" "to_i32 (int (Suc h mod N)) = int (Suc h mod N)"
    "next_index N (int t) = Suc t mod N" "to_i32 (int (Suc t mod N)) = int (Suc t mod N)"
    "ring_len q = (t + N - h) mod N"
proof -
  obtain h t where ht: "m_nowQueueHead q = int h" "m_nowQueueTail q = int t"
    using assms by (auto simp: ring_inv_def dest!: zero_le_imp_eq_int)
  have N: "h < N" "t < N" "N \<le> 2 ^ 31 - 1" using assms ht by (auto simp: ring_inv_def)
  then have b: "int h < 2 ^ 31" "int t < 2 ^ 31" by simp_all
  show thesis
    using that [OF ht N(1,2)] assms ht N b next_index_ok [of "int h" N] next_index_ok [of "int t" N]
    by (simp add: ring_inv_def ring_len_def i32_to_size_nonneg)
qed

lemma ring_full:
  assumes "ring_inv N q"
  shows "isFullNoLock q \<longleftrightarrow> ring_len q = N - 1"
proof -
  from assms obtain h t where s: "m_nowQueueHead q = int h" "m_nowQueueTail q = int t" "h < N" "t < N"
    "length (m_BoundedBlockQueue q) = N" "i32_to_size (m_nowQueueHead q) = h"
    "next_index N (int t) = Suc t mod N" "ring_len q = (t + N - h) mod N"
    by (rule ring_shape)
  have "Suc t mod N = h \<longleftrightarrow> (if h \<le> t then t - h else t + N - h) = N - 1"
  proof (cases "Suc t = N")
    case True
    then have "Suc t mod N = 0" by simp
    show ?thesis unfolding \<open>Suc t mod N = 0\<close> using True s(3) by (auto split: if_splits)
  next
    case False
    with s(4) have eq: "Suc t mod N = Suc t" by simp
    show ?thesis unfolding eq using False s(3,4) by (auto split: if_splits)
  qed
  then show ?thesis using s by (simp add: isFullNoLock_def span_wrap)
qed

lemma ring_empty:
  assumes "ring_inv N q"
  shows "isEmptyNoLock q \<longleftrightarrow> ring_len q = 0"
proof -
  from assms obtain h t where s: "m_nowQueueHead q = int h" "m_nowQueueTail q = int t" "h < N" "t < N"
    "ring_len q = (t + N - h) mod N"
    by (rule ring_shape)
  then show ?thesis by (auto simp: isEmptyNoLock_def span_wrap split: if_splits)
qed

lemma ring_len_less:
  assumes "ring_inv N q"
  shows "ring_len q < N"
  using assms by (simp add: ring_inv_def ring_len_def)

lemma ring_push_ok:
  assumes i: "ring_inv N q" and f: "\<not> isFullNoLock q"
  shows "\<exists>q'. ring_push x q = Inr (Some q') \<and> ring_inv N q' \<and> ring_items q' = ring_items q @ [x]"
proof -
  from i obtain h t where s: "m_nowQueueHead q = int h" "m_nowQueueTail q = int t" "h < N" "t < N"
    "0 < N" "length (m_BoundedBlockQueue q) = N" "i32_to_size (m_nowQueueTail q) = t"
    "next_index N (int t) = Suc t mod N" "to_i32 (int (Suc t mod N)) = int (Suc t mod N)"
    "ring_len q = (t + N - h) mod N"
    by (rule ring_shape)
  let ?q = "q\<lparr>m_BoundedBlockQueue := (m_BoundedBlockQueue q)[t := x], m_nowQueueTail := int (Suc t mod N)\<rparr>"
  have "ring_len q \<noteq> N - 1" using f ring_full [OF i] by simp
  then have len: "ring_len ?q = Suc (ring_len q)"
    using span_push [OF s(3,4)] s by (simp add: ring_len_def)
  have "ring_items ?q = ring_items q @ [x]"
  proof (rule nth_equalityI)
    fix k assume "k < length (ring_items ?q)"
    then have k: "k < Suc (ring_len q)" by (simp add: len)
    show "ring_items ?q ! k = (ring_items q @ [x]) ! k"
    proof (cases "k = ring_len q")
      case True
      have "(h + ring_len q) mod N = t" using s by (simp add: add_mod_self)
      with True s show ?thesis by (simp add: ring_items_nth len nth_append)
    next
      case False
      with k have "k < ring_len q" by simp
      moreover from this have "(h + k) mod N \<noteq> t"
        using add_mod_inj [of h N k "ring_len q"] add_mod_self [of h N t] s(3,4,10) ring_len_less [OF i] by auto
      ultimately show ?thesis using s by (simp add: ring_items_nth len nth_append)
    qed
  qed (simp add: len)
  moreover have "ring_push x q = Inr (Some ?q)" using f s by (simp add: ring_push_def Let_def)
  moreover have "int (Suc t mod N) < int N" using s(5) by simp
  then have "ring_inv N ?q" using i by (simp add: ring_inv_def)
  ultimately show ?thesis by blast
qed

lemma ring_pop_ok:
  assumes i: "ring_inv N q" and f: "\<not> isEmptyNoLock q"
  shows "\<exists>q'. ring_pop moved q = Inr (Some (hd (ring_items q), q')) \<and> ring_inv N q' \<and> ring_items q' = tl (ring_items q)"
proof -
  from i obtain h t where s: "m_nowQueueHead q = int h" "m_nowQueueTail q = int t" "h < N" "t < N"
    "0 < N" "length (m_BoundedBlockQueue q) = N" "i32_to_size (m_nowQueueHead q) = h"
    "next_index N (int h) = Suc h mod N" "to_i32 (int (Suc h mod N)) = int (Suc h mod N)"
    "ring_len q = (t + N - h) mod N"
    by (rule ring_shape)
  let ?f = "m_BoundedBlockQueue q ! h"
  let ?q = "q\<lparr>m_BoundedBlockQueue := (m_BoundedBlockQueue q)[h := moved ?f], m_nowQueueHead := int (Suc h mod N)\<rparr>"
  have "ring_len q \<noteq> 0" using f ring_empty [OF i] by simp
  then have len: "Suc (ring_len ?q) = ring_len q"
    using span_pop [OF s(3,4)] s by (simp add: ring_len_def)
  have front: "hd (ring_items q) = ?f"
    using ring_items_nth [of 0 q] s len by (simp add: hd_conv_nth flip: length_greater_0_conv)
  have "ring_items ?q = tl (ring_items q)"
  proof (rule nth_equalityI)
    fix k assume "k < length (ring_items ?q)"
    then have k: "Suc k < ring_len q" using len by simp
    have "(h + Suc k) mod N \<noteq> h"
      using add_mod_inj [of h N "Suc k" 0] k s(3) ring_len_less [OF i] by auto
    moreover have "(Suc h mod N + k) mod N = (h + Suc k) mod N" by (simp add: mod_add_left_eq)
    ultimately show "ring_items ?q ! k = tl (ring_items q) ! k"
      using k s len by (simp add: ring_items_nth nth_tl)
  qed (use len in simp)
  moreover have "ring_pop moved q = Inr (Some (hd (ring_items q), ?q))"
    using f s by (simp add: ring_pop_def Let_def front)
  moreover have "int (Suc h mod N) < int N" using s(5) by simp
  then have "ring_inv N ?q" using i by (simp add: ring_inv_def)
  ultimately show ?thesis by blast
qed

interpretation ring: blocking_queue "ring_inv N" ring_items isFullNoLock ring_push "ring_pop moved"
proof
  fix q :: "'a ring" and x assume "ring_inv N q" "isFullNoLock q"
  then show "ring_push x q = Inr None" by (simp add: ring_push_def)
next
  fix q :: "'a ring" and x assume "ring_inv N q" "\<not> isFullNoLock q"
  then show "\<exists>q'. ring_push x q = Inr (Some q') \<and> ring_inv N q' \<and> ring_items q' = ring_items q @ [x]"
    by (rule ring_push_ok)
next
  fix q :: "'a ring" assume "ring_inv N q" "ring_items q = []"
  then show "ring_pop moved q = Inr None" using ring_empty [of N q] by (simp add: ring_pop_def flip: length_0_conv)
next
  fix q :: "'a ring" and x xs assume *: "ring_inv N q" "ring_items q = x # xs"
  then have "\<not> isEmptyNoLock q" using ring_empty [of N q] by (metis length_ring_items length_0_conv list.distinct(1))
  from ring_pop_ok [OF *(1) this, of moved] *(2)
  show "\<exists>q'. ring_pop moved q = Inr (Some (x, q')) \<and> ring_inv N q' \<and> ring_items q' = xs" by simp
qed

text \<open>
  C31. The bounded queue is a first-in first-out queue of capacity \<open>N - 1\<close>: whatever threads push
  and pop, no assertion fails and no index leaves the array, what came out followed by what is
  held is what went in, in order, at most \<open>N - 1\<close> items are held, and the next push waits exactly
  when \<open>N - 1\<close> are held and the next pop exactly when none is.
\<close>

theorem bounded_queue_fifo:
  assumes "0 < length arr" "length arr \<le> 2 ^ 31 - 1"
  shows "\<exists>q ins outs. bq_run ring_push (ring_pop moved) ops (new_ring arr) = Inr (q, ins, outs)
    \<and> ins = outs @ ring_items q \<and> length (ring_items q) < length arr
    \<and> (ring_push x q = Inr None \<longleftrightarrow> length (ring_items q) = length arr - 1)
    \<and> (ring_pop moved q = Inr None \<longleftrightarrow> ring_items q = [])"
proof -
  have n: "ring_inv (length arr) (new_ring arr)" "ring_items (new_ring arr) = []"
    using assms by (simp_all add: ring_inv_def new_ring_def ring_items_def ring_len_def)
  from ring.fifo [OF n(1), of moved ops] n(2) obtain q ins outs where
    q: "bq_run ring_push (ring_pop moved) ops (new_ring arr) = Inr (q, ins, outs)" "ring_inv (length arr) q"
    "ins = outs @ ring_items q" by auto
  have "ring_push x q = Inr None \<longleftrightarrow> length (ring_items q) = length arr - 1"
    using ring.push_cases [OF q(2), of x] ring_full [OF q(2)] by auto
  moreover have "ring_pop moved q = Inr None \<longleftrightarrow> ring_items q = []"
    using ring.pop_cases [OF q(2), of moved] by auto
  ultimately show ?thesis using q ring_len_less [OF q(2)] by auto
qed

lemma bounded_queue_fifo_witness:
  "\<exists>q ins outs. bq_run ring_push (ring_pop (\<lambda>x. x)) [Push 7, Pop, Push 8, Push 9, Push (10 :: int)] (new_ring [0, 0, 0])
     = Inr (q, ins, outs) \<and> ins = outs @ ring_items q \<and> length (ring_items q) < 3"
proof -
  let ?ops = "[Push 7, Pop, Push 8, Push 9, Push (10 :: int)]"
  have l: "0 < length [0, 0, 0 :: int]" "length [0, 0, 0 :: int] \<le> 2 ^ 31 - 1" "length [0, 0, 0 :: int] = 3" by simp_all
  from bounded_queue_fifo [OF l(1,2), of "\<lambda>x. x" ?ops 0] show ?thesis unfolding l(3) by blast
qed

section \<open>The condition variables\<close>

text \<open>
  The threads at a bounded queue, counted: those asleep on \<open>m_condIsEmpty\<close> and \<open>m_condIsFull\<close>, and
  those notified on each that have not taken the mutex again. A notified thread goes back to the
  test of its \<open>while\<close> loop.
\<close>

record 'a waiters =
  bq :: "'a ring"
  sleepEmpty :: nat
  wokenEmpty :: nat
  sleepFull :: nat
  wokenFull :: nat

definition notifyEmpty :: "'a waiters \<Rightarrow> 'a waiters" where
  "notifyEmpty s =
     (if 0 < sleepEmpty s then s\<lparr>sleepEmpty := sleepEmpty s - 1, wokenEmpty := wokenEmpty s + 1\<rparr> else s)"

definition notifyFull :: "'a waiters \<Rightarrow> 'a waiters" where
  "notifyFull s =
     (if 0 < sleepFull s then s\<lparr>sleepFull := sleepFull s - 1, wokenFull := wokenFull s + 1\<rparr> else s)"

text \<open>A thread inside \<open>push\<close> or \<open>pop\<close> holds the mutex at the test of the loop.\<close>

definition push_attempt :: "'a \<Rightarrow> 'a waiters \<Rightarrow> 'a waiters res" where
  "push_attempt x s =
     bindR (ring_push x (bq s)) (\<lambda>r. case r of
       None \<Rightarrow> Inr (s\<lparr>sleepFull := sleepFull s + 1\<rparr>)
     | Some q \<Rightarrow> Inr (notifyEmpty (s\<lparr>bq := q\<rparr>)))"

definition pop_attempt :: "('a \<Rightarrow> 'a) \<Rightarrow> 'a waiters \<Rightarrow> 'a waiters res" where
  "pop_attempt moved s =
     bindR (ring_pop moved (bq s)) (\<lambda>r. case r of
       None \<Rightarrow> Inr (s\<lparr>sleepEmpty := sleepEmpty s + 1\<rparr>)
     | Some (x, q) \<Rightarrow> Inr (notifyFull (s\<lparr>bq := q\<rparr>)))"

inductive bq_step :: "('a \<Rightarrow> 'a) \<Rightarrow> 'a waiters \<Rightarrow> 'a waiters \<Rightarrow> bool" for moved where
  enter_push: "push_attempt x s = Inr s' \<Longrightarrow> bq_step moved s s'"
| enter_pop: "pop_attempt moved s = Inr s' \<Longrightarrow> bq_step moved s s'"
| woken_push: "0 < wokenFull s \<Longrightarrow> push_attempt x (s\<lparr>wokenFull := wokenFull s - 1\<rparr>) = Inr s' \<Longrightarrow> bq_step moved s s'"
| woken_pop: "0 < wokenEmpty s \<Longrightarrow> pop_attempt moved (s\<lparr>wokenEmpty := wokenEmpty s - 1\<rparr>) = Inr s' \<Longrightarrow> bq_step moved s s'"
| spurious_full: "0 < sleepFull s \<Longrightarrow> bq_step moved s (s\<lparr>sleepFull := sleepFull s - 1, wokenFull := wokenFull s + 1\<rparr>)"
| spurious_empty: "0 < sleepEmpty s \<Longrightarrow> bq_step moved s (s\<lparr>sleepEmpty := sleepEmpty s - 1, wokenEmpty := wokenEmpty s + 1\<rparr>)"

definition bq_init :: "nat \<Rightarrow> 'a waiters \<Rightarrow> bool" where
  "bq_init N s \<longleftrightarrow> (\<exists>arr. length arr = N \<and> bq s = new_ring arr) \<and> 0 < N \<and> N \<le> 2 ^ 31 - 1
     \<and> sleepEmpty s = 0 \<and> wokenEmpty s = 0 \<and> sleepFull s = 0 \<and> wokenFull s = 0"

definition bq_inv :: "nat \<Rightarrow> 'a waiters \<Rightarrow> bool" where
  "bq_inv N s \<longleftrightarrow> ring_inv N (bq s)
     \<and> (0 < sleepEmpty s \<longrightarrow> ring_len (bq s) \<le> wokenEmpty s)
     \<and> (0 < sleepFull s \<longrightarrow> N - 1 - ring_len (bq s) \<le> wokenFull s)"

text \<open>The thread's own wake-up, when it was notified, is used up by the attempt.\<close>

lemma push_attempt_inv:
  assumes "ring_inv N (bq s)" "0 < sleepEmpty s \<longrightarrow> ring_len (bq s) \<le> wokenEmpty s"
    and "0 < sleepFull s \<longrightarrow> N - 1 - ring_len (bq s) \<le> Suc (wokenFull s)"
    and "push_attempt x s = Inr s'"
  shows "bq_inv N s'"
proof -
  from ring.push_cases [OF assms(1), of x] show ?thesis
  proof (elim disjE conjE exE)
    assume "isFullNoLock (bq s)" "ring_push x (bq s) = Inr None"
    with assms ring_full [OF assms(1)] show ?thesis by (auto simp: push_attempt_def bq_inv_def)
  next
    fix q assume q: "ring_push x (bq s) = Inr (Some q)" "ring_inv N q" "ring_items q = ring_items (bq s) @ [x]"
    then have "ring_len q = Suc (ring_len (bq s))" by (simp flip: length_ring_items)
    with q assms show ?thesis by (auto simp: push_attempt_def bq_inv_def notifyEmpty_def)
  qed
qed

lemma pop_attempt_inv:
  assumes "ring_inv N (bq s)" "0 < sleepEmpty s \<longrightarrow> ring_len (bq s) \<le> Suc (wokenEmpty s)"
    and "0 < sleepFull s \<longrightarrow> N - 1 - ring_len (bq s) \<le> wokenFull s"
    and "pop_attempt moved s = Inr s'"
  shows "bq_inv N s'"
proof -
  from ring.pop_cases [OF assms(1), of moved] show ?thesis
  proof (elim disjE conjE exE)
    assume "ring_items (bq s) = []" "ring_pop moved (bq s) = Inr None"
    moreover from this(1) have "ring_len (bq s) = 0" by (simp flip: length_ring_items)
    ultimately show ?thesis using assms by (auto simp: pop_attempt_def bq_inv_def)
  next
    fix x q assume q: "ring_pop moved (bq s) = Inr (Some (x, q))" "ring_inv N q" "ring_items (bq s) = x # ring_items q"
    then have "ring_len (bq s) = Suc (ring_len q)" by (simp flip: length_ring_items)
    with q assms show ?thesis by (auto simp: pop_attempt_def bq_inv_def notifyFull_def)
  qed
qed

interpretation waiting: state_invariant "bq_init N" "bq_step moved" "bq_inv N"
proof
  fix s :: "'a waiters" assume "bq_init N s"
  then show "bq_inv N s" by (auto simp: bq_init_def bq_inv_def ring_inv_def new_ring_def)
next
  fix s s' :: "'a waiters" assume "bq_step moved s s'" "bq_inv N s"
  then show "bq_inv N s'"
  proof (cases rule: bq_step.cases)
    case (enter_push x)
    with \<open>bq_inv N s\<close> show ?thesis by (intro push_attempt_inv [OF _ _ _ enter_push]) (auto simp: bq_inv_def)
  next
    case enter_pop
    with \<open>bq_inv N s\<close> show ?thesis by (intro pop_attempt_inv [OF _ _ _ enter_pop]) (auto simp: bq_inv_def)
  next
    case (woken_push x)
    with \<open>bq_inv N s\<close> show ?thesis by (intro push_attempt_inv [OF _ _ _ woken_push(2)]) (auto simp: bq_inv_def)
  next
    case woken_pop
    with \<open>bq_inv N s\<close> show ?thesis by (intro pop_attempt_inv [OF _ _ _ woken_pop(2)]) (auto simp: bq_inv_def)
  qed (use \<open>bq_inv N s\<close> in \<open>auto simp: bq_inv_def\<close>)
qed

text \<open>
  C32. No wake-up is lost at a bounded queue: in every state the threads can reach, if a thread
  sleeps in \<open>pop\<close> while items are held then at least as many notified threads as items are on
  their way to take them, and if a thread sleeps in \<open>push\<close> while there is room then as many as
  there are free places are on their way to fill them.
\<close>

theorem no_stuck_waiter:
  assumes "reachable (bq_init N) (bq_step moved) s"
  shows "(0 < sleepEmpty s \<longrightarrow> length (ring_items (bq s)) \<le> wokenEmpty s)
    \<and> (0 < sleepFull s \<longrightarrow> N - 1 - length (ring_items (bq s)) \<le> wokenFull s)"
  using waiting.inv_reachable [OF assms] by (simp add: bq_inv_def)

definition two_sleepers :: "nat waiters" where
  "two_sleepers =
     \<lparr>bq = \<lparr>m_BoundedBlockQueue = [5, 0], m_nowQueueHead = 0, m_nowQueueTail = 1\<rparr>,
      sleepEmpty = 1, wokenEmpty = 1, sleepFull = 0, wokenFull = 0\<rparr>"

lemma two_sleepers_reachable: "reachable (bq_init 2) (bq_step (\<lambda>x. x)) two_sleepers"
proof -
  let ?s = "\<lambda>n. \<lparr>bq = new_ring [0, 0 :: nat], sleepEmpty = n, wokenEmpty = 0, sleepFull = 0, wokenFull = 0\<rparr>"
  have 0: "reachable (bq_init 2) (bq_step (\<lambda>x. x)) (?s 0)"
    by (rule reachable_init) (auto simp: bq_init_def intro!: exI [of _ "[0, 0]"])
  have 1: "bq_step (\<lambda>x. x) (?s n) (?s (Suc n))" for n
    by (rule enter_pop) (simp add: pop_attempt_def ring_pop_def isEmptyNoLock_def new_ring_def)
  have 2: "bq_step (\<lambda>x. x) (?s 2) two_sleepers"
    by (rule enter_push [of 5])
      (simp add: push_attempt_def ring_push_def isFullNoLock_def new_ring_def notifyEmpty_def two_sleepers_def
        next_index_def i32_to_size_def to_i32_def Let_def)
  have "reachable (bq_init 2) (bq_step (\<lambda>x. x)) (?s 2)"
    using reachable_step [OF reachable_step [OF 0 1] 1] by (simp add: numeral_2_eq_2)
  then show ?thesis by (rule reachable_step) (rule 2)
qed

lemma no_stuck_waiter_witness: "length (ring_items (bq two_sleepers)) \<le> wokenEmpty two_sleepers"
  using no_stuck_waiter [OF two_sleepers_reachable] by (simp add: two_sleepers_def)

section \<open>The thread pool\<close>

text \<open>
  Where a thread running \<open>runner\<close> is: at the test of the outer loop, at the test of the inner loop
  with \<open>m_mux\<close> held, past that test and about to wait, asleep, notified, in a task, or out of the
  loop.
\<close>

datatype 'a runner = Outer | Inner | About_to_wait | Asleep | Notified | In_task 'a | Left

record 'a pool =
  m_taskQueue :: "'a list"
  m_running :: bool
  m_threads :: "'a runner list"

definition new_pool :: "nat \<Rightarrow> 'a pool" where
  "new_pool N = \<lparr>m_taskQueue = [], m_running = True, m_threads = replicate N Outer\<rparr>"

definition mutex_free :: "'a pool \<Rightarrow> bool" where
  "mutex_free p \<longleftrightarrow> Inner \<notin> set (m_threads p) \<and> About_to_wait \<notin> set (m_threads p)"

definition set_thread :: "nat \<Rightarrow> 'a runner \<Rightarrow> 'a pool \<Rightarrow> 'a pool" where
  "set_thread i r p = p\<lparr>m_threads := (m_threads p)[i := r]\<rparr>"

text \<open>One step of thread \<open>i\<close>; \<open>None\<close> where it cannot go on by itself.\<close>

definition runner_step :: "nat \<Rightarrow> 'a pool \<Rightarrow> 'a pool option" where
  "runner_step i p =
     (case m_threads p ! i of
        Outer \<Rightarrow> if \<not> m_running p then Some (set_thread i Left p)
                 else if mutex_free p then Some (set_thread i Inner p) else None
      | Inner \<Rightarrow> if m_taskQueue p = [] \<and> m_running p then Some (set_thread i About_to_wait p)
                 else if \<not> m_running p then Some (set_thread i Left p)
                 else Some (set_thread i (In_task (hd (m_taskQueue p))) (p\<lparr>m_taskQueue := tl (m_taskQueue p)\<rparr>))
      | About_to_wait \<Rightarrow> Some (set_thread i Asleep p)
      | Asleep \<Rightarrow> None
      | Notified \<Rightarrow> if mutex_free p then Some (set_thread i Inner p) else None
      | In_task t \<Rightarrow> Some (set_thread i Outer p)
      | Left \<Rightarrow> None)"

text \<open>
  \<open>pushTask\<close> and \<open>stop\<close> take no mutex. \<open>wake\<close> is the thread \<open>notify_one\<close> picks, if one sleeps.
\<close>

definition pushTask :: "'a \<Rightarrow> nat \<Rightarrow> 'a pool \<Rightarrow> 'a pool" where
  "pushTask t wake p =
     (let p = p\<lparr>m_taskQueue := m_taskQueue p @ [t]\<rparr>
      in if wake < length (m_threads p) \<and> m_threads p ! wake = Asleep then set_thread wake Notified p else p)"

definition stop_notify :: "'a pool \<Rightarrow> 'a pool" where
  "stop_notify p =
     p\<lparr>m_running := False, m_threads := map (\<lambda>r. case r of Asleep \<Rightarrow> Notified | _ \<Rightarrow> r) (m_threads p)\<rparr>"

definition strat :: "'a pool \<Rightarrow> 'a pool" where
  "strat p = p\<lparr>m_running := True\<rparr>"

definition joinable :: "'a pool \<Rightarrow> bool" where
  "joinable p \<longleftrightarrow> (\<forall>r \<in> set (m_threads p). r = Left)"

text \<open>
  The owner of the pool: whether its threads have been joined, and whether it is inside \<open>stop\<close>. A thread
  that was joined is not joinable, so joining it again throws \<open>std::system_error\<close>, and destroying the
  array of threads that were not joined calls \<open>std::terminate\<close>.
\<close>

record 'a pool_life =
  pl_pool :: "'a pool"
  pl_joining :: bool
  pl_joined :: bool

definition new_pool_life :: "nat \<Rightarrow> 'a pool_life" where
  "new_pool_life N = \<lparr>pl_pool = new_pool N, pl_joining = False, pl_joined = False\<rparr>"

definition pool_stop :: "'a pool_life \<Rightarrow> 'a pool_life" where
  "pool_stop o' = o'\<lparr>pl_pool := stop_notify (pl_pool o'), pl_joining := True\<rparr>"

text \<open>The loop of \<open>join\<close>s; \<open>None\<close> while a thread runs, \<open>Inl Terminate\<close> where the exception is not caught.\<close>

definition pool_join :: "'a pool_life \<Rightarrow> 'a pool_life res option" where
  "pool_join o' =
     (if m_threads (pl_pool o') = [] then Some (Inr (o'\<lparr>pl_joining := False\<rparr>))
      else if pl_joined o' then Some (Inl Terminate)
      else if joinable (pl_pool o') then Some (Inr (o'\<lparr>pl_joining := False, pl_joined := True\<rparr>))
      else None)"

text \<open>The destructor: \<open>stop\<close> where the pool runs, then the array of threads.\<close>

definition delete_threads :: "'a pool_life \<Rightarrow> unit res" where
  "delete_threads o' = (if pl_joined o' \<or> m_threads (pl_pool o') = [] then Inr () else Inl Terminate)"

definition delete_ThreadPool :: "'a pool_life \<Rightarrow> unit res option" where
  "delete_ThreadPool o' =
     (if m_running (pl_pool o') then
        map_option (\<lambda>r. bindR r delete_threads) (pool_join (pool_stop o'))
      else Some (delete_threads o'))"

text \<open>\<open>notify_one\<close> finds no thread asleep, or wakes one of those that are.\<close>

inductive pool_step :: "'a pool \<Rightarrow> 'a pool \<Rightarrow> bool" where
  run_step: "i < length (m_threads p) \<Longrightarrow> runner_step i p = Some p' \<Longrightarrow> pool_step p p'"
| push_step: "Asleep \<notin> set (m_threads p) \<or> wake < length (m_threads p) \<and> m_threads p ! wake = Asleep
    \<Longrightarrow> pool_step p (pushTask t wake p)"
| stop_step: "pool_step p (stop_notify p)"
| spurious_step: "i < length (m_threads p) \<Longrightarrow> m_threads p ! i = Asleep \<Longrightarrow> pool_step p (set_thread i Notified p)"

inductive_cases pool_stepE: "pool_step p p'"

text \<open>
  The invariant of the pool: at most one thread holds the mutex, no thread leaves while the pool runs, and
  after \<open>stop\<close> at most one thread sleeps or is about to: the one that had passed its test with the mutex.
  \<open>strat\<close> is not a step, because nothing calls it.
\<close>

fun holds_mutex :: "'a runner \<Rightarrow> bool" where
  "holds_mutex Inner = True"
| "holds_mutex About_to_wait = True"
| "holds_mutex _ = False"

fun waits :: "'a runner \<Rightarrow> bool" where
  "waits About_to_wait = True"
| "waits Asleep = True"
| "waits _ = False"

definition pool_inv :: "nat \<Rightarrow> 'a pool \<Rightarrow> bool" where
  "pool_inv N p \<longleftrightarrow> length (m_threads p) = N \<and> length (filter holds_mutex (m_threads p)) \<le> 1
     \<and> (m_running p \<longrightarrow> Left \<notin> set (m_threads p))
     \<and> (\<not> m_running p \<longrightarrow> length (filter waits (m_threads p)) \<le> 1)"

lemma filter_update:
  "i < length xs \<Longrightarrow>
    length (filter P (xs[i := y])) + of_bool (P (xs ! i)) = length (filter P xs) + of_bool (P y)"
proof (induction xs arbitrary: i)
  case (Cons x xs)
  then show ?case by (cases i) auto
qed simp

lemma pool_inv_set_thread:
  assumes "pool_inv N p" "i < length (m_threads p)"
    and "holds_mutex r \<longrightarrow> holds_mutex (m_threads p ! i) \<or> filter holds_mutex (m_threads p) = []"
    and "m_running p \<longrightarrow> r \<noteq> Left"
    and "\<not> m_running p \<longrightarrow> waits r \<longrightarrow> waits (m_threads p ! i)"
  shows "pool_inv N (set_thread i r p)"
  using assms filter_update [OF assms(2), of holds_mutex r] filter_update [OF assms(2), of waits r]
  by (auto simp: pool_inv_def set_thread_def of_bool_def split: if_splits dest: subsetD [OF set_update_subset_insert])

lemma mutex_free_iff: "mutex_free p \<longleftrightarrow> filter holds_mutex (m_threads p) = []"
proof -
  have "holds_mutex r \<longleftrightarrow> r = Inner \<or> r = About_to_wait" for r :: "'a runner" by (cases r) simp_all
  then show ?thesis by (auto simp: mutex_free_def filter_empty_conv)
qed

lemma pool_inv_queue [simp]: "pool_inv N (p\<lparr>m_taskQueue := q\<rparr>) = pool_inv N p"
  by (simp add: pool_inv_def)

lemma pool_inv_run:
  assumes "pool_inv N p" "i < length (m_threads p)" "runner_step i p = Some p'"
  shows "pool_inv N p'"
  using assms
  by (cases "m_threads p ! i")
    (auto simp: runner_step_def mutex_free_iff intro!: pool_inv_set_thread split: if_splits)

lemma pool_inv_stop: "pool_inv N p \<Longrightarrow> pool_inv N (stop_notify p)"
proof -
  let ?w = "\<lambda>r :: 'a runner. case r of Asleep \<Rightarrow> Notified | _ \<Rightarrow> r"
  have h: "holds_mutex (?w r) = holds_mutex r" "waits (?w r) \<Longrightarrow> holds_mutex r" for r by (cases r; simp)+
  have "length (filter holds_mutex (map ?w rs)) = length (filter holds_mutex rs)"
    and "length (filter waits (map ?w rs)) \<le> length (filter holds_mutex rs)" for rs
    by (induction rs) (auto simp: h)
  note c = this
  assume "pool_inv N p"
  then show ?thesis using c(1) [of "m_threads p"] c(2) [of "m_threads p"]
    by (simp add: pool_inv_def stop_notify_def)
qed

interpretation pool: state_invariant "\<lambda>p. p = new_pool N" pool_step "pool_inv N" for N
proof
  fix p :: "'a pool" assume "p = new_pool N"
  then show "pool_inv N p" by (simp add: pool_inv_def new_pool_def)
next
  fix p p' :: "'a pool" assume "pool_step p p'" "pool_inv N p"
  then show "pool_inv N p'"
    by (auto elim!: pool_stepE simp: pushTask_def Let_def intro: pool_inv_run pool_inv_stop
        intro!: pool_inv_set_thread)
qed

text \<open>A \<open>stop\<close> that hangs hangs on one thread.\<close>

lemma at_most_one_left_behind:
  assumes "reachable (\<lambda>p. p = new_pool N) pool_step p" "\<not> m_running p"
  shows "length (filter waits (m_threads p)) \<le> 1"
  using pool.inv_reachable [OF assms(1)] assms(2) by (simp add: pool_inv_def)

text \<open>
  A pool that was stopped and joined is destroyed silently; one that is started again after that is joined
  a second time, which ends the program; one that was told to stop but not joined ends it too. The
  destructor of a running pool returns only when every thread has left.
\<close>

lemma pool_destruction:
  assumes "m_threads (pl_pool o') \<noteq> []"
  shows "pl_joined o' \<Longrightarrow> \<not> m_running (pl_pool o') \<Longrightarrow> delete_ThreadPool o' = Some (Inr ())"
    and "pl_joined o' \<Longrightarrow> delete_ThreadPool (o'\<lparr>pl_pool := strat (pl_pool o')\<rparr>) = Some (Inl Terminate)"
    and "\<not> pl_joined o' \<Longrightarrow> \<not> m_running (pl_pool o') \<Longrightarrow> delete_ThreadPool o' = Some (Inl Terminate)"
    and "\<not> pl_joined o' \<Longrightarrow> m_running (pl_pool o') \<Longrightarrow>
      delete_ThreadPool o' = (if joinable (pl_pool o') then Some (Inr ()) else None)"
proof -
  have "(case r of Asleep \<Rightarrow> Notified | _ \<Rightarrow> r) = Left \<longleftrightarrow> r = Left" for r :: "'a runner"
    by (cases r) simp_all
  then have "joinable (stop_notify p) = joinable p" for p :: "'a pool"
    by (simp add: joinable_def stop_notify_def)
  then show "\<not> pl_joined o' \<Longrightarrow> m_running (pl_pool o') \<Longrightarrow>
      delete_ThreadPool o' = (if joinable (pl_pool o') then Some (Inr ()) else None)"
    using assms by (simp add: delete_ThreadPool_def delete_threads_def pool_join_def pool_stop_def stop_notify_def)
qed (use assms in \<open>simp_all add: delete_ThreadPool_def delete_threads_def pool_join_def pool_stop_def strat_def stop_notify_def\<close>)

lemma runner_steps:
  assumes "m_threads p = pre @ r # post"
  shows "set_thread (length pre) r' p = p\<lparr>m_threads := pre @ r' # post\<rparr>"
    and "runner_step (length pre) p = Some p' \<Longrightarrow> pool_step p p'"
  using assms run_step [of "length pre" p p'] by (simp_all add: set_thread_def)

lemma about_to_wait_reachable:
  "reachable (\<lambda>p. p = new_pool (Suc n)) pool_step
     \<lparr>m_taskQueue = [], m_running = True, m_threads = About_to_wait # replicate n (Outer :: 'a runner)\<rparr>"
proof -
  let ?p = "\<lambda>r. \<lparr>m_taskQueue = [], m_running = True, m_threads = r # replicate n (Outer :: 'a runner)\<rparr>"
  have "reachable (\<lambda>p. p = new_pool (Suc n)) pool_step (?p Outer)"
    by (rule reachable_init) (simp add: new_pool_def)
  moreover have "pool_step (?p Outer) (?p Inner)"
    by (rule run_step [of 0]) (auto simp: runner_step_def mutex_free_def set_thread_def)
  moreover have "pool_step (?p Inner) (?p About_to_wait)"
    by (rule run_step [of 0]) (simp_all add: runner_step_def set_thread_def)
  ultimately show ?thesis by (blast intro: reachable_step)
qed

lemma others_leave:
  assumes "reachable init pool_step
     \<lparr>m_taskQueue = q, m_running = False, m_threads = Asleep # replicate k Left @ replicate n (Outer :: 'a runner)\<rparr>"
  shows "reachable init pool_step \<lparr>m_taskQueue = q, m_running = False, m_threads = Asleep # replicate (k + n) Left\<rparr>"
  using assms
proof (induction n arbitrary: k)
  case (Suc n)
  let ?p = "\<lambda>rs. \<lparr>m_taskQueue = q, m_running = False, m_threads = Asleep # replicate k Left @ rs\<rparr>"
  have "pool_step (?p (replicate (Suc n) Outer)) (?p (Left # replicate n Outer))"
    by (rule run_step [of "Suc k"]) (simp_all add: runner_step_def set_thread_def nth_append list_update_append)
  with Suc.prems have "reachable init pool_step (?p (Left # replicate n Outer))" by (blast intro: reachable_step)
  then have "reachable init pool_step
      \<lparr>m_taskQueue = q, m_running = False, m_threads = Asleep # replicate (Suc k) Left @ replicate n Outer\<rparr>"
    by (simp add: replicate_append_same [symmetric])
  from Suc.IH [OF this] show ?case by simp
qed simp

text \<open>
  C33. The thread pool can lose a wake-up, because \<open>pushTask\<close> and \<open>stop\<close> notify without the mutex: a
  pool of one thread can reach a state where a task is queued and its thread sleeps, and a pool of
  any size a state where it has been stopped, one thread sleeps and all others have left. In both no
  thread can take a step of its own: until a later notification or a spurious wake-up the task does not
  run and \<open>stop\<close> does not return from \<open>join\<close>.
\<close>

theorem thread_pool_lost_wakeup:
  "(\<exists>p. reachable (\<lambda>p. p = new_pool 1) pool_step p \<and> m_taskQueue p = [t :: 'a] \<and> m_threads p = [Asleep]
      \<and> runner_step 0 p = None)
    \<and> (\<exists>p :: 'a pool. reachable (\<lambda>p. p = new_pool (Suc n)) pool_step p \<and> \<not> m_running p \<and> \<not> joinable p
      \<and> m_threads p = Asleep # replicate n Left \<and> list_all (\<lambda>i. runner_step i p = None) [0..<Suc n])"
proof (intro conjI)
  let ?p = "\<lambda>q r. \<lparr>m_taskQueue = q, m_running = True, m_threads = [r]\<rparr>"
  have "pool_step (?p [] About_to_wait) (pushTask t 0 (?p [] About_to_wait))"
    by (rule push_step) simp
  then have "pool_step (?p [] About_to_wait) (?p [t] About_to_wait)" by (simp add: pushTask_def Let_def)
  moreover have "pool_step (?p [t] About_to_wait) (?p [t] Asleep)"
    by (rule run_step [of 0]) (simp_all add: runner_step_def set_thread_def)
  ultimately have "reachable (\<lambda>p. p = new_pool 1) pool_step (?p [t] Asleep)"
    using about_to_wait_reachable [of 0] by (auto intro: reachable_step)
  then show "\<exists>p. reachable (\<lambda>p. p = new_pool 1) pool_step p \<and> m_taskQueue p = [t] \<and> m_threads p = [Asleep]
      \<and> runner_step 0 p = None"
    by (intro exI [of _ "?p [t] Asleep"]) (simp add: runner_step_def)
next
  let ?p = "\<lambda>b r. \<lparr>m_taskQueue = [], m_running = b, m_threads = r # replicate n (Outer :: 'a runner)\<rparr>"
  have "pool_step (?p True About_to_wait) (stop_notify (?p True About_to_wait))" by (rule stop_step)
  then have "pool_step (?p True About_to_wait) (?p False About_to_wait)" by (simp add: stop_notify_def)
  moreover have "pool_step (?p False About_to_wait) (?p False Asleep)"
    by (rule run_step [of 0]) (simp_all add: runner_step_def set_thread_def)
  ultimately have "reachable (\<lambda>p. p = new_pool (Suc n)) pool_step (?p False Asleep)"
    using about_to_wait_reachable [of n] by (blast intro: reachable_step)
  then have r: "reachable (\<lambda>p. p = new_pool (Suc n)) pool_step
      \<lparr>m_taskQueue = [] :: 'a list, m_running = False, m_threads = Asleep # replicate n Left\<rparr>" (is "reachable _ _ ?q")
    using others_leave [of _ "[]" 0 n] by simp
  have "runner_step i ?q = None" if "i < Suc n" for i
    using that by (cases i) (simp_all add: runner_step_def)
  then show "\<exists>p :: 'a pool. reachable (\<lambda>p. p = new_pool (Suc n)) pool_step p \<and> \<not> m_running p \<and> \<not> joinable p
      \<and> m_threads p = Asleep # replicate n Left \<and> list_all (\<lambda>i. runner_step i p = None) [0..<Suc n]"
    by (intro exI [of _ ?q] conjI r) (simp_all add: list_all_iff joinable_def)
qed

end
