(* ===== verification/Addresses.thy ===== *)
theory Addresses
  imports Endians Formats
begin

text \<open>
  \<open>src/src/net/InetAddress.h\<close> and \<open>.cc\<close>, and the functions of \<open>SocketOps.cc\<close> on addresses. The union
  of \<open>sockaddr_in\<close> and \<open>sockaddr_in6\<close> is its object representation, 28 bytes, read and written at the
  offsets of the Linux structures. \<open>inet_ntop\<close> and \<open>inet_pton\<close> of the C library are the arguments
  \<open>ntop\<close> and \<open>pton\<close>; a C string in a buffer is the characters before its terminator.
\<close>

section \<open>The address union\<close>

type_synonym sockaddr = "byte list"

definition get_field :: "nat \<Rightarrow> nat \<Rightarrow> sockaddr \<Rightarrow> 'a::len word" where
  "get_field n i a = from_le (take n (drop i a))"

definition put_bytes :: "nat \<Rightarrow> byte list \<Rightarrow> sockaddr \<Rightarrow> sockaddr" where
  "put_bytes i bs a = take i a @ bs @ drop (i + length bs) a"

definition put_field :: "nat \<Rightarrow> nat \<Rightarrow> 'a::len word \<Rightarrow> sockaddr \<Rightarrow> sockaddr" where
  "put_field n i w a = put_bytes i (le_bytes n w) a"

definition AF_INET :: "16 word" where
  "AF_INET = 2"

definition AF_INET6 :: "16 word" where
  "AF_INET6 = 10"

definition family :: "sockaddr \<Rightarrow> 16 word" where
  "family a = get_field 2 0 a"

definition portNetEndian :: "sockaddr \<Rightarrow> 16 word" where
  "portNetEndian a = get_field 2 2 a"

definition port :: "sockaddr \<Rightarrow> 16 word" where
  "port a = networkToHost16 (portNetEndian a)"

definition ipv4NetEndian :: "sockaddr \<Rightarrow> 32 word res" where
  "ipv4NetEndian a = assertR (family a = AF_INET) (Inr (get_field 4 4 a))"

text \<open>The address bytes \<open>sin_addr\<close> and \<open>sin6_addr\<close>.\<close>

definition sin_addr :: "sockaddr \<Rightarrow> byte list" where
  "sin_addr a = take 4 (drop 4 a)"

definition sin6_addr :: "sockaddr \<Rightarrow> byte list" where
  "sin6_addr a = take 16 (drop 8 a)"

definition setScopeId :: "32 word \<Rightarrow> sockaddr \<Rightarrow> sockaddr" where
  "setScopeId scope_id a = (if family a = AF_INET6 then put_field 4 24 scope_id a else a)"

section \<open>Constructors\<close>

definition kInaddrAny :: "32 word" where
  "kInaddrAny = 0"

definition kInaddrLoopback :: "32 word" where
  "kInaddrLoopback = 0x7F000001"

definition in6addr_any :: "byte list" where
  "in6addr_any = replicate 16 0"

definition in6addr_loopback :: "byte list" where
  "in6addr_loopback = replicate 15 0 @ [1]"

text \<open>\<open>mem\<close> is what the object's memory holds before; the IPv4 branch clears 16 bytes of it.\<close>

definition address_of_port :: "sockaddr \<Rightarrow> 16 word \<Rightarrow> bool \<Rightarrow> bool \<Rightarrow> sockaddr" where
  "address_of_port mem portArg loopbackOnly ipv6 =
     (if ipv6 then
        let a = put_bytes 0 (replicate 28 0) mem;
            a = put_field 2 0 AF_INET6 a;
            ip = (if loopbackOnly then in6addr_loopback else in6addr_any);
            a = put_bytes 8 ip a
        in put_field 2 2 (hostToNetwork16 portArg) a
      else
        let a = put_bytes 0 (replicate 16 0) mem;
            a = put_field 2 0 AF_INET a;
            ip = (if loopbackOnly then kInaddrLoopback else kInaddrAny);
            a = put_field 4 4 (hostToNetwork32 ip) a
        in put_field 2 2 (hostToNetwork16 portArg) a)"

text \<open>
  \<open>fromIpPort\<close>: when \<open>inet_pton\<close> refuses the text (\<open>None\<close>) an error is logged, the second component,
  and the address bytes stay as they are.
\<close>

type_synonym pton = "16 word \<Rightarrow> string \<Rightarrow> byte list option"

definition fromIpPort4 :: "pton \<Rightarrow> string \<Rightarrow> 16 word \<Rightarrow> sockaddr \<Rightarrow> sockaddr \<times> bool" where
  "fromIpPort4 pton ip p a =
     (let a = put_field 2 0 AF_INET a;
          a = put_field 2 2 (hostToNetwork16 p) a
      in case pton AF_INET ip of Some bs \<Rightarrow> (put_bytes 4 bs a, False) | None \<Rightarrow> (a, True))"

definition fromIpPort6 :: "pton \<Rightarrow> string \<Rightarrow> 16 word \<Rightarrow> sockaddr \<Rightarrow> sockaddr \<times> bool" where
  "fromIpPort6 pton ip p a =
     (let a = put_field 2 0 AF_INET6 a;
          a = put_field 2 2 (hostToNetwork16 p) a
      in case pton AF_INET6 ip of Some bs \<Rightarrow> (put_bytes 8 bs a, False) | None \<Rightarrow> (a, True))"

definition address_of_ip :: "pton \<Rightarrow> sockaddr \<Rightarrow> string \<Rightarrow> 16 word \<Rightarrow> bool \<Rightarrow> sockaddr \<times> bool" where
  "address_of_ip pton mem ip portArg ipv6 =
     (if ipv6 \<or> CHR '':'' \<in> set ip
      then fromIpPort6 pton ip portArg (put_bytes 0 (replicate 28 0) mem)
      else fromIpPort4 pton ip portArg (put_bytes 0 (replicate 16 0) mem))"

section \<open>Addresses as text\<close>

type_synonym ntop = "16 word \<Rightarrow> byte list \<Rightarrow> string"

definition INET_ADDRSTRLEN :: nat where
  "INET_ADDRSTRLEN = 16"

definition INET6_ADDRSTRLEN :: nat where
  "INET6_ADDRSTRLEN = 46"

text \<open>\<open>inet_ntop\<close> writes its text and a terminator when they fit, and nothing otherwise.\<close>

definition inet_ntop_into :: "nat \<Rightarrow> string \<Rightarrow> string \<Rightarrow> string" where
  "inet_ntop_into n old s = (if length s < n then s else old)"

definition sockets_toIp :: "ntop \<Rightarrow> string \<Rightarrow> nat \<Rightarrow> sockaddr \<Rightarrow> string res" where
  "sockets_toIp ntop old n a =
     (if family a = AF_INET then
        assertR (n \<ge> INET_ADDRSTRLEN) (Inr (inet_ntop_into n old (ntop AF_INET (sin_addr a))))
      else if family a = AF_INET6 then
        assertR (n \<ge> INET6_ADDRSTRLEN) (Inr (inet_ntop_into n old (ntop AF_INET6 (sin6_addr a))))
      else Inr old)"

text \<open>\<open>old\<close> is the C string the buffer holds before, from its second byte on in the IPv6 branch.\<close>

definition sockets_toIpPort :: "ntop \<Rightarrow> string \<Rightarrow> nat \<Rightarrow> sockaddr \<Rightarrow> string res" where
  "sockets_toIpPort ntop old n a =
     (let p = networkToHost16 (portNetEndian a)
      in if family a = AF_INET6 then
           bindR (sockets_toIp ntop (drop 1 old) (n - 1) a) (\<lambda>s.
             let buf = CHR ''['' # s; l = length buf
             in assertR (n > l) (Inr (buf @ fst (snprintf (n - l) ('']:'' @ nat_str (unat p))))))
         else
           bindR (sockets_toIp ntop old n a) (\<lambda>buf.
             let l = length buf
             in assertR (n > l) (Inr (buf @ fst (snprintf (n - l) ('':'' @ nat_str (unat p)))))))"

definition toIp :: "ntop \<Rightarrow> sockaddr \<Rightarrow> string res" where
  "toIp ntop a = sockets_toIp ntop [] 64 a"

definition toIpPort :: "ntop \<Rightarrow> sockaddr \<Rightarrow> string res" where
  "toIpPort ntop a = sockets_toIpPort ntop [] 64 a"

section \<open>The socket's own addresses\<close>

text \<open>
  \<open>getsockname\<close> and \<open>getpeername\<close> write at most 28 bytes over the cleared structure, or fail and
  an error is logged.
\<close>

definition sock_addr :: "byte list option \<Rightarrow> sockaddr \<times> bool" where
  "sock_addr ans =
     (let a = replicate 28 0
      in case ans of Some bs \<Rightarrow> (put_bytes 0 (take 28 bs) a, False) | None \<Rightarrow> (a, True))"

definition isSelfConnect :: "byte list option \<Rightarrow> byte list option \<Rightarrow> bool" where
  "isSelfConnect sockname peername =
     (let localaddr = fst (sock_addr sockname); peeraddr = fst (sock_addr peername)
      in if family localaddr = AF_INET then
           portNetEndian localaddr = portNetEndian peeraddr
           \<and> (get_field 4 4 localaddr :: 32 word) = get_field 4 4 peeraddr
         else if family localaddr = AF_INET6 then
           portNetEndian localaddr = portNetEndian peeraddr \<and> sin6_addr localaddr = sin6_addr peeraddr
         else False)"

text \<open>\<open>resolve\<close> replaces the four address bytes by those the resolver found, if it found any.\<close>

record hostent =
  h_addrtype :: "16 word"
  h_length :: nat
  h_addr :: "byte list"

definition resolve :: "int \<times> hostent option \<Rightarrow> sockaddr \<Rightarrow> (bool \<times> sockaddr) res" where
  "resolve ans out =
     (case ans of (ret, he) \<Rightarrow>
       if ret = 0 \<and> he \<noteq> None then
         assertR (h_addrtype (the he) = AF_INET \<and> h_length (the he) = 4)
           (Inr (True, put_bytes 4 (take 4 (h_addr (the he))) out))
       else Inr (False, out))"

section \<open>Reading what was written\<close>

lemma length_put_bytes [simp]: "i + length bs \<le> length a \<Longrightarrow> length (put_bytes i bs a) = length a"
  by (simp add: put_bytes_def)

lemma length_put_field [simp]: "i + n \<le> length a \<Longrightarrow> length (put_field n i w a) = length a"
  by (simp add: put_field_def)

lemma window_same: "i + length bs \<le> length a \<Longrightarrow> take (length bs) (drop i (put_bytes i bs a)) = bs"
  by (simp add: put_bytes_def)

lemma window_before:
  assumes "i + n \<le> j" "j + length bs \<le> length a"
  shows "take n (drop i (put_bytes j bs a)) = take n (drop i a)"
proof -
  have l: "length (take j a) = j" using assms by simp
  have "take n (drop i (put_bytes j bs a)) = take n (drop i (take j a))"
    using assms l by (simp add: put_bytes_def)
  also have "\<dots> = take n (drop i a)" using assms by (simp add: drop_take min_def)
  finally show ?thesis .
qed

lemma window_after:
  assumes "j + length bs \<le> i" "j + length bs \<le> length a"
  shows "take n (drop i (put_bytes j bs a)) = take n (drop i a)"
proof -
  have "drop i (put_bytes j bs a) = drop (i - (j + length bs)) (drop (j + length bs) a)"
    using assms by (simp add: put_bytes_def)
  also have "\<dots> = drop i a" using assms(1) by simp
  finally show ?thesis by simp
qed

lemma window_field_before: "i + n \<le> j \<Longrightarrow> j + k \<le> length a \<Longrightarrow> take n (drop i (put_field k j w a)) = take n (drop i a)"
  by (simp add: put_field_def window_before)

lemma window_field_after: "j + k \<le> i \<Longrightarrow> j + k \<le> length a \<Longrightarrow> take n (drop i (put_field k j w a)) = take n (drop i a)"
  by (simp add: put_field_def window_after)

lemma get_put_same:
  assumes "LENGTH('a) = 8 * n" "i + n \<le> length a"
  shows "get_field n i (put_field n i w a) = (w :: 'a::len word)"
  using assms window_same [of i "le_bytes n w" a] by (simp add: get_field_def put_field_def from_le_le_bytes)

lemma get_field_windows:
  "i + n \<le> j \<Longrightarrow> j + length bs \<le> length a \<Longrightarrow> get_field n i (put_bytes j bs a) = get_field n i a"
  "i + n \<le> j \<Longrightarrow> j + k \<le> length a \<Longrightarrow> get_field n i (put_field k j w a) = get_field n i a"
  "j + length bs \<le> i \<Longrightarrow> j + length bs \<le> length a \<Longrightarrow> get_field n i (put_bytes j bs a) = get_field n i a"
  "j + k \<le> i \<Longrightarrow> j + k \<le> length a \<Longrightarrow> get_field n i (put_field k j w a) = get_field n i a"
  by (simp_all add: get_field_def window_before window_after window_field_before window_field_after)

lemmas windows = get_field_windows get_put_same

lemma port_network: "networkToHost16 (hostToNetwork16 p) = p"
  by (simp add: endian_defs bswap_bswap)

text \<open>What the constructors leave in the fields.\<close>

lemma fromIpPort4_fields:
  assumes "length a = 28" "pton AF_INET ip = Some bs" "length bs = 4"
  shows "family (fst (fromIpPort4 pton ip p a)) = AF_INET \<and> portNetEndian (fst (fromIpPort4 pton ip p a)) = hostToNetwork16 p
    \<and> sin_addr (fst (fromIpPort4 pton ip p a)) = bs"
  using assms window_same [of 4 bs "put_field 2 2 (hostToNetwork16 p) (put_field 2 0 AF_INET a)"]
  by (simp add: fromIpPort4_def family_def portNetEndian_def sin_addr_def windows Let_def)

lemma fromIpPort6_fields:
  assumes "length a = 28" "pton AF_INET6 ip = Some bs" "length bs = 16"
  shows "family (fst (fromIpPort6 pton ip p a)) = AF_INET6 \<and> portNetEndian (fst (fromIpPort6 pton ip p a)) = hostToNetwork16 p
    \<and> sin6_addr (fst (fromIpPort6 pton ip p a)) = bs"
  using assms window_same [of 8 bs "put_field 2 2 (hostToNetwork16 p) (put_field 2 0 AF_INET6 a)"]
  by (simp add: fromIpPort6_def family_def portNetEndian_def sin6_addr_def windows Let_def)

lemma families_differ [simp]: "AF_INET \<noteq> AF_INET6" "AF_INET6 \<noteq> AF_INET"
  by (simp_all add: AF_INET_def AF_INET6_def)

text \<open>Ports print with at most five digits, so the text fits the 64 bytes.\<close>

lemma length_port_text: "length (nat_str (unat (p :: 16 word))) \<le> 5"
proof -
  have "unat p < 2 ^ 16" using unsigned_less [of p] by simp
  then have "unat p < 10 ^ Suc 4" by simp
  from length_nat_str_le [OF this] show ?thesis by simp
qed

lemma toIp_text:
  assumes "family a = AF_INET \<and> length (ntop AF_INET (sin_addr a)) < 16 \<and> s = ntop AF_INET (sin_addr a)
    \<or> family a = AF_INET6 \<and> length (ntop AF_INET6 (sin6_addr a)) < 46 \<and> s = ntop AF_INET6 (sin6_addr a)"
  shows "toIp ntop a = Inr s"
  using assms by (auto simp: toIp_def sockets_toIp_def INET_ADDRSTRLEN_def INET6_ADDRSTRLEN_def inet_ntop_into_def)

lemma snprintf_fits: "length s < n \<Longrightarrow> fst (snprintf n s) = s"
  by (simp add: snprintf_def)

lemma toIpPort_text4:
  assumes "family a = AF_INET" "length (ntop AF_INET (sin_addr a)) < 16"
  shows "toIpPort ntop a = Inr (ntop AF_INET (sin_addr a) @ '':'' @ nat_str (unat (port a)))"
  using assms length_port_text [of "port a"]
  by (simp add: toIpPort_def sockets_toIpPort_def sockets_toIp_def INET_ADDRSTRLEN_def inet_ntop_into_def Let_def
      snprintf_fits port_def)

lemma toIpPort_text6:
  assumes "family a = AF_INET6" "length (ntop AF_INET6 (sin6_addr a)) < 46"
  shows "toIpPort ntop a = Inr (''['' @ ntop AF_INET6 (sin6_addr a) @ '']:'' @ nat_str (unat (port a)))"
  using assms length_port_text [of "port a"]
  by (simp add: toIpPort_def sockets_toIpPort_def sockets_toIp_def INET6_ADDRSTRLEN_def inet_ntop_into_def Let_def
      snprintf_fits port_def)

section \<open>Properties\<close>

text \<open>
  C34. An address made from text prints as that text: for an IPv4 or IPv6 address whose text the C
  library reads back, with a colon in it exactly for IPv6, the constructor picks the right family
  without being told, \<open>port\<close> is the given port, \<open>toIp\<close> is the text, \<open>toIpPort\<close> appends the port (with
  the IPv6 text in brackets), no assertion fails and nothing is cut off.
\<close>

theorem inet_address_roundtrip:
  assumes "length mem = 28"
    and "af = AF_INET \<and> length bs = 4 \<and> length (ntop af bs) < 16 \<and> CHR '':'' \<notin> set (ntop af bs)
      \<or> af = AF_INET6 \<and> length bs = 16 \<and> length (ntop af bs) < 46 \<and> CHR '':'' \<in> set (ntop af bs)"
    and "pton af (ntop af bs) = Some bs"
  shows "let (a, failed) = address_of_ip pton mem (ntop af bs) p False
    in \<not> failed \<and> family a = af \<and> port a = p \<and> toIp ntop a = Inr (ntop af bs)
      \<and> toIpPort ntop a = Inr (if af = AF_INET then ntop af bs @ '':'' @ nat_str (unat p)
          else ''['' @ ntop af bs @ '']:'' @ nat_str (unat p))"
  using assms(2)
proof (elim disjE conjE)
  assume v4: "af = AF_INET" "length bs = 4" "length (ntop af bs) < 16" "CHR '':'' \<notin> set (ntop af bs)"
  let ?r = "fromIpPort4 pton (ntop af bs) p (put_bytes 0 (replicate 16 0) mem)"
  have "address_of_ip pton mem (ntop af bs) p False = ?r" using v4(4) by (simp add: address_of_ip_def)
  moreover have "\<not> snd ?r" using assms(3) v4(1) by (simp add: fromIpPort4_def Let_def)
  moreover have "family (fst ?r) = AF_INET \<and> portNetEndian (fst ?r) = hostToNetwork16 p \<and> sin_addr (fst ?r) = bs"
    using fromIpPort4_fields [of "put_bytes 0 (replicate 16 0) mem" pton "ntop af bs" bs p] assms v4 by simp
  ultimately show ?thesis
    using toIp_text [of "fst ?r" ntop "ntop af bs"] toIpPort_text4 [of "fst ?r" ntop] v4
    by (simp add: Let_def case_prod_beta port_def port_network)
next
  assume v6: "af = AF_INET6" "length bs = 16" "length (ntop af bs) < 46" "CHR '':'' \<in> set (ntop af bs)"
  let ?r = "fromIpPort6 pton (ntop af bs) p (put_bytes 0 (replicate 28 0) mem)"
  have "address_of_ip pton mem (ntop af bs) p False = ?r" using v6(4) by (simp add: address_of_ip_def)
  moreover have "\<not> snd ?r" using assms(3) v6(1) by (simp add: fromIpPort6_def Let_def)
  moreover have "family (fst ?r) = AF_INET6 \<and> portNetEndian (fst ?r) = hostToNetwork16 p \<and> sin6_addr (fst ?r) = bs"
    using fromIpPort6_fields [of "put_bytes 0 (replicate 28 0) mem" pton "ntop af bs" bs p] assms v6 by simp
  ultimately show ?thesis
    using toIp_text [of "fst ?r" ntop "ntop af bs"] toIpPort_text6 [of "fst ?r" ntop] v6
    by (simp add: Let_def case_prod_beta port_def port_network)
qed

text \<open>The C library's functions on dotted IPv4 addresses.\<close>

definition dotted_ntop :: ntop where
  "dotted_ntop af bs = concat (map (\<lambda>b. nat_str (unat b) @ ''.'') (butlast bs)) @ nat_str (unat (List.last bs))"

fun split_dots :: "string \<Rightarrow> string \<Rightarrow> string list" where
  "split_dots part [] = [part]"
| "split_dots part (c # cs) = (if c = CHR ''.'' then part # split_dots [] cs else split_dots (part @ [c]) cs)"

definition dotted_pton :: pton where
  "dotted_pton af s =
     (let parts = map digits_val (split_dots [] s)
      in if length parts = 4 \<and> list_all (\<lambda>n. n < 256) parts then Some (map of_nat parts) else None)"

lemma dotted_loopback: "dotted_ntop AF_INET [127, 0, 0, 1] = ''127.0.0.1''"
  by (simp add: dotted_ntop_def nat_str.simps [of 127] nat_str.simps [of 12] nat_str.simps [of "Suc 0"] nat_str.simps [of 0]
      digit_char_def char_of_def bit_Suc_0_iff)

lemma dotted_loopback_parse: "dotted_pton AF_INET ''127.0.0.1'' = Some [127, 0, 0, 1]"
  by (simp add: dotted_pton_def digits_val_def char_digit_def Let_def)

lemma inet_address_roundtrip_witness:
  "toIp dotted_ntop (fst (address_of_ip dotted_pton (replicate 28 7) ''127.0.0.1'' 80 False)) = Inr ''127.0.0.1''
    \<and> port (fst (address_of_ip dotted_pton (replicate 28 7) ''127.0.0.1'' 80 False)) = 80"
  using inet_address_roundtrip [of "replicate 28 7" AF_INET "[127, 0, 0, 1]" dotted_ntop dotted_pton 80]
  by (simp add: dotted_loopback dotted_loopback_parse case_prod_beta Let_def)

text \<open>An address in the IPv4 or IPv6 form as the kernel writes it.\<close>

definition sockaddr_of :: "16 word \<Rightarrow> byte list \<Rightarrow> 16 word \<Rightarrow> sockaddr" where
  "sockaddr_of af bs p =
     (if af = AF_INET then le_bytes 2 af @ le_bytes 2 (hostToNetwork16 p) @ bs @ replicate 8 0
      else le_bytes 2 af @ le_bytes 2 (hostToNetwork16 p) @ replicate 4 0 @ bs @ replicate 4 0)"

lemma from_le_append: "take n (le_bytes n w @ rest) = le_bytes n w"
  by simp

lemma sockaddr_of_fields:
  assumes "length bs = (if af = AF_INET then 4 else 16)"
  shows "family (fst (sock_addr (Some (sockaddr_of af bs p)))) = af"
    and "portNetEndian (fst (sock_addr (Some (sockaddr_of af bs p)))) = hostToNetwork16 p"
    and "af = AF_INET \<Longrightarrow> sin_addr (fst (sock_addr (Some (sockaddr_of af bs p)))) = bs"
    and "af \<noteq> AF_INET \<Longrightarrow> sin6_addr (fst (sock_addr (Some (sockaddr_of af bs p)))) = bs"
  using assms
  by (auto simp: sock_addr_def sockaddr_of_def put_bytes_def family_def portNetEndian_def get_field_def
      sin_addr_def sin6_addr_def from_le_le_bytes Let_def)

lemma hostToNetwork16_inj: "hostToNetwork16 p = hostToNetwork16 q \<longleftrightarrow> p = q"
  by (metis port_network)

text \<open>
  \<open>isSelfConnect\<close> is exact: for two sockets addresses of one family it says yes exactly when
  port and address bytes agree, it says no for a family that is neither IPv4 nor IPv6, and no when
  the local address cannot be read.
\<close>

theorem self_connect_exact:
  assumes "length la = (if af = AF_INET then 4 else 16)" "length ra = (if af = AF_INET then 4 else 16)"
  shows "isSelfConnect (Some (sockaddr_of af la lp)) (Some (sockaddr_of af ra rp))
      = ((af = AF_INET \<or> af = AF_INET6) \<and> lp = rp \<and> la = ra)
    \<and> \<not> isSelfConnect None (Some (sockaddr_of af ra rp))"
proof -
  have four: "(get_field 4 4 a :: 32 word) = get_field 4 4 b \<longleftrightarrow> sin_addr a = sin_addr b"
    if "length a = 28" "length b = 28" for a b
  proof -
    have "length (sin_addr a) = 4" "length (sin_addr b) = 4" using that by (simp_all add: sin_addr_def)
    then have "le_bytes 4 (from_le (sin_addr a) :: 32 word) = sin_addr a"
      "le_bytes 4 (from_le (sin_addr b) :: 32 word) = sin_addr b"
      using le_bytes_from_le [where 'a = 32, of "sin_addr a"] le_bytes_from_le [where 'a = 32, of "sin_addr b"] by simp_all
    then show ?thesis unfolding get_field_def sin_addr_def by metis
  qed
  have len: "length (fst (sock_addr (Some (sockaddr_of af bs p)))) = 28" for bs p
    by (simp add: sock_addr_def Let_def)
  have none: "family (fst (sock_addr None)) = 0"
    by (simp add: sock_addr_def family_def get_field_def numeral_2_eq_2 Let_def)
  let ?l = "fst (sock_addr (Some (sockaddr_of af la lp)))" and ?r = "fst (sock_addr (Some (sockaddr_of af ra rp)))"
  note fl = sockaddr_of_fields [OF assms(1), of lp] and fr = sockaddr_of_fields [OF assms(2), of rp]
  have eq: "portNetEndian ?l = portNetEndian ?r \<longleftrightarrow> lp = rp"
    by (simp only: fl(2) fr(2) hostToNetwork16_inj)
  have a4: "(get_field 4 4 ?l :: 32 word) = get_field 4 4 ?r \<longleftrightarrow> la = ra" if "af = AF_INET"
    by (simp only: four [OF len len] fl(3) [OF that] fr(3) [OF that])
  have a6: "sin6_addr ?l = sin6_addr ?r \<longleftrightarrow> la = ra" if "af \<noteq> AF_INET"
    by (simp only: fl(4) [OF that] fr(4) [OF that])
  have "isSelfConnect (Some (sockaddr_of af la lp)) (Some (sockaddr_of af ra rp))
      = ((af = AF_INET \<or> af = AF_INET6) \<and> lp = rp \<and> la = ra)"
    unfolding isSelfConnect_def Let_def fl(1) eq using a4 a6 by (auto simp del: families_differ)
  moreover have "\<not> isSelfConnect None (Some (sockaddr_of af ra rp))"
    by (simp add: isSelfConnect_def Let_def none AF_INET_def AF_INET6_def)
  ultimately show ?thesis by simp
qed

lemma self_connect_exact_witness:
  "isSelfConnect (Some (sockaddr_of AF_INET [127, 0, 0, 1] 80)) (Some (sockaddr_of AF_INET [127, 0, 0, 1] 80))
    \<and> \<not> isSelfConnect (Some (sockaddr_of AF_INET [127, 0, 0, 1] 80)) (Some (sockaddr_of AF_INET [127, 0, 0, 1] 81))"
  using self_connect_exact [of "[127, 0, 0, 1]" AF_INET "[127, 0, 0, 1]" 80 80]
    self_connect_exact [of "[127, 0, 0, 1]" AF_INET "[127, 0, 0, 1]" 80 81] by simp

text \<open>What \<open>InetAddress(port, loopbackOnly, ipv6)\<close> stands for.\<close>

lemma address_of_port_fields:
  assumes "length mem = 28"
  shows "port (address_of_port mem p l v6) = p"
    and "family (address_of_port mem p l v6) = (if v6 then AF_INET6 else AF_INET)"
    and "v6 \<Longrightarrow> sin6_addr (address_of_port mem p l v6) = (if l then in6addr_loopback else in6addr_any)"
proof -
  have l16: "length in6addr_loopback = 16" "length in6addr_any = 16"
    by (simp_all add: in6addr_loopback_def in6addr_any_def)
  show "port (address_of_port mem p l v6) = p" "family (address_of_port mem p l v6) = (if v6 then AF_INET6 else AF_INET)"
    using assms l16 by (simp_all add: address_of_port_def port_def portNetEndian_def family_def windows port_network Let_def)
  let ?a = "put_field 2 0 AF_INET6 (put_bytes 0 (replicate 28 0) mem)"
  show "sin6_addr (address_of_port mem p l v6) = (if l then in6addr_loopback else in6addr_any)" if v6
    using that assms l16 window_same [of 8 in6addr_loopback ?a] window_same [of 8 in6addr_any ?a]
    by (simp add: address_of_port_def sin6_addr_def window_field_after Let_def)
qed

end
