(* ===== verification/EventLoops.thy ===== *)
theory EventLoops
  imports Channels
begin

text \<open>
  \<open>src/src/net/EventLoop.h\<close> and \<open>EventLoop.cc\<close>: the loop of a thread, its pending functors and
  its wake-up descriptor. A functor is its identity; what a functor or a callback does to the
  loop is a list of commands, given by the client. The wake-up descriptor is the counter of the
  kernel's \<open>eventfd\<close>: a write adds, a read returns and clears it.
\<close>

section \<open>Operations\<close>

type_synonym functor_id = nat

record event_loop =
  m_wakeUpFd :: nat
  m_isRunning :: bool
  m_isHandleing :: bool
  m_callingPendingFunctors :: bool
  m_vecPendingFunctor :: "functor_id list"
  m_channelList :: "nat list"
  m_currentActive :: "nat option"
  m_uPtrPoller :: poller

definition new_event_loop :: event_loop where
  "new_event_loop = \<lparr>m_wakeUpFd = 0, m_isRunning = False, m_isHandleing = False,
     m_callingPendingFunctors = False, m_vecPendingFunctor = [], m_channelList = [],
     m_currentActive = None, m_uPtrPoller = new_EpollPoller\<rparr>"

text \<open>
  The constructor registers the wake-up channel \<open>a\<close> of descriptor \<open>fd\<close> for reading, with the
  callback \<open>wake_cb\<close>; a second loop in the thread is fatal. The timer queue it also creates
  has a theory of its own.
\<close>

definition construct_loop :: "bool \<Rightarrow> nat \<Rightarrow> int \<Rightarrow> nat \<Rightarrow> event_loop res" where
  "construct_loop t_thisThreadOwnALoop a fd wake_cb =
     (if t_thisThreadOwnALoop then Inl Fatal_log
      else bindR (enableRead a (put_channel a (setReadCb wake_cb (new_channel fd)) (m_uPtrPoller new_event_loop)))
             (\<lambda>p. Inr (new_event_loop\<lparr>m_uPtrPoller := p\<rparr>)))"

text \<open>A write that would overflow the counter of the non-blocking descriptor fails and is logged.\<close>

definition eventfd_max :: nat where
  "eventfd_max = 2 ^ 64 - 2"

definition wakeUp :: "event_loop \<Rightarrow> event_loop" where
  "wakeUp l = (if m_wakeUpFd l < eventfd_max then l\<lparr>m_wakeUpFd := m_wakeUpFd l + 1\<rparr> else l)"

definition el_handleRead :: "event_loop \<Rightarrow> event_loop" where
  "el_handleRead l = l\<lparr>m_wakeUpFd := 0\<rparr>"

text \<open>
  \<open>queueInLoop\<close> is two steps, between which other threads run: the push under the lock, and
  the wake-up. \<open>inLoop\<close> is \<open>isInLoopThread()\<close> of the caller.
\<close>

definition push_functor :: "functor_id \<Rightarrow> event_loop \<Rightarrow> event_loop" where
  "push_functor cb l = l\<lparr>m_vecPendingFunctor := m_vecPendingFunctor l @ [cb]\<rparr>"

definition queueInLoop :: "bool \<Rightarrow> functor_id \<Rightarrow> event_loop \<Rightarrow> event_loop" where
  "queueInLoop inLoop cb l =
     (let l = push_functor cb l
      in if \<not> inLoop \<or> m_callingPendingFunctors l then wakeUp l else l)"

definition quit :: "bool \<Rightarrow> event_loop \<Rightarrow> event_loop" where
  "quit inLoop l =
     (let l = l\<lparr>m_isRunning := False\<rparr> in if \<not> inLoop then wakeUp l else l)"

text \<open>What code running on the loop's thread may ask of the loop.\<close>

datatype loop_cmd = Cmd_queue functor_id | Cmd_quit

fun do_cmd :: "loop_cmd \<Rightarrow> event_loop \<Rightarrow> event_loop" where
  "do_cmd (Cmd_queue cb) l = queueInLoop True cb l"
| "do_cmd Cmd_quit l = quit True l"

definition call_functor :: "(functor_id \<Rightarrow> loop_cmd list) \<Rightarrow> functor_id \<Rightarrow> event_loop \<Rightarrow> event_loop" where
  "call_functor body cb l = fold do_cmd (body cb) l"

definition runInLoop :: "(functor_id \<Rightarrow> loop_cmd list) \<Rightarrow> bool \<Rightarrow> functor_id \<Rightarrow> event_loop \<Rightarrow> event_loop" where
  "runInLoop body inLoop cb l =
     (if inLoop then call_functor body cb l else queueInLoop inLoop cb l)"

text \<open>\<open>doPendingFunc\<close>; the result's first part is the functors it called.\<close>

definition swap_pending :: "event_loop \<Rightarrow> functor_id list \<times> event_loop" where
  "swap_pending l =
     (let l = l\<lparr>m_callingPendingFunctors := True\<rparr>
      in (m_vecPendingFunctor l, l\<lparr>m_vecPendingFunctor := []\<rparr>))"

definition doPendingFunc ::
  "(functor_id \<Rightarrow> loop_cmd list) \<Rightarrow> event_loop \<Rightarrow> functor_id list \<times> event_loop" where
  "doPendingFunc body l =
     (let (functors, l) = swap_pending l;
          l = fold (call_functor body) functors l
      in (functors, l\<lparr>m_callingPendingFunctors := False\<rparr>))"

definition assertInLoopThread :: "bool \<Rightarrow> 'a res \<Rightarrow> 'a res" where
  "assertInLoopThread inLoop k = (if \<not> inLoop then Inl Fatal_log else k)"

definition el_updateChannel :: "nat \<Rightarrow> event_loop \<Rightarrow> event_loop res" where
  "el_updateChannel channel l =
     bindR (updateChannel channel (m_uPtrPoller l)) (\<lambda>p. Inr (l\<lparr>m_uPtrPoller := p\<rparr>))"

definition el_removeChannel :: "bool \<Rightarrow> nat \<Rightarrow> event_loop \<Rightarrow> event_loop res" where
  "el_removeChannel inLoop channel l =
     assertInLoopThread inLoop
      (assertR (m_isHandleing l \<longrightarrow>
          m_currentActive l = Some channel \<or> channel \<notin> set (m_channelList l))
        (bindR (removeChannel channel (m_uPtrPoller l)) (\<lambda>p. Inr (l\<lparr>m_uPtrPoller := p\<rparr>))))"

text \<open>
  One turn of \<open>loop\<close>: poll, handle the channels reported, run the pending functors. \<open>cb_body\<close>
  says what a channel callback asks of the loop; the wake-up channel's callback is \<open>handleRead\<close>.
\<close>

definition handle_channel ::
  "nat \<Rightarrow> (nat \<Rightarrow> loop_cmd list) \<Rightarrow> (nat \<Rightarrow> bool) \<Rightarrow> nat \<Rightarrow> event_loop \<Rightarrow> event_loop res" where
  "handle_channel wake_cb cb_body alive channel l =
     (let l = l\<lparr>m_currentActive := Some channel\<rparr>
      in bindR (get_channel channel (m_uPtrPoller l)) (\<lambda>c.
         bindR (handleEvent alive c) (\<lambda>cbs.
           Inr (fold (\<lambda>cb l. if cb = wake_cb then el_handleRead l else fold do_cmd (cb_body cb) l) cbs l))))"

definition loop_turn ::
  "(functor_id \<Rightarrow> loop_cmd list) \<Rightarrow> nat \<Rightarrow> (nat \<Rightarrow> loop_cmd list) \<Rightarrow> (nat \<Rightarrow> bool)
     \<Rightarrow> (events \<times> nat) list option \<Rightarrow> event_loop \<Rightarrow> (functor_id list \<times> event_loop) res" where
  "loop_turn body wake_cb cb_body alive epoll_wait l =
     bindR (poll epoll_wait (m_uPtrPoller l)) (\<lambda>(active, p).
       let l = l\<lparr>m_uPtrPoller := p, m_channelList := active, m_isHandleing := True\<rparr>
       in bindR (foldR (handle_channel wake_cb cb_body alive) active l) (\<lambda>l.
            Inr (doPendingFunc body (l\<lparr>m_isHandleing := False\<rparr>))))"

fun loop_turns ::
  "(functor_id \<Rightarrow> loop_cmd list) \<Rightarrow> nat \<Rightarrow> (nat \<Rightarrow> loop_cmd list) \<Rightarrow> (nat \<Rightarrow> bool)
     \<Rightarrow> (events \<times> nat) list option list \<Rightarrow> event_loop \<Rightarrow> (functor_id list \<times> event_loop) res" where
  "loop_turns body wake_cb cb_body alive [] l = Inr ([], l)"
| "loop_turns body wake_cb cb_body alive (w # ws) l =
     (if \<not> m_isRunning l then Inr ([], l)
      else bindR (loop_turn body wake_cb cb_body alive w l) (\<lambda>(ran, l).
           bindR (loop_turns body wake_cb cb_body alive ws l) (\<lambda>(ran', l). Inr (ran @ ran', l))))"

text \<open>\<open>loop\<close> over the answers of the kernel: it ends when \<open>quit\<close> was called.\<close>

definition loop ::
  "(functor_id \<Rightarrow> loop_cmd list) \<Rightarrow> nat \<Rightarrow> (nat \<Rightarrow> loop_cmd list) \<Rightarrow> (nat \<Rightarrow> bool) \<Rightarrow> bool
     \<Rightarrow> (events \<times> nat) list option list \<Rightarrow> event_loop \<Rightarrow> (functor_id list \<times> event_loop) res" where
  "loop body wake_cb cb_body alive inLoop waits l =
     assertR (\<not> m_isRunning l)
      (assertInLoopThread inLoop
        (loop_turns body wake_cb cb_body alive waits (l\<lparr>m_isRunning := True\<rparr>)))"

section \<open>The loop and other threads\<close>

text \<open>
  The interleaving of the loop's thread with any number of other threads. \<open>where_at\<close> is what the
  loop's thread is doing; \<open>waking\<close> counts the other threads that have pushed a functor (or
  cleared \<open>m_isRunning\<close>) and have not yet written to the wake-up descriptor. \<open>queued\<close> and
  \<open>ran\<close> record the functors in the order they were queued and called. A callback or functor
  runs its commands one by one (\<open>Doing\<close>), other threads stepping in between.
\<close>

datatype loop_event = Wake_read | Client_cb nat

datatype activity = Polling | Handling "loop_event list" | Calling "functor_id list"
  | Doing "loop_cmd list" activity | Stopped

record loop_state =
  lp :: event_loop
  where_at :: activity
  waking :: nat
  queued :: "functor_id list"
  ran :: "functor_id list"

fun queued_by :: "loop_cmd \<Rightarrow> functor_id list" where
  "queued_by (Cmd_queue cb) = [cb]"
| "queued_by Cmd_quit = []"

inductive loop_step ::
  "(functor_id \<Rightarrow> loop_cmd list) \<Rightarrow> (nat \<Rightarrow> loop_cmd list) \<Rightarrow> loop_state \<Rightarrow> loop_state \<Rightarrow> bool"
  for body cb_body where
  other_push: "loop_step body cb_body s
      (s\<lparr>lp := push_functor cb (lp s), queued := queued s @ [cb], waking := waking s + 1\<rparr>)"
| other_quit: "loop_step body cb_body s
      (s\<lparr>lp := (lp s)\<lparr>m_isRunning := False\<rparr>, waking := waking s + 1\<rparr>)"
| other_wake: "waking s = n + 1 \<Longrightarrow> loop_step body cb_body s (s\<lparr>lp := wakeUp (lp s), waking := n\<rparr>)"
| poll_returns: "where_at s = Polling \<Longrightarrow> 0 < m_wakeUpFd (lp s) \<longleftrightarrow> Wake_read \<in> set evs
      \<Longrightarrow> loop_step body cb_body s (s\<lparr>where_at := Handling evs\<rparr>)"
| handle_wake: "where_at s = Handling (Wake_read # evs)
      \<Longrightarrow> loop_step body cb_body s (s\<lparr>lp := el_handleRead (lp s), where_at := Handling evs\<rparr>)"
| handle_client: "where_at s = Handling (Client_cb cb # evs)
      \<Longrightarrow> loop_step body cb_body s (s\<lparr>where_at := Doing (cb_body cb) (Handling evs)\<rparr>)"
| do_command: "where_at s = Doing (c # cs) k
      \<Longrightarrow> loop_step body cb_body s
            (s\<lparr>lp := do_cmd c (lp s), queued := queued s @ queued_by c, where_at := Doing cs k\<rparr>)"
| done_commands: "where_at s = Doing [] k \<Longrightarrow> loop_step body cb_body s (s\<lparr>where_at := k\<rparr>)"
| swap: "where_at s = Handling []
      \<Longrightarrow> loop_step body cb_body s
            (s\<lparr>lp := snd (swap_pending (lp s)), where_at := Calling (fst (swap_pending (lp s)))\<rparr>)"
| call: "where_at s = Calling (cb # cbs)
      \<Longrightarrow> loop_step body cb_body s
            (s\<lparr>ran := ran s @ [cb], where_at := Doing (body cb) (Calling cbs)\<rparr>)"
| turn_ends: "where_at s = Calling []
      \<Longrightarrow> loop_step body cb_body s (s\<lparr>lp := (lp s)\<lparr>m_callingPendingFunctors := False\<rparr>,
             where_at := (if m_isRunning (lp s) then Polling else Stopped)\<rparr>)"

definition start_state :: "event_loop \<Rightarrow> loop_state" where
  "start_state l = \<lparr>lp = l\<lparr>m_isRunning := True\<rparr>, where_at = Polling, waking = 0,
     queued = m_vecPendingFunctor l, ran = []\<rparr>"

section \<open>The invariant of the interleaving\<close>

fun executing :: "activity \<Rightarrow> functor_id list" where
  "executing (Calling cbs) = cbs"
| "executing (Doing cs k) = executing k"
| "executing _ = []"

fun calling :: "activity \<Rightarrow> bool" where
  "calling (Calling cbs) = True"
| "calling (Doing cs k) = calling k"
| "calling _ = False"

fun flat :: "activity \<Rightarrow> bool" where
  "flat (Doing cs k) = ((\<exists>evs. k = Handling evs) \<or> (\<exists>cbs. k = Calling cbs))"
| "flat _ = True"

definition loop_inv :: "loop_state \<Rightarrow> bool" where
  "loop_inv s \<longleftrightarrow> flat (where_at s)
     \<and> queued s = ran s @ executing (where_at s) @ m_vecPendingFunctor (lp s)
     \<and> m_callingPendingFunctors (lp s) = calling (where_at s)
     \<and> (calling (where_at s) \<or> where_at s = Polling \<longrightarrow> m_vecPendingFunctor (lp s) \<noteq> []
          \<longrightarrow> 0 < m_wakeUpFd (lp s) \<or> 0 < waking s)
     \<and> (where_at s = Polling \<longrightarrow> \<not> m_isRunning (lp s) \<longrightarrow> 0 < m_wakeUpFd (lp s) \<or> 0 < waking s)"

definition fresh_loop :: "event_loop \<Rightarrow> bool" where
  "fresh_loop l \<longleftrightarrow> \<not> m_callingPendingFunctors l \<and> (m_vecPendingFunctor l \<noteq> [] \<longrightarrow> 0 < m_wakeUpFd l)"

lemma wakeUp_simps [simp]:
  "0 < m_wakeUpFd (wakeUp l)" "m_vecPendingFunctor (wakeUp l) = m_vecPendingFunctor l"
  "m_callingPendingFunctors (wakeUp l) = m_callingPendingFunctors l"
  "m_isRunning (wakeUp l) = m_isRunning l"
  by (simp_all add: wakeUp_def eventfd_max_def)

lemma do_cmd_simps:
  "m_vecPendingFunctor (do_cmd c l) = m_vecPendingFunctor l @ queued_by c"
  "m_callingPendingFunctors (do_cmd c l) = m_callingPendingFunctors l"
  "0 < m_wakeUpFd l \<Longrightarrow> 0 < m_wakeUpFd (do_cmd c l)"
  "m_callingPendingFunctors l \<Longrightarrow> queued_by c \<noteq> [] \<Longrightarrow> 0 < m_wakeUpFd (do_cmd c l)"
  "m_isRunning (do_cmd c l) = (m_isRunning l \<and> c \<noteq> Cmd_quit)"
  by (cases c; simp add: queueInLoop_def push_functor_def quit_def Let_def; fail)+

lemma loop_inv_start: "fresh_loop l \<Longrightarrow> loop_inv (start_state l)"
  by (simp add: loop_inv_def start_state_def fresh_loop_def)

lemma loop_inv_step:
  assumes "loop_step body cb_body s t" and "loop_inv s"
  shows "loop_inv t"
  using assms
proof (induction rule: loop_step.induct)
  case (do_command s c cs k)
  then have k: "(\<exists>evs. k = Handling evs) \<or> (\<exists>cbs. k = Calling cbs)" by (simp add: loop_inv_def)
  with do_command show ?case
    using do_cmd_simps(3,4) [of "lp s" c]
    by (auto simp: loop_inv_def do_cmd_simps(1,2))
next
  case (done_commands s k)
  then show ?case by (auto simp: loop_inv_def)
next
  case (other_push s cb)
  then show ?case by (auto simp: loop_inv_def push_functor_def)
next
  case (other_wake s n)
  then show ?case by (auto simp: loop_inv_def)
next
  case (handle_wake s evs)
  then show ?case by (simp add: loop_inv_def el_handleRead_def)
next
  case (swap s)
  then show ?case by (simp add: loop_inv_def swap_pending_def Let_def)
next
  case (turn_ends s)
  then show ?case by (auto simp: loop_inv_def)
qed (simp_all add: loop_inv_def)

definition loop_starts :: "loop_state \<Rightarrow> bool" where
  "loop_starts s \<longleftrightarrow> (\<exists>l. fresh_loop l \<and> s = start_state l)"

interpretation el: state_invariant loop_starts "loop_step body cb_body" loop_inv
  for body cb_body
  by unfold_locales (auto simp: loop_starts_def intro: loop_inv_start loop_inv_step)

section \<open>Running the pending functors\<close>

lemma fold_do_cmd:
  "m_vecPendingFunctor (fold do_cmd cs l) = m_vecPendingFunctor l @ concat (map queued_by cs)
   \<and> m_callingPendingFunctors (fold do_cmd cs l) = m_callingPendingFunctors l
   \<and> (0 < m_wakeUpFd l \<longrightarrow> 0 < m_wakeUpFd (fold do_cmd cs l))
   \<and> (m_callingPendingFunctors l \<and> concat (map queued_by cs) \<noteq> [] \<longrightarrow> 0 < m_wakeUpFd (fold do_cmd cs l))
   \<and> m_isRunning (fold do_cmd cs l) = (m_isRunning l \<and> Cmd_quit \<notin> set cs)"
proof (induction cs arbitrary: l)
  case Nil
  then show ?case by simp
next
  case (Cons c cs)
  from Cons.IH [of "do_cmd c l"] do_cmd_simps [where c = c and l = l] show ?case by (cases "queued_by c = []") auto
qed

lemma fold_call:
  "m_vecPendingFunctor (fold (call_functor body) fs l)
      = m_vecPendingFunctor l @ concat (map (\<lambda>f. concat (map queued_by (body f))) fs)
   \<and> m_callingPendingFunctors (fold (call_functor body) fs l) = m_callingPendingFunctors l
   \<and> (0 < m_wakeUpFd l \<longrightarrow> 0 < m_wakeUpFd (fold (call_functor body) fs l))
   \<and> (m_callingPendingFunctors l \<and> concat (map (\<lambda>f. concat (map queued_by (body f))) fs) \<noteq> []
        \<longrightarrow> 0 < m_wakeUpFd (fold (call_functor body) fs l))
   \<and> m_isRunning (fold (call_functor body) fs l) = (m_isRunning l \<and> (\<forall>f \<in> set fs. Cmd_quit \<notin> set (body f)))"
proof (induction fs arbitrary: l)
  case Nil
  then show ?case by simp
next
  case (Cons f fs)
  from Cons.IH [of "call_functor body f l"] fold_do_cmd [of "body f" l] show ?case
    by (cases "concat (map queued_by (body f)) = []") (auto simp: call_functor_def)
qed

lemma do_commands_run:
  "where_at s = Doing cs k \<Longrightarrow> (loop_step body cb_body)\<^sup>*\<^sup>* s
     (s\<lparr>lp := fold do_cmd cs (lp s), queued := queued s @ concat (map queued_by cs), where_at := k\<rparr>)"
proof (induction cs arbitrary: s)
  case Nil
  then show ?case using loop_step.done_commands [OF Nil] by (auto simp: r_into_rtranclp)
next
  case (Cons c cs)
  let ?t = "s\<lparr>lp := do_cmd c (lp s), queued := queued s @ queued_by c, where_at := Doing cs k\<rparr>"
  have "loop_step body cb_body s ?t" by (rule loop_step.do_command [OF Cons.prems])
  also have "(loop_step body cb_body)\<^sup>*\<^sup>* ?t (?t\<lparr>lp := fold do_cmd cs (lp ?t),
      queued := queued ?t @ concat (map queued_by cs), where_at := k\<rparr>)"
    by (rule Cons.IH) simp
  finally show ?case by simp
qed

lemma calls_run:
  "where_at s = Calling fs \<Longrightarrow> \<exists>q. (loop_step body cb_body)\<^sup>*\<^sup>* s
     (s\<lparr>lp := fold (call_functor body) fs (lp s), ran := ran s @ fs, queued := q,
        where_at := Calling []\<rparr>)"
proof (induction fs arbitrary: s)
  case Nil
  have e: "s\<lparr>lp := fold (call_functor body) [] (lp s), ran := ran s @ [], queued := queued s,
      where_at := Calling []\<rparr> = s" using Nil by (cases s) simp
  show ?case by (rule exI [of _ "queued s"]) (simp only: e rtranclp.rtrancl_refl)
next
  case (Cons f fs)
  let ?t = "s\<lparr>ran := ran s @ [f], where_at := Doing (body f) (Calling fs)\<rparr>"
  let ?u = "?t\<lparr>lp := fold do_cmd (body f) (lp ?t),
      queued := queued ?t @ concat (map queued_by (body f)), where_at := Calling fs\<rparr>"
  have st: "loop_step body cb_body s ?t" by (rule loop_step.call [OF Cons.prems])
  have tu: "(loop_step body cb_body)\<^sup>*\<^sup>* ?t ?u" by (rule do_commands_run) simp
  obtain q where "(loop_step body cb_body)\<^sup>*\<^sup>* ?u (?u\<lparr>lp := fold (call_functor body) fs (lp ?u),
      ran := ran ?u @ fs, queued := q, where_at := Calling []\<rparr>)"
    using Cons.IH [of ?u] by auto
  with rtranclp_trans [OF converse_rtranclp_into_rtranclp [of "loop_step body cb_body", OF st tu]]
  have "(loop_step body cb_body)\<^sup>*\<^sup>* s (?u\<lparr>lp := fold (call_functor body) fs (lp ?u),
      ran := ran ?u @ fs, queued := q, where_at := Calling []\<rparr>)" by blast
  then show ?case by (intro exI [of _ q]) (simp add: call_functor_def [of body f])
qed

section \<open>Properties\<close>

text \<open>
  C4. No wake-up is lost. Whenever the loop is about to block in \<open>poll\<close> with functors pending
  or after \<open>quit\<close>, its wake-up descriptor is readable or another thread is about to make it so,
  whatever functors and callbacks queue and however other threads interleave. The loop starts
  with nothing pending, or woken.
\<close>

theorem no_lost_wakeup:
  assumes "reachable loop_starts (loop_step body cb_body) s" and "where_at s = Polling"
    and "m_vecPendingFunctor (lp s) \<noteq> [] \<or> \<not> m_isRunning (lp s)"
  shows "0 < m_wakeUpFd (lp s) \<or> 0 < waking s"
  using el.inv_reachable [OF assms(1)] assms(2,3) by (auto simp: loop_inv_def)

definition pushed_loop :: loop_state where
  "pushed_loop = (start_state new_event_loop)\<lparr>lp := (new_event_loop\<lparr>m_isRunning := True,
     m_vecPendingFunctor := [7]\<rparr>), waking := 1, queued := [7]\<rparr>"

lemma pushed_loop_reachable: "reachable loop_starts (loop_step body cb_body) pushed_loop"
proof -
  have "fresh_loop new_event_loop" by (simp add: fresh_loop_def new_event_loop_def)
  then have "reachable loop_starts (loop_step body cb_body) (start_state new_event_loop)"
    by (auto intro!: reachable_init simp: loop_starts_def)
  from reachable_step [OF this loop_step.other_push [of _ _ _ 7]] show ?thesis
    by (simp add: pushed_loop_def start_state_def new_event_loop_def push_functor_def)
qed

theorem no_lost_wakeup_witness:
  "reachable loop_starts (loop_step (\<lambda>_. []) (\<lambda>_. [])) pushed_loop
     \<and> (0 < m_wakeUpFd (lp pushed_loop) \<or> 0 < waking pushed_loop)"
proof -
  have "where_at pushed_loop = Polling" "m_vecPendingFunctor (lp pushed_loop) \<noteq> []"
    by (simp_all add: pushed_loop_def start_state_def)
  with no_lost_wakeup [OF pushed_loop_reachable [of "\<lambda>_. []" "\<lambda>_. []"]]
    pushed_loop_reachable [of "\<lambda>_. []" "\<lambda>_. []"] show ?thesis by simp
qed

text \<open>
  Functors run once each and in the order they were queued: at every moment the functors
  queued so far are those that ran, then those the loop has taken and not yet called, then
  those pending.
\<close>

theorem functors_fifo:
  assumes "reachable loop_starts (loop_step body cb_body) s"
  shows "queued s = ran s @ executing (where_at s) @ m_vecPendingFunctor (lp s)"
  using el.inv_reachable [OF assms] by (simp add: loop_inv_def)

theorem functors_fifo_witness:
  "reachable loop_starts (loop_step (\<lambda>_. []) (\<lambda>_. [])) pushed_loop
     \<and> queued pushed_loop = ran pushed_loop @ executing (where_at pushed_loop) @ [7]"
proof -
  have "m_vecPendingFunctor (lp pushed_loop) = [7]" by (simp add: pushed_loop_def)
  with functors_fifo [OF pushed_loop_reachable [of "\<lambda>_. []" "\<lambda>_. []"]]
    pushed_loop_reachable [of "\<lambda>_. []" "\<lambda>_. []"] show ?thesis by simp
qed

text \<open>
  C5. \<open>doPendingFunc\<close> calls exactly the functors pending when it starts, in order. What they
  queue stays for the next turn, which the wake-up descriptor then keeps from blocking, and the
  loop goes on unless one of them called \<open>quit\<close>. The function does what the interleaving's
  steps do when no other thread interferes.
\<close>

theorem pending_turn:
  assumes "where_at s = Handling []"
  shows "let (fs, l) = doPendingFunc body (lp s);
             new = concat (map (\<lambda>f. concat (map queued_by (body f))) fs)
     in fs = m_vecPendingFunctor (lp s) \<and> m_vecPendingFunctor l = new
        \<and> (new \<noteq> [] \<longrightarrow> 0 < m_wakeUpFd l)
        \<and> m_isRunning l = (m_isRunning (lp s) \<and> (\<forall>f \<in> set fs. Cmd_quit \<notin> set (body f)))
        \<and> (\<exists>t. (loop_step body cb_body)\<^sup>*\<^sup>* s t \<and> lp t = l \<and> ran t = ran s @ fs
             \<and> where_at t = (if m_isRunning l then Polling else Stopped))"
proof -
  let ?start = "(lp s)\<lparr>m_callingPendingFunctors := True, m_vecPendingFunctor := []\<rparr>"
  let ?fs = "m_vecPendingFunctor (lp s)"
  let ?called = "fold (call_functor body) ?fs ?start"
  let ?l = "?called\<lparr>m_callingPendingFunctors := False\<rparr>"
  have d: "doPendingFunc body (lp s) = (?fs, ?l)"
    by (simp add: doPendingFunc_def swap_pending_def Let_def)
  let ?t = "s\<lparr>lp := ?start, where_at := Calling ?fs\<rparr>"
  have st: "loop_step body cb_body s ?t"
    using loop_step.swap [OF assms, of body cb_body] by (simp add: swap_pending_def Let_def)
  obtain q where tu: "(loop_step body cb_body)\<^sup>*\<^sup>* ?t (?t\<lparr>lp := ?called, ran := ran s @ ?fs, queued := q,
      where_at := Calling []\<rparr>)" using calls_run [of ?t ?fs body cb_body] by auto
  let ?u = "?t\<lparr>lp := ?called, ran := ran s @ ?fs, queued := q, where_at := Calling []\<rparr>"
  let ?v = "?u\<lparr>lp := ?l, where_at := (if m_isRunning ?l then Polling else Stopped)\<rparr>"
  have uv: "loop_step body cb_body ?u ?v"
    using loop_step.turn_ends [of ?u body cb_body] by simp
  have "(loop_step body cb_body)\<^sup>*\<^sup>* s ?v"
    using st tu uv by (meson converse_rtranclp_into_rtranclp rtranclp.rtrancl_into_rtrancl)
  then have "\<exists>t. (loop_step body cb_body)\<^sup>*\<^sup>* s t \<and> lp t = ?l \<and> ran t = ran s @ ?fs
      \<and> where_at t = (if m_isRunning ?l then Polling else Stopped)"
    by (intro exI [of _ ?v]) simp
  then show ?thesis
    using fold_call [of body ?fs ?start] by (simp add: d Let_def)
qed

theorem pending_turn_witness:
  "let (fs, l) = doPendingFunc (\<lambda>f. if f = 1 then [Cmd_queue 5] else [])
       (new_event_loop\<lparr>m_vecPendingFunctor := [1, 2], m_isRunning := True\<rparr>)
   in fs = [1, 2] \<and> m_vecPendingFunctor l = [5] \<and> 0 < m_wakeUpFd l \<and> m_isRunning l"
  using pending_turn [of "(start_state (new_event_loop\<lparr>m_vecPendingFunctor := [1, 2]\<rparr>))
      \<lparr>where_at := Handling []\<rparr>" "\<lambda>f. if f = 1 then [Cmd_queue 5] else []"]
  by (auto simp: start_state_def Let_def split: prod.splits)

end
