(* ===== verification/Servers.thy ===== *)
theory Servers
  imports Addresses EventLoops
begin

text \<open>
  The server side: the operations of \<open>SocketOps.cc\<close> and \<open>Sockets.cc\<close> that decide something,
  \<open>Acceptor.cc\<close>, \<open>EventLoopThreadPool.cc\<close> and \<open>TcpServer.cc\<close>. The kernel's answers are arguments. The
  descriptors the acceptor's calls opened and have not closed are recorded (\<open>ac_open\<close>), and so are
  the connections it handed over; a loop is a number, and so is a connection, in the order the
  server made them.
\<close>

section \<open>Socket operations\<close>

definition EPERM :: int where "EPERM = 1"
definition EINTR :: int where "EINTR = 4"
definition EAGAIN :: int where "EAGAIN = 11"
definition EMFILE :: int where "EMFILE = 24"
definition EPROTO :: int where "EPROTO = 71"
definition ECONNABORTED :: int where "ECONNABORTED = 103"

lemmas errno_defs = EPERM_def EINTR_def EAGAIN_def EMFILE_def EPROTO_def ECONNABORTED_def

text \<open>The results of \<open>socket\<close>, \<open>bind\<close> and \<open>listen\<close>: an error is fatal.\<close>

definition createNonblockingOrDie :: "int \<Rightarrow> int res" where
  "createNonblockingOrDie sockfd = (if sockfd < 0 then Inl Fatal_log else Inr sockfd)"

definition bindOrDie :: "int \<Rightarrow> unit res" where
  "bindOrDie ret = (if ret < 0 then Inl Fatal_log else Inr ())"

definition listenOrDie :: "int \<Rightarrow> unit res" where
  "listenOrDie ret = (if ret < 0 then Inl Fatal_log else Inr ())"

datatype accept_result = Accepted int sockaddr | Accept_failed int

text \<open>
  \<open>accept\<close>: the descriptor, the peer's address and \<open>errno\<close>. An unexpected or unknown error is
  fatal.
\<close>

definition sockets_accept :: "accept_result \<Rightarrow> (int \<times> sockaddr \<times> int) res" where
  "sockets_accept ans =
     (case ans of
        Accepted connfd a \<Rightarrow> Inr (connfd, a, 0)
      | Accept_failed savedErrno \<Rightarrow>
          if savedErrno \<in> {EAGAIN, ECONNABORTED, EINTR, EPROTO, EPERM, EMFILE}
          then Inr (-1, [], savedErrno)
          else Inl Fatal_log)"

definition getSocketError :: "int + int \<Rightarrow> int" where
  "getSocketError ans = (case ans of Inl errno \<Rightarrow> errno | Inr optval \<Rightarrow> optval)"

section \<open>Sockets\<close>

text \<open>\<open>Socket::accept\<close> stores the peer's address when there is one.\<close>

definition socket_accept :: "accept_result \<Rightarrow> sockaddr \<Rightarrow> (int \<times> sockaddr \<times> int) res" where
  "socket_accept ans peerAddr =
     bindR (sockets_accept ans) (\<lambda>(connfd, addr, errno).
       Inr (connfd, if connfd \<ge> 0 then addr else peerAddr, errno))"

record tcp_info =
  tcpi_retransmits :: nat
  tcpi_rto :: nat
  tcpi_ato :: nat
  tcpi_snd_mss :: nat
  tcpi_rcv_mss :: nat
  tcpi_lost :: nat
  tcpi_retrans :: nat
  tcpi_rtt :: nat
  tcpi_rttvar :: nat
  tcpi_snd_ssthresh :: nat
  tcpi_snd_cwnd :: nat
  tcpi_total_retrans :: nat

definition zero_tcp_info :: tcp_info where
  "zero_tcp_info =
     \<lparr>tcpi_retransmits = 0, tcpi_rto = 0, tcpi_ato = 0, tcpi_snd_mss = 0, tcpi_rcv_mss = 0, tcpi_lost = 0,
      tcpi_retrans = 0, tcpi_rtt = 0, tcpi_rttvar = 0, tcpi_snd_ssthresh = 0, tcpi_snd_cwnd = 0,
      tcpi_total_retrans = 0\<rparr>"

text \<open>\<open>getsockopt\<close> returns 0 and the information, or -1; the code returns that number as a \<open>bool\<close>.\<close>

definition getTcpInfo :: "tcp_info option \<Rightarrow> bool \<times> tcp_info" where
  "getTcpInfo ans =
     (case ans of Some info \<Rightarrow> ((0 :: int) \<noteq> 0, info) | None \<Rightarrow> ((- 1 :: int) \<noteq> 0, zero_tcp_info))"

definition tcp_info_text :: "tcp_info \<Rightarrow> string" where
  "tcp_info_text i =
     ''unrecovered='' @ nat_str (tcpi_retransmits i) @
     '' rto='' @ nat_str (tcpi_rto i) @ '' ato='' @ nat_str (tcpi_ato i) @
     '' snd_mss='' @ nat_str (tcpi_snd_mss i) @ '' rcv_mss='' @ nat_str (tcpi_rcv_mss i) @
     '' lost='' @ nat_str (tcpi_lost i) @ '' retrans='' @ nat_str (tcpi_retrans i) @
     '' rtt='' @ nat_str (tcpi_rtt i) @ '' rttvar='' @ nat_str (tcpi_rttvar i) @
     '' sshthresh='' @ nat_str (tcpi_snd_ssthresh i) @ '' cwnd='' @ nat_str (tcpi_snd_cwnd i) @
     '' total_retrans='' @ nat_str (tcpi_total_retrans i)"

definition getTcpInfoString :: "tcp_info option \<Rightarrow> string \<Rightarrow> int \<Rightarrow> bool \<times> string" where
  "getTcpInfoString ans buf len =
     (let (ok, tcpi) = getTcpInfo ans
      in (ok, if ok then fst (snprintf (i32_to_size len) (tcp_info_text tcpi)) else buf))"

section \<open>The acceptor\<close>

record acceptor =
  ac_listenFd :: int
  ac_channel :: nat
  ac_poller :: poller
  m_acceptCb :: bool
  m_isListen :: bool
  m_idleFd :: int
  ac_open :: "int list"
  ac_handed :: "(int \<times> sockaddr) list"

definition sys_open :: "int \<Rightarrow> int list \<Rightarrow> int list" where
  "sys_open fd fds = (if fd \<ge> 0 then fd # fds else fds)"

definition sys_close :: "int \<Rightarrow> int list \<Rightarrow> int list" where
  "sys_close fd fds = removeAll fd fds"

text \<open>
  The constructor: the answers of \<open>socket\<close>, \<open>open\<close> and \<open>bind\<close>, the place of the channel and what
  the member \<open>m_isListen\<close>, which nothing initialises, holds.
\<close>

definition new_acceptor :: "int \<Rightarrow> int \<Rightarrow> int \<Rightarrow> bool \<Rightarrow> nat \<Rightarrow> poller \<Rightarrow> acceptor res" where
  "new_acceptor sockfd idleFd bound isListen a p =
     bindR (createNonblockingOrDie sockfd) (\<lambda>fd.
     assertR (idleFd \<ge> 0) (
     bindR (bindOrDie bound) (\<lambda>_.
     Inr \<lparr>ac_listenFd = fd, ac_channel = a, ac_poller = put_channel a (setReadCb 0 (new_channel fd)) p,
          m_acceptCb = False, m_isListen = isListen, m_idleFd = idleFd,
          ac_open = sys_open idleFd [fd], ac_handed = []\<rparr>)))"

definition setNewConnectionCallBack :: "acceptor \<Rightarrow> acceptor" where
  "setNewConnectionCallBack s = s\<lparr>m_acceptCb := True\<rparr>"

definition acceptor_listen :: "bool \<Rightarrow> int \<Rightarrow> acceptor \<Rightarrow> acceptor res" where
  "acceptor_listen inLoop ret s =
     assertInLoopThread inLoop (
     bindR (listenOrDie ret) (\<lambda>_.
     bindR (enableRead (ac_channel s) (ac_poller s)) (\<lambda>p.
     Inr (s\<lparr>m_isListen := True, ac_poller := p\<rparr>))))"

text \<open>The destructor, with that of the listening socket.\<close>

definition acceptor_dtor :: "acceptor \<Rightarrow> acceptor res" where
  "acceptor_dtor s =
     bindR (disableAll (ac_channel s) (ac_poller s)) (\<lambda>p.
     bindR (channel_remove (ac_channel s) p) (\<lambda>p.
     Inr (s\<lparr>ac_poller := p, ac_open := sys_close (ac_listenFd s) (sys_close (m_idleFd s) (ac_open s))\<rparr>)))"

text \<open>
  \<open>handleRead\<close>, with the answer of \<open>accept\<close>, what the log line leaves in \<open>errno\<close>, and the answers of
  the second \<open>accept\<close> and of \<open>open\<close> when the process has run out of descriptors.
\<close>

definition acceptor_handleRead ::
  "bool \<Rightarrow> accept_result \<Rightarrow> (int \<Rightarrow> int) \<Rightarrow> int \<Rightarrow> int \<Rightarrow> acceptor \<Rightarrow> acceptor res" where
  "acceptor_handleRead inLoop ans after_log second idle s =
     assertInLoopThread inLoop (
     bindR (socket_accept ans []) (\<lambda>(connfd, peerAddr, errno).
       if connfd \<ge> 0 then
         let s = s\<lparr>ac_open := sys_open connfd (ac_open s)\<rparr>
         in if m_acceptCb s then Inr (s\<lparr>ac_handed := ac_handed s @ [(connfd, peerAddr)]\<rparr>)
            else Inr (s\<lparr>ac_open := sys_close connfd (ac_open s)\<rparr>)
       else
         if after_log errno = EMFILE then
           let s = s\<lparr>ac_open := sys_close (m_idleFd s) (ac_open s)\<rparr>;
               s = s\<lparr>m_idleFd := second, ac_open := sys_open second (ac_open s)\<rparr>;
               s = s\<lparr>ac_open := sys_close (m_idleFd s) (ac_open s)\<rparr>
           in Inr (s\<lparr>m_idleFd := idle, ac_open := sys_open idle (ac_open s)\<rparr>)
         else Inr s))"

section \<open>The pool of loops\<close>

record loop_pool =
  m_threadNum :: int
  m_baseLoop :: nat
  m_nextIdx :: int
  pool_started :: bool
  m_vecLoops :: "nat list"

definition new_loop_pool :: "nat \<Rightarrow> loop_pool" where
  "new_loop_pool baseLoop =
     \<lparr>m_threadNum = 0, m_baseLoop = baseLoop, m_nextIdx = 0, pool_started = False, m_vecLoops = []\<rparr>"

definition setThreadNum :: "int \<Rightarrow> loop_pool \<Rightarrow> loop_pool" where
  "setThreadNum n p = p\<lparr>m_threadNum := n\<rparr>"

text \<open>\<open>startLoop i\<close> is the loop of the thread \<open>i\<close>; the second result says which loops \<open>cb\<close> saw.\<close>

definition pool_start :: "bool \<Rightarrow> (nat \<Rightarrow> nat) \<Rightarrow> bool \<Rightarrow> loop_pool \<Rightarrow> (loop_pool \<times> nat list) res" where
  "pool_start inLoop startLoop cb p =
     assertR (\<not> pool_started p) (
     assertInLoopThread inLoop (
       if m_threadNum p < 0 then Inl Length_error
       else
         let loops = map startLoop [0..<nat (m_threadNum p)];
             p = p\<lparr>pool_started := True, m_vecLoops := m_vecLoops p @ loops\<rparr>
         in Inr (p, if \<not> cb then [] else if m_threadNum p = 0 then [m_baseLoop p] else loops)))"

definition getNextLoop :: "bool \<Rightarrow> loop_pool \<Rightarrow> (nat \<times> loop_pool) res" where
  "getNextLoop inLoop p =
     assertInLoopThread inLoop (
     assertR (pool_started p) (
       if m_vecLoops p \<noteq> [] then
         let i = i32_to_size (m_nextIdx p)
         in if i < length (m_vecLoops p) \<and> m_threadNum p \<noteq> 0 then
              Inr (m_vecLoops p ! i, p\<lparr>m_nextIdx := (m_nextIdx p + 1) smod m_threadNum p\<rparr>)
            else Inl Undefined
       else Inr (m_baseLoop p, p)))"

definition getAllLoops :: "loop_pool \<Rightarrow> nat list" where
  "getAllLoops p = m_vecLoops p"

section \<open>The server\<close>

text \<open>
  What the server asks loops to run: the establishing and the destruction of a connection, and the
  acceptor's \<open>listen\<close>. The first component is the loop, the second says whether it is queued
  (\<open>queueInLoop\<close>) or may run at once (\<open>runInLoop\<close>).
\<close>

datatype server_task = Established nat | Destroyed nat | Listen | Remove nat

record tcp_conn =
  cn_name :: string
  cn_loop :: nat

record server =
  sv_ipPort :: string
  sv_name :: string
  sv_acceptor :: acceptor
  sv_pool :: loop_pool
  sv_started :: int
  m_nextConnId :: int
  m_connections :: "string \<rightharpoonup> nat"
  sv_conns :: "tcp_conn list"
  sv_tasks :: "(nat \<times> bool \<times> server_task) list"

text \<open>The constructor. \<open>nameArg\<close> only names the pool; the member \<open>m_name\<close> stays empty.\<close>

definition new_server :: "ntop \<Rightarrow> sockaddr \<Rightarrow> nat \<Rightarrow> acceptor res \<Rightarrow> server res" where
  "new_server ntop addr baseLoop acc =
     bindR (toIpPort ntop addr) (\<lambda>ipPort.
     bindR acc (\<lambda>acc.
     Inr \<lparr>sv_ipPort = ipPort, sv_name = [], sv_acceptor = setNewConnectionCallBack acc,
          sv_pool = new_loop_pool baseLoop, sv_started = 0, m_nextConnId = 1, m_connections = Map.empty,
          sv_conns = [], sv_tasks = []\<rparr>))"

definition server_setThreadNum :: "int \<Rightarrow> server \<Rightarrow> server res" where
  "server_setThreadNum n s = assertR (0 \<le> n) (Inr (s\<lparr>sv_pool := setThreadNum n (sv_pool s)\<rparr>))"

definition add_server_task :: "nat \<Rightarrow> bool \<Rightarrow> server_task \<Rightarrow> server \<Rightarrow> server" where
  "add_server_task ioLoop viaQueue t s = s\<lparr>sv_tasks := sv_tasks s @ [(ioLoop, viaQueue, t)]\<rparr>"

definition server_start :: "bool \<Rightarrow> (nat \<Rightarrow> nat) \<Rightarrow> bool \<Rightarrow> server \<Rightarrow> server res" where
  "server_start inLoop startLoop cb s =
     (let old = sv_started s; s = s\<lparr>sv_started := sv_started s + 1\<rparr>
      in if old = 0 then
           bindR (pool_start inLoop startLoop cb (sv_pool s)) (\<lambda>(p, _).
           let s = s\<lparr>sv_pool := p\<rparr>
           in assertR (\<not> m_isListen (sv_acceptor s)) (
             Inr (add_server_task (m_baseLoop (sv_pool s)) False Listen s)))
         else Inr s)"

text \<open>A connection's name, cut to the 63 characters that \<open>buf\<close> holds.\<close>

definition conn_name :: "string \<Rightarrow> string \<Rightarrow> int \<Rightarrow> string" where
  "conn_name name ipPort i = name @ fst (snprintf 64 (''-'' @ ipPort @ ''#'' @ fmt_d i))"

definition newConnection :: "bool \<Rightarrow> server \<Rightarrow> server res" where
  "newConnection inLoop s =
     assertInLoopThread inLoop (
     bindR (getNextLoop inLoop (sv_pool s)) (\<lambda>(ioLoop, p).
       let connName = conn_name (sv_name s) (sv_ipPort s) (m_nextConnId s);
           conn = length (sv_conns s)
       in if m_nextConnId s + 1 < 2 ^ 31 then
            Inr (add_server_task ioLoop False (Established conn)
              (s\<lparr>sv_pool := p, m_nextConnId := m_nextConnId s + 1,
                 sv_conns := sv_conns s @ [\<lparr>cn_name = connName, cn_loop = ioLoop\<rparr>],
                 m_connections := (m_connections s)(connName \<mapsto> conn)\<rparr>))
          else Inl Undefined))"

definition removeConnectionInLoop :: "bool \<Rightarrow> nat \<Rightarrow> server \<Rightarrow> server res" where
  "removeConnectionInLoop inLoop conn s =
     assertInLoopThread inLoop (
       let c = sv_conns s ! conn;
           n = (if m_connections s (cn_name c) = None then 0 else 1 :: nat)
       in assertR (n = 1) (
            Inr (add_server_task (cn_loop c) True (Destroyed conn)
              (s\<lparr>m_connections := (m_connections s)(cn_name c := None)\<rparr>))))"

definition removeConnection :: "nat \<Rightarrow> server \<Rightarrow> server" where
  "removeConnection conn s = add_server_task (m_baseLoop (sv_pool s)) False (Remove conn) s"

text \<open>The destructor has every connection left destroyed on its own loop, in the order of the names.\<close>

definition server_dtor :: "bool \<Rightarrow> string list \<Rightarrow> server \<Rightarrow> server res" where
  "server_dtor inLoop names s =
     assertInLoopThread inLoop (
       Inr (fold (\<lambda>name s. case m_connections s name of
           Some conn \<Rightarrow> add_server_task (cn_loop (sv_conns s ! conn)) False (Destroyed conn) s
         | None \<Rightarrow> s) names s))"

section \<open>Properties of the acceptor\<close>

text \<open>The descriptors the acceptor has to account for.\<close>

definition handed_fds :: "acceptor \<Rightarrow> int set" where
  "handed_fds s = fst ` set (ac_handed s)"

definition accounted :: "acceptor \<Rightarrow> int set" where
  "accounted s = {ac_listenFd s} \<union> (if m_idleFd s \<ge> 0 then {m_idleFd s} else {}) \<union> handed_fds s"

text \<open>The kernel gives out descriptors that are not open, and never negative ones with success.\<close>

definition fresh_answers :: "accept_result \<Rightarrow> int \<Rightarrow> int \<Rightarrow> acceptor \<Rightarrow> bool" where
  "fresh_answers ans second idle s \<longleftrightarrow>
     (case ans of Accepted fd _ \<Rightarrow> fd \<ge> 0 \<and> fd \<notin> set (ac_open s) | Accept_failed _ \<Rightarrow> True)
     \<and> (second \<ge> 0 \<longrightarrow> second \<notin> set (ac_open s) - {m_idleFd s})
     \<and> (idle \<ge> 0 \<longrightarrow> idle \<notin> set (ac_open s) - {m_idleFd s})"

definition acceptor_ok :: "acceptor \<Rightarrow> bool" where
  "acceptor_ok s \<longleftrightarrow> set (ac_open s) = accounted s \<and> distinct (ac_open s) \<and> ac_listenFd s \<ge> 0
     \<and> m_idleFd s \<noteq> ac_listenFd s \<and> m_idleFd s \<notin> handed_fds s
     \<and> ac_listenFd s \<notin> handed_fds s \<and> (\<forall>fd \<in> handed_fds s. 0 \<le> fd)"

lemma handed_fds_simps [simp]:
  "handed_fds (s\<lparr>ac_open := fds\<rparr>) = handed_fds s" "handed_fds (s\<lparr>m_idleFd := i\<rparr>) = handed_fds s"
  "handed_fds (s\<lparr>ac_handed := ac_handed s @ [(fd, addr)]\<rparr>) = insert fd (handed_fds s)"
  "handed_fds (s\<lparr>ac_open := fds, ac_handed := ac_handed s @ [(fd, addr)]\<rparr>) = insert fd (handed_fds s)"
  by (auto simp: handed_fds_def)

lemma new_acceptor_ok:
  "new_acceptor sockfd idleFd bound l a p = Inr s \<Longrightarrow> sockfd \<noteq> idleFd \<Longrightarrow> acceptor_ok s"
  by (auto simp: new_acceptor_def createNonblockingOrDie_def acceptor_ok_def accounted_def handed_fds_def sys_open_def
      res_simps split: if_splits)

lemma sys_open_close: "fd \<notin> set fds \<Longrightarrow> sys_close fd (sys_open fd fds) = fds"
  by (simp add: sys_close_def sys_open_def)

text \<open>Closing the idle descriptor and opening it again keeps the account.\<close>

lemma trick_ok:
  assumes "acceptor_ok s" "idle \<ge> 0 \<longrightarrow> idle \<notin> set (ac_open s) - {m_idleFd s}"
  shows "acceptor_ok (s\<lparr>m_idleFd := idle, ac_open := sys_open idle (sys_close (m_idleFd s) (ac_open s))\<rparr>)"
  using assms by (auto simp: acceptor_ok_def accounted_def sys_open_def sys_close_def distinct_removeAll)

lemma hand_over_ok:
  assumes "acceptor_ok s" "fd \<ge> 0" "fd \<notin> set (ac_open s)"
  shows "acceptor_ok (s\<lparr>ac_open := sys_open fd (ac_open s), ac_handed := ac_handed s @ [(fd, addr)]\<rparr>)"
  using assms by (auto simp: acceptor_ok_def accounted_def sys_open_def)

lemma handleRead_ok:
  assumes "acceptor_ok s" "fresh_answers ans second idle s"
    and "acceptor_handleRead inLoop ans after_log second idle s = Inr s'"
  shows "acceptor_ok s'"
proof -
  from assms(3) obtain connfd peer errno where a: "socket_accept ans [] = Inr (connfd, peer, errno)"
    by (auto simp: acceptor_handleRead_def assertInLoopThread_def res_simps split: if_splits)
  show ?thesis
  proof (cases ans)
    case (Accepted fd addr)
    then have fd: "fd \<ge> 0" "fd \<notin> set (ac_open s)" using assms(2) by (simp_all add: fresh_answers_def)
    have "s' = s\<lparr>ac_open := sys_open fd (ac_open s), ac_handed := ac_handed s @ [(fd, addr)]\<rparr> \<or> s' = s"
      using assms(3) fd sys_open_close [OF fd(2)]
      by (auto simp: acceptor_handleRead_def assertInLoopThread_def socket_accept_def sockets_accept_def Accepted
          Let_def split: if_splits)
    then show ?thesis using hand_over_ok [OF assms(1) fd] assms(1) by auto
  next
    case (Accept_failed e)
    then have "connfd = -1" "errno = e"
      using a by (auto simp: socket_accept_def sockets_accept_def split: if_splits)
    then have s': "s' = (if after_log e = EMFILE then
        s\<lparr>m_idleFd := idle, ac_open := sys_open idle (sys_close second (sys_open second (sys_close (m_idleFd s) (ac_open s))))\<rparr>
      else s)"
      using assms(3) a by (auto simp: acceptor_handleRead_def assertInLoopThread_def Let_def split: if_splits)
    have "sys_close second (sys_open second (sys_close (m_idleFd s) (ac_open s))) = sys_close (m_idleFd s) (ac_open s)"
    proof (rule sys_open_close)
      show "second \<notin> set (sys_close (m_idleFd s) (ac_open s))"
      proof (cases "second \<ge> 0")
        case False
        then show ?thesis using assms(1) by (auto simp: acceptor_ok_def accounted_def sys_close_def)
      qed (use assms(2) in \<open>auto simp: fresh_answers_def sys_close_def\<close>)
    qed
    then show ?thesis unfolding s' using trick_ok [OF assms(1), of idle] assms by (simp add: fresh_answers_def)
  qed
qed

text \<open>
  C36. The acceptor accounts for every descriptor: one accepted connection is handed to the callback
  or, without one, closed; when the process has run out of descriptors the idle one is given up to
  accept and drop one connection and then taken again; the other expected errors change nothing and
  an unexpected one is fatal. In each case the descriptors left open are the listening one, the idle
  one and those handed over, none twice, so none leaks.
\<close>

theorem acceptor_accounts:
  assumes "acceptor_ok s" "fresh_answers ans second idle s" "\<forall>e. after_log e = e"
  shows "case ans of
      Accepted fd addr \<Rightarrow>
        (\<exists>s'. acceptor_handleRead True ans after_log second idle s = Inr s' \<and> acceptor_ok s'
          \<and> ac_handed s' = (if m_acceptCb s then ac_handed s @ [(fd, addr)] else ac_handed s)
          \<and> set (ac_open s') = (if m_acceptCb s then insert fd (set (ac_open s)) else set (ac_open s)))
    | Accept_failed e \<Rightarrow>
        if e = EMFILE then
          (\<exists>s'. acceptor_handleRead True ans after_log second idle s = Inr s' \<and> acceptor_ok s'
            \<and> m_idleFd s' = idle \<and> ac_handed s' = ac_handed s)
        else acceptor_handleRead True ans after_log second idle s
          = (if e \<in> {EAGAIN, ECONNABORTED, EINTR, EPROTO, EPERM} then Inr s else Inl Fatal_log)"
proof (cases ans)
  case (Accepted fd addr)
  then have fd: "fd \<ge> 0" "fd \<notin> set (ac_open s)" using assms(2) by (simp_all add: fresh_answers_def)
  show ?thesis
  proof (cases "m_acceptCb s")
    case True
    then have "acceptor_handleRead True ans after_log second idle s
        = Inr (s\<lparr>ac_open := sys_open fd (ac_open s), ac_handed := ac_handed s @ [(fd, addr)]\<rparr>)"
      using fd by (simp add: acceptor_handleRead_def assertInLoopThread_def socket_accept_def sockets_accept_def
          Accepted Let_def)
    with True hand_over_ok [OF assms(1) fd, of addr] fd show ?thesis by (simp add: Accepted sys_open_def)
  next
    case False
    then have "acceptor_handleRead True ans after_log second idle s = Inr s"
      using fd sys_open_close [OF fd(2)]
      by (simp add: acceptor_handleRead_def assertInLoopThread_def socket_accept_def sockets_accept_def
          Accepted Let_def)
    with False assms(1) show ?thesis by (simp add: Accepted)
  qed
next
  case (Accept_failed e)
  show ?thesis
  proof (cases "e = EMFILE")
    case True
    then obtain s' where s': "acceptor_handleRead True ans after_log second idle s = Inr s'"
      "m_idleFd s' = idle" "ac_handed s' = ac_handed s"
      using assms(3) by (simp add: acceptor_handleRead_def assertInLoopThread_def socket_accept_def
          sockets_accept_def Accept_failed Let_def)
    with handleRead_ok [OF assms(1,2) s'(1)] True show ?thesis by (simp add: Accept_failed)
  next
    case False
    with assms(3) show ?thesis
      by (simp add: acceptor_handleRead_def assertInLoopThread_def socket_accept_def sockets_accept_def Accept_failed)
  qed
qed

definition sample_acceptor :: acceptor where
  "sample_acceptor =
     \<lparr>ac_listenFd = 4, ac_channel = 1, ac_poller = new_EpollPoller, m_acceptCb = True, m_isListen = True,
      m_idleFd = 5, ac_open = [5, 4], ac_handed = []\<rparr>"

lemma acceptor_accounts_witness:
  "(\<exists>s'. acceptor_handleRead True (Accepted 6 []) (\<lambda>e. e) 7 5 sample_acceptor = Inr s' \<and> set (ac_open s') = {4, 5, 6})
    \<and> (\<exists>s'. acceptor_handleRead True (Accept_failed EMFILE) (\<lambda>e. e) 5 5 sample_acceptor = Inr s' \<and> m_idleFd s' = 5)"
proof -
  have ok: "acceptor_ok sample_acceptor"
    by (auto simp: acceptor_ok_def accounted_def handed_fds_def sample_acceptor_def)
  have f: "fresh_answers (Accepted 6 []) 7 5 sample_acceptor" "fresh_answers (Accept_failed EMFILE) 5 5 sample_acceptor"
    by (simp_all add: fresh_answers_def sample_acceptor_def)
  have "insert 6 (set (ac_open sample_acceptor)) = {4, 5, 6 :: int}" by (auto simp: sample_acceptor_def)
  moreover have "m_acceptCb sample_acceptor" by (simp add: sample_acceptor_def)
  ultimately show ?thesis
    using acceptor_accounts [OF ok f(1), of "\<lambda>e. e"] acceptor_accounts [OF ok f(2), of "\<lambda>e. e"] by auto
qed

section \<open>Properties of the server\<close>

text \<open>A connection arrives, or a connection that is still known has been closed.\<close>

datatype server_event = Conn | Gone nat

fun server_step :: "server_event \<Rightarrow> server \<Rightarrow> server res" where
  "server_step Conn s = newConnection True s"
| "server_step (Gone c) s = removeConnectionInLoop True c s"

text \<open>What should happen, on the numbers of the connections alone.\<close>

fun possible :: "nat \<Rightarrow> nat list \<Rightarrow> server_event list \<Rightarrow> bool" where
  "possible k live [] = True"
| "possible k live (Conn # evs) = possible (Suc k) (live @ [k]) evs"
| "possible k live (Gone c # evs) = (c \<in> set live \<and> possible k (removeAll c live) evs)"

fun live_after :: "nat \<Rightarrow> nat list \<Rightarrow> server_event list \<Rightarrow> nat list" where
  "live_after k live [] = live"
| "live_after k live (Conn # evs) = live_after (Suc k) (live @ [k]) evs"
| "live_after k live (Gone c # evs) = live_after k (removeAll c live) evs"

fun tasks_of :: "(nat \<Rightarrow> nat) \<Rightarrow> nat \<Rightarrow> server_event list \<Rightarrow> (nat \<times> bool \<times> server_task) list" where
  "tasks_of lo k [] = []"
| "tasks_of lo k (Conn # evs) = (lo k, False, Established k) # tasks_of lo (Suc k) evs"
| "tasks_of lo k (Gone c # evs) = (lo c, True, Destroyed c) # tasks_of lo k evs"

fun arrivals :: "server_event list \<Rightarrow> nat" where
  "arrivals [] = 0"
| "arrivals (Conn # evs) = Suc (arrivals evs)"
| "arrivals (Gone c # evs) = arrivals evs"

definition loop_of :: "loop_pool \<Rightarrow> nat \<Rightarrow> nat" where
  "loop_of p k = (if m_vecLoops p = [] then m_baseLoop p else m_vecLoops p ! (k mod length (m_vecLoops p)))"

definition name_of :: "server \<Rightarrow> nat \<Rightarrow> string" where
  "name_of s k = conn_name (sv_name s) (sv_ipPort s) (int k + 1)"

lemma conn_name_inj:
  assumes "length ipPort \<le> 53" "i < 10 ^ 8" "j < 10 ^ 8" "0 \<le> i" "0 \<le> j"
  shows "conn_name name ipPort i = conn_name name ipPort j \<longleftrightarrow> i = j"
proof -
  have len: "length (fmt_d i) \<le> 8" if "0 \<le> i" "i < 10 ^ 8" for i
  proof -
    from that have "nat i < 10 ^ Suc 7" by simp
    from length_nat_str_le [OF this] that show ?thesis by (simp add: fmt_d_def)
  qed
  have "conn_name name ipPort i = name @ ''-'' @ ipPort @ ''#'' @ fmt_d i" if "0 \<le> i" "i < 10 ^ 8" for i
    using len [OF that] assms(1) by (simp add: conn_name_def snprintf_fits)
  then have "conn_name name ipPort i = conn_name name ipPort j \<longleftrightarrow> fmt_d i = fmt_d j"
    using assms(2-) by simp
  also have "\<dots> \<longleftrightarrow> i = j" by (metis str_val_fmt_d)
  finally show ?thesis .
qed

text \<open>What the server keeps, \<open>k\<close> connections made and \<open>live\<close> of them known.\<close>

definition server_inv :: "loop_pool \<Rightarrow> server \<Rightarrow> nat \<Rightarrow> nat list \<Rightarrow> server \<Rightarrow> bool" where
  "server_inv p0 s0 k live s \<longleftrightarrow>
     sv_name s = sv_name s0 \<and> sv_ipPort s = sv_ipPort s0 \<and> m_nextConnId s = int k + 1 \<and>
     pool_started (sv_pool s) \<and> m_vecLoops (sv_pool s) = m_vecLoops p0 \<and> m_baseLoop (sv_pool s) = m_baseLoop p0 \<and>
     m_threadNum (sv_pool s) = int (length (m_vecLoops p0)) \<and>
     (m_vecLoops p0 \<noteq> [] \<longrightarrow> m_nextIdx (sv_pool s) = int (k mod length (m_vecLoops p0))) \<and>
     sv_conns s = map (\<lambda>i. \<lparr>cn_name = name_of s0 i, cn_loop = loop_of p0 i\<rparr>) [0..<k] \<and>
     (\<forall>c \<in> set live. c < k) \<and>
     (\<forall>name c. m_connections s name = Some c \<longleftrightarrow> c \<in> set live \<and> name = name_of s0 c)"

lemma getNextLoop_ok:
  assumes "pool_started p" "m_threadNum p = int n" "length (m_vecLoops p) = n" "n < 2 ^ 31"
    and "m_vecLoops p \<noteq> [] \<longrightarrow> m_nextIdx p = int (k mod n)"
  shows "\<exists>p'. getNextLoop True p = Inr (loop_of p k, p') \<and> pool_started p' \<and> m_threadNum p' = int n
    \<and> m_vecLoops p' = m_vecLoops p \<and> m_baseLoop p' = m_baseLoop p
    \<and> (m_vecLoops p \<noteq> [] \<longrightarrow> m_nextIdx p' = int (Suc k mod n))"
proof (cases "m_vecLoops p = []")
  case True
  then show ?thesis using assms by (simp add: getNextLoop_def assertInLoopThread_def loop_of_def)
next
  case False
  with assms(3) have n: "0 < n" by auto
  then have "k mod n < n" by simp
  with assms(4) have "int (k mod n) < 2 ^ 31" by simp
  then have i: "i32_to_size (m_nextIdx p) = k mod n" using assms(5) False by (simp add: i32_to_size_nonneg)
  have "(m_nextIdx p + 1) smod m_threadNum p = (int (k mod n) + 1) mod int n"
    using assms(2,5) False n by (simp add: smod_nonneg)
  also have "\<dots> = int (Suc k mod n)" by (simp add: zmod_int mod_simps add.commute)
  finally show ?thesis
    using False assms n i \<open>k mod n < n\<close> by (simp add: getNextLoop_def assertInLoopThread_def loop_of_def Let_def)
qed

lemma new_conn_ok:
  assumes i: "server_inv p0 s0 k live s" and b: "length (m_vecLoops p0) < 2 ^ 31" "length (sv_ipPort s0) \<le> 53" "Suc k < 10 ^ 8"
  shows "\<exists>s'. newConnection True s = Inr s' \<and> server_inv p0 s0 (Suc k) (live @ [k]) s'
    \<and> sv_tasks s' = sv_tasks s @ [(loop_of p0 k, False, Established k)]"
proof -
  from i have pl: "pool_started (sv_pool s)" "m_threadNum (sv_pool s) = int (length (m_vecLoops p0))"
    "length (m_vecLoops (sv_pool s)) = length (m_vecLoops p0)"
    "m_vecLoops (sv_pool s) \<noteq> [] \<longrightarrow> m_nextIdx (sv_pool s) = int (k mod length (m_vecLoops p0))"
    by (simp_all add: server_inv_def)
  from getNextLoop_ok [OF pl(1,2,3) b(1) pl(4)] obtain p' where p': "getNextLoop True (sv_pool s) = Inr (loop_of (sv_pool s) k, p')"
    "pool_started p'" "m_threadNum p' = int (length (m_vecLoops p0))" "m_vecLoops p' = m_vecLoops (sv_pool s)"
    "m_baseLoop p' = m_baseLoop (sv_pool s)"
    "m_vecLoops (sv_pool s) \<noteq> [] \<longrightarrow> m_nextIdx p' = int (Suc k mod length (m_vecLoops p0))"
    by blast
  have lo: "loop_of (sv_pool s) k = loop_of p0 k" using i by (simp add: server_inv_def loop_of_def)
  have nm: "conn_name (sv_name s) (sv_ipPort s) (m_nextConnId s) = name_of s0 k"
    using i by (simp add: server_inv_def name_of_def)
  have len: "length (sv_conns s) = k" using i by (simp add: server_inv_def)
  have inj: "name_of s0 c = name_of s0 k \<longleftrightarrow> c = k" if "c \<le> k" for c
    using conn_name_inj [OF b(2), of "int c + 1" "int k + 1" "sv_name s0"] that b(3) by (simp add: name_of_def)
  let ?s' = "add_server_task (loop_of p0 k) False (Established k)
      (s\<lparr>sv_pool := p', m_nextConnId := m_nextConnId s + 1,
         sv_conns := sv_conns s @ [\<lparr>cn_name = name_of s0 k, cn_loop = loop_of p0 k\<rparr>],
         m_connections := (m_connections s)(name_of s0 k \<mapsto> k)\<rparr>)"
  have "m_nextConnId s + 1 < 2147483648" using i b(3) by (simp add: server_inv_def)
  then have "newConnection True s = Inr ?s'"
    using p'(1) by (simp add: newConnection_def assertInLoopThread_def lo nm len Let_def)
  moreover have "\<forall>c \<in> set live. c < k" using i by (simp add: server_inv_def)
  then have lk: "\<forall>c \<in> set (live @ [k]). c < Suc k" by auto
  have ms: "m_connections s name = Some c \<longleftrightarrow> c \<in> set live \<and> name = name_of s0 c" for name c
    using i by (simp add: server_inv_def)
  have "((m_connections s)(name_of s0 k \<mapsto> k)) name = Some c
      \<longleftrightarrow> c \<in> set (live @ [k]) \<and> name = name_of s0 c" for name c
  proof (cases "name = name_of s0 k")
    case True
    have "name_of s0 k = name_of s0 c \<longleftrightarrow> k = c" if "c \<in> set live" using inj [of c] lk that by fastforce
    with True show ?thesis by auto
  qed (use ms [of name c] in auto)
  then have "server_inv p0 s0 (Suc k) (live @ [k]) ?s'"
    using i p' lk by (simp add: server_inv_def add_server_task_def del: fun_upd_apply)
  ultimately show ?thesis by (simp add: add_server_task_def)
qed

lemma gone_ok:
  assumes i: "server_inv p0 s0 k live s" and c: "c \<in> set live"
    and b: "length (sv_ipPort s0) \<le> 53" "k < 10 ^ 8"
  shows "\<exists>s'. removeConnectionInLoop True c s = Inr s' \<and> server_inv p0 s0 k (removeAll c live) s'
    \<and> sv_tasks s' = sv_tasks s @ [(loop_of p0 c, True, Destroyed c)]"
proof -
  from i c have ck: "c < k" by (simp add: server_inv_def)
  then have conn: "sv_conns s ! c = \<lparr>cn_name = name_of s0 c, cn_loop = loop_of p0 c\<rparr>"
    using i by (simp add: server_inv_def)
  have m: "m_connections s (name_of s0 c) = Some c" using i c by (simp add: server_inv_def)
  have inj: "name_of s0 d = name_of s0 c \<longleftrightarrow> d = c" if "d \<in> set live" for d
  proof -
    have "d < k" using that i by (simp add: server_inv_def)
    then show ?thesis
      using conn_name_inj [OF b(1), of "int d + 1" "int c + 1" "sv_name s0"] ck b(2) by (simp add: name_of_def)
  qed
  let ?s' = "add_server_task (loop_of p0 c) True (Destroyed c)
      (s\<lparr>m_connections := (m_connections s)(name_of s0 c := None)\<rparr>)"
  have "removeConnectionInLoop True c s = Inr ?s'"
    by (simp add: removeConnectionInLoop_def assertInLoopThread_def conn m Let_def)
  moreover have ms: "m_connections s name = Some d \<longleftrightarrow> d \<in> set live \<and> name = name_of s0 d" for name d
    using i by (simp add: server_inv_def)
  have "((m_connections s)(name_of s0 c := None)) name = Some d
      \<longleftrightarrow> d \<in> set (removeAll c live) \<and> name = name_of s0 d" for name d
  proof (cases "name = name_of s0 c")
    case True
    with inj [of d] show ?thesis by auto
  qed (use ms [of name d] in auto)
  then have "server_inv p0 s0 k (removeAll c live) ?s'"
    using i by (simp add: server_inv_def add_server_task_def del: fun_upd_apply)
  ultimately show ?thesis by (simp add: add_server_task_def)
qed

lemma server_run_ok:
  assumes b: "length (m_vecLoops p0) < 2 ^ 31" "length (sv_ipPort s0) \<le> 53"
  shows "server_inv p0 s0 k live s \<Longrightarrow> possible k live evs \<Longrightarrow> k + arrivals evs < 10 ^ 8 - 1 \<Longrightarrow>
    \<exists>s'. foldR server_step evs s = Inr s' \<and> server_inv p0 s0 (k + arrivals evs) (live_after k live evs) s'
      \<and> sv_tasks s' = sv_tasks s @ tasks_of (loop_of p0) k evs"
proof (induction evs arbitrary: k live s)
  case (Cons ev evs)
  show ?case
  proof (cases ev)
    case Conn
    with Cons.prems obtain s1 where s1: "newConnection True s = Inr s1" "server_inv p0 s0 (Suc k) (live @ [k]) s1"
      "sv_tasks s1 = sv_tasks s @ [(loop_of p0 k, False, Established k)]"
      using new_conn_ok [OF Cons.prems(1) b] by auto
    from Cons.IH [OF s1(2)] Cons.prems Conn s1 show ?thesis by simp
  next
    case (Gone c)
    with Cons.prems obtain s1 where s1: "removeConnectionInLoop True c s = Inr s1"
      "server_inv p0 s0 k (removeAll c live) s1" "sv_tasks s1 = sv_tasks s @ [(loop_of p0 c, True, Destroyed c)]"
      using gone_ok [OF Cons.prems(1) _ b(2), of c] by auto
    from Cons.IH [OF s1(2)] Cons.prems Gone s1 show ?thesis by simp
  qed
qed simp

text \<open>
  C35. The server keeps its books: for every possible order of arrivals and closings (fewer than
  10^8 - 1 arrivals, an address text of at most 53 characters) no assertion fails, the map of
  connections holds exactly the live connections, each under its own name, no two connections ever
  share a name, arrival \<open>k\<close> runs on loop \<open>k\<close> modulo the number of loops (the server's own loop
  without threads), and each loop is asked to establish its connections and to destroy those
  closed, once each.
\<close>

theorem server_keeps_books:
  assumes "sv_conns s = []" "m_connections s = Map.empty" "m_nextConnId s = 1" "length (sv_ipPort s) \<le> 53"
    and "pool_started (sv_pool s)" "m_nextIdx (sv_pool s) = 0"
    and "m_threadNum (sv_pool s) = int (length (m_vecLoops (sv_pool s)))" "length (m_vecLoops (sv_pool s)) < 2 ^ 31"
    and "possible 0 [] evs" "arrivals evs < 10 ^ 8 - 1"
  shows "\<exists>s'. foldR server_step evs s = Inr s'
    \<and> (\<forall>name c. m_connections s' name = Some c \<longleftrightarrow> c \<in> set (live_after 0 [] evs) \<and> name = cn_name (sv_conns s' ! c))
    \<and> map cn_loop (sv_conns s') = map (loop_of (sv_pool s)) [0..<arrivals evs]
    \<and> distinct (map cn_name (sv_conns s'))
    \<and> sv_tasks s' = sv_tasks s @ tasks_of (loop_of (sv_pool s)) 0 evs"
proof -
  have "server_inv (sv_pool s) s 0 [] s" using assms(1-7) by (simp add: server_inv_def)
  from server_run_ok [OF assms(8,4) this assms(9)] assms(10) obtain s' where s':
    "foldR server_step evs s = Inr s'" "server_inv (sv_pool s) s (arrivals evs) (live_after 0 [] evs) s'"
    "sv_tasks s' = sv_tasks s @ tasks_of (loop_of (sv_pool s)) 0 evs"
    by auto
  let ?k = "arrivals evs"
  have conns: "sv_conns s' = map (\<lambda>i. \<lparr>cn_name = name_of s i, cn_loop = loop_of (sv_pool s) i\<rparr>) [0..<?k]"
    and live: "\<forall>c \<in> set (live_after 0 [] evs). c < ?k"
    and ms: "m_connections s' name = Some c \<longleftrightarrow> c \<in> set (live_after 0 [] evs) \<and> name = name_of s c" for name c
    using s'(2) by (simp_all add: server_inv_def)
  have "m_connections s' name = Some c \<longleftrightarrow> c \<in> set (live_after 0 [] evs) \<and> name = cn_name (sv_conns s' ! c)" for name c
    using ms [of name c] live by (auto simp: conns)
  moreover have "map cn_loop (sv_conns s') = map (loop_of (sv_pool s)) [0..<?k]" by (simp add: conns comp_def)
  moreover have "inj_on (name_of s) (set [0..<?k])"
  proof (rule inj_onI)
    fix i j assume "i \<in> set [0..<?k]" "j \<in> set [0..<?k]" "name_of s i = name_of s j"
    then show "i = j"
      using conn_name_inj [OF assms(4), of "int i + 1" "int j + 1" "sv_name s"] assms(10) by (simp add: name_of_def)
  qed
  then have "distinct (map cn_name (sv_conns s'))" by (simp add: conns comp_def distinct_map)
  ultimately show ?thesis using s'(1,3) by blast
qed

definition sample_server :: server where
  "sample_server =
     \<lparr>sv_ipPort = ''127.0.0.1:80'', sv_name = [], sv_acceptor = sample_acceptor,
      sv_pool = \<lparr>m_threadNum = 2, m_baseLoop = 0, m_nextIdx = 0, pool_started = True, m_vecLoops = [10, 11]\<rparr>,
      sv_started = 1, m_nextConnId = 1, m_connections = Map.empty, sv_conns = [], sv_tasks = []\<rparr>"

lemma server_keeps_books_witness:
  "\<exists>s'. foldR server_step [Conn, Conn, Gone 0, Conn] sample_server = Inr s' \<and> map cn_loop (sv_conns s') = [10, 11, 10]
    \<and> sv_tasks s' = [(10, False, Established 0), (11, False, Established 1), (10, True, Destroyed 0), (10, False, Established 2)]"
  using server_keeps_books [of sample_server "[Conn, Conn, Gone 0, Conn]"]
  by (auto simp: sample_server_def loop_of_def upt_rec)

text \<open>
  The limits: \<open>buf\<close> cuts the name of a connection off for an address text of 53 characters (an IPv6
  address) and a number of nine digits, and two connections then get the same name; and the number
  of threads may be raised after the pool has started, after which the next loop is looked up outside
  the vector.
\<close>

lemma server_limits:
  "conn_name name (replicate 53 c) 123456780 = conn_name name (replicate 53 c) 123456781"
  "getNextLoop True (setThreadNum 3 \<lparr>m_threadNum = 2, m_baseLoop = 0, m_nextIdx = 2, pool_started = True,
      m_vecLoops = [10, 11]\<rparr>) = Inl Undefined"
proof -
  have "length (nat_str 12345678) = 8"
    using length_nat_str_le [of 12345678 7] length_nat_str_ge [of 7 12345678] by simp
  then have "take 8 (nat_str 12345678 @ [d]) = nat_str 12345678" for d by simp
  then show "conn_name name (replicate 53 c) 123456780 = conn_name name (replicate 53 c) 123456781"
    by (simp add: conn_name_def snprintf_def fmt_d_def nat_str_step take_Cons')
  show "getNextLoop True (setThreadNum 3 \<lparr>m_threadNum = 2, m_baseLoop = 0, m_nextIdx = 2, pool_started = True,
      m_vecLoops = [10, 11]\<rparr>) = Inl Undefined"
    by (simp add: getNextLoop_def setThreadNum_def assertInLoopThread_def i32_to_size_def Let_def)
qed

text \<open>
  \<open>getTcpInfoString\<close> has its success test the wrong way round: it reports success exactly when
  \<open>getsockopt\<close> failed, and then prints a cleared structure.
\<close>

lemma tcp_info_inverted:
  "fst (getTcpInfoString ans buf len) \<longleftrightarrow> ans = None"
  "getTcpInfoString (Some info) buf len = (False, buf)"
  by (cases ans) (simp_all add: getTcpInfoString_def getTcpInfo_def Let_def)

end
