(* ===== verification/LstTimers.thy ===== *)
theory LstTimers
  imports Prelude
begin

text \<open>
  \<open>src/src/base/LstTimer.h\<close> and \<open>LstTimer.cc\<close>: the timer list and the timer wheel. The list is modelled
  on an explicit store: a \<open>TimerNode*\<close> is an address or null, and the links are followed and written
  one by one, so that a null or freed node is a fault. What a timer runs is recorded by the node's
  address; callbacks do not touch the list. The wheel is here a vector of lists of timers; its links are
  the subject of \<open>WheelLinks\<close>.
\<close>

section \<open>Nodes in memory\<close>

record node =
  m_expireTime :: int
  m_ptrNodeNext :: "nat option"
  m_ptrNodePrev :: "nat option"
  m_client :: bool                       \<comment> \<open>\<open>m_wPtrClientData.lock()\<close> gives an object\<close>

type_synonym store = "nat \<rightharpoonup> node"

definition new_node :: "int \<Rightarrow> node" where
  "new_node expireTime = \<lparr>m_expireTime = expireTime, m_ptrNodeNext = None, m_ptrNodePrev = None, m_client = False\<rparr>"

definition node_at :: "store \<Rightarrow> nat option \<Rightarrow> node res" where
  "node_at h p = (case p of None \<Rightarrow> Inl Null_deref
     | Some a \<Rightarrow> (case h a of None \<Rightarrow> Inl Undefined | Some n \<Rightarrow> Inr n))"

definition put_node :: "nat option \<Rightarrow> (node \<Rightarrow> node) \<Rightarrow> store \<Rightarrow> store res" where
  "put_node p f h = bindR (node_at h p) (\<lambda>n. Inr (h(the p \<mapsto> f n)))"

definition free :: "nat option \<Rightarrow> store \<Rightarrow> store res" where
  "free p h = bindR (node_at h p) (\<lambda>n. Inr (h(the p := None)))"

record timer_list =
  m_ptrHead :: nat
  m_ptrTail :: nat

section \<open>The list\<close>

definition new_timer_list :: "nat \<Rightarrow> nat \<Rightarrow> store \<Rightarrow> (timer_list \<times> store) res" where
  "new_timer_list a b h =
     bindR (put_node (Some a) (m_ptrNodeNext_update (\<lambda>_. Some b)) (h(a \<mapsto> new_node 0, b \<mapsto> new_node 0))) (\<lambda>h.
     bindR (put_node (Some b) (m_ptrNodePrev_update (\<lambda>_. Some a)) h) (\<lambda>h.
     Inr (\<lparr>m_ptrHead = a, m_ptrTail = b\<rparr>, h)))"

definition list_isEmpty :: "timer_list \<Rightarrow> store \<Rightarrow> bool res" where
  "list_isEmpty l h = bindR (node_at h (Some (m_ptrHead l))) (\<lambda>n. Inr (m_ptrNodeNext n = Some (m_ptrTail l)))"

text \<open>The loop of \<open>addNode\<close>; \<open>None\<close> where it does not end.\<close>

partial_function (option) insert_after :: "nat \<Rightarrow> int \<Rightarrow> store \<Rightarrow> nat option \<Rightarrow> nat option res option" where
  "insert_after tail x h pre =
     (case node_at h pre of
        Inl e \<Rightarrow> Some (Inl e)
      | Inr n \<Rightarrow>
          if m_ptrNodeNext n \<noteq> Some tail then
            if m_expireTime n \<ge> x then Some (Inr pre) else insert_after tail x h (m_ptrNodeNext n)
          else Some (Inr pre))"

definition link_after :: "nat option \<Rightarrow> nat option \<Rightarrow> store \<Rightarrow> store res" where
  "link_after pre added h =
     bindR (node_at h pre) (\<lambda>p. let nextNode = m_ptrNodeNext p in
     bindR (put_node added (m_ptrNodeNext_update (\<lambda>_. nextNode)) h) (\<lambda>h.
     bindR (put_node pre (m_ptrNodeNext_update (\<lambda>_. added)) h) (\<lambda>h.
     bindR (put_node added (m_ptrNodePrev_update (\<lambda>_. pre)) h) (\<lambda>h.
     put_node nextNode (m_ptrNodePrev_update (\<lambda>_. added)) h))))"

definition list_addNode :: "timer_list \<Rightarrow> nat option \<Rightarrow> store \<Rightarrow> store res option" where
  "list_addNode l added h =
     (if added = None then Some (Inr h)
      else case node_at h added of
        Inl e \<Rightarrow> Some (Inl e)
      | Inr n \<Rightarrow>
          (case insert_after (m_ptrTail l) (m_expireTime n) h (Some (m_ptrHead l)) of
             None \<Rightarrow> None
           | Some r \<Rightarrow> Some (bindR r (\<lambda>pre. link_after pre added h))))"

definition deleteNodeNoDel :: "timer_list \<Rightarrow> nat option \<Rightarrow> store \<Rightarrow> store res" where
  "deleteNodeNoDel l p h =
     bindR (list_isEmpty l h) (\<lambda>e.
     if e then Inr h
     else
       bindR (node_at h p) (\<lambda>n.
       bindR (put_node (m_ptrNodePrev n) (m_ptrNodeNext_update (\<lambda>_. m_ptrNodeNext n)) h) (\<lambda>h.
       put_node (m_ptrNodeNext n) (m_ptrNodePrev_update (\<lambda>_. m_ptrNodePrev n)) h)))"

definition list_deleteNode :: "timer_list \<Rightarrow> nat option \<Rightarrow> store \<Rightarrow> store res" where
  "list_deleteNode l p h = bindR (deleteNodeNoDel l p h) (free p)"

definition adjustNode :: "timer_list \<Rightarrow> nat option \<Rightarrow> store \<Rightarrow> store res option" where
  "adjustNode l p h =
     (case deleteNodeNoDel l p h of Inl e \<Rightarrow> Some (Inl e) | Inr h \<Rightarrow> list_addNode l p h)"

text \<open>The loop of \<open>tick\<close>, with the addresses of the timers whose callback was run.\<close>

partial_function (option) tick_loop ::
  "timer_list \<Rightarrow> int \<Rightarrow> store \<Rightarrow> nat option \<Rightarrow> nat list \<Rightarrow> (store \<times> nat list) res option" where
  "tick_loop l curTime h cur called =
     (if cur \<noteq> Some (m_ptrTail l) then
        (case node_at h cur of
           Inl e \<Rightarrow> Some (Inl e)
         | Inr n \<Rightarrow>
             if m_expireTime n > curTime then Some (Inr (h, called))
             else
               (case list_deleteNode l cur h of
                  Inl e \<Rightarrow> Some (Inl e)
                | Inr h \<Rightarrow> tick_loop l curTime h (m_ptrNodeNext n)
                    (if m_client n then called @ [the cur] else called)))
      else Some (Inr (h, called)))"

definition list_tick :: "timer_list \<Rightarrow> int \<Rightarrow> store \<Rightarrow> (store \<times> nat list) res option" where
  "list_tick l curTime h =
     (case list_isEmpty l h of
        Inl e \<Rightarrow> Some (Inl e)
      | Inr e \<Rightarrow>
          if e then Some (Inr (h, []))
          else
            (case node_at h (Some (m_ptrHead l)) of
               Inl e \<Rightarrow> Some (Inl e)
             | Inr n \<Rightarrow> tick_loop l curTime h (m_ptrNodeNext n) []))"

text \<open>The destructor: \<open>deleteNode\<close> of the first timer while there is one, then the two end nodes.\<close>

partial_function (option) destroy_loop :: "timer_list \<Rightarrow> store \<Rightarrow> store res option" where
  "destroy_loop l h =
     (case node_at h (Some (m_ptrHead l)) of
        Inl e \<Rightarrow> Some (Inl e)
      | Inr n \<Rightarrow>
          if m_ptrNodeNext n \<noteq> Some (m_ptrTail l) then
            (case list_deleteNode l (m_ptrNodeNext n) h of
               Inl e \<Rightarrow> Some (Inl e)
             | Inr h \<Rightarrow> destroy_loop l h)
          else Some (Inr h))"

definition delete_timer_list :: "timer_list \<Rightarrow> store \<Rightarrow> store res option" where
  "delete_timer_list l h =
     (case destroy_loop l h of
        None \<Rightarrow> None
      | Some r \<Rightarrow> Some (bindR r (\<lambda>h. bindR (free (Some (m_ptrHead l)) h) (free (Some (m_ptrTail l))))))"

section \<open>Lists of addresses\<close>

definition nxt :: "store \<Rightarrow> nat \<Rightarrow> nat option" where
  "nxt h a = (case h a of None \<Rightarrow> None | Some n \<Rightarrow> m_ptrNodeNext n)"

definition prv :: "store \<Rightarrow> nat \<Rightarrow> nat option" where
  "prv h a = (case h a of None \<Rightarrow> None | Some n \<Rightarrow> m_ptrNodePrev n)"

definition expires :: "store \<Rightarrow> nat \<Rightarrow> int" where
  "expires h a = m_expireTime (the (h a))"

definition client :: "store \<Rightarrow> nat \<Rightarrow> bool" where
  "client h a = m_client (the (h a))"

fun links :: "store \<Rightarrow> nat list \<Rightarrow> bool" where
  "links h (a # b # r) = (nxt h a = Some b \<and> prv h b = Some a \<and> links h (b # r))"
| "links h _ = True"

text \<open>The list \<open>l\<close> holds the timers at the addresses \<open>xs\<close>, in this order.\<close>

definition holds :: "timer_list \<Rightarrow> store \<Rightarrow> nat list \<Rightarrow> bool" where
  "holds l h xs \<longleftrightarrow> links h (m_ptrHead l # xs @ [m_ptrTail l]) \<and> distinct (m_ptrHead l # xs @ [m_ptrTail l])
     \<and> (\<forall>a \<in> set (m_ptrHead l # xs @ [m_ptrTail l]). h a \<noteq> None)"

lemma links_append: "links h (xs @ a # ys) \<longleftrightarrow> links h (xs @ [a]) \<and> links h (a # ys)"
proof (induction xs)
  case (Cons x xs)
  then show ?case by (cases xs) auto
qed simp

lemma links_cong:
  "(\<forall>a \<in> set (butlast xs). nxt h a = nxt h' a) \<Longrightarrow> (\<forall>a \<in> set (tl xs). prv h a = prv h' a) \<Longrightarrow> links h xs = links h' xs"
proof (induction h xs rule: links.induct)
  case (1 h a b r)
  then show ?case by (cases r) auto
qed auto

lemma in_set_tlD: "a \<in> set (tl xs) \<Longrightarrow> a \<in> set xs"
  by (cases xs) auto

lemma node_at_Some: "h a = Some n \<Longrightarrow> node_at h (Some a) = Inr n"
  by (simp add: node_at_def)

lemma put_node_Some: "h a = Some n \<Longrightarrow> put_node (Some a) f h = Inr (h(a \<mapsto> f n))"
  by (simp add: put_node_def node_at_def)

text \<open>What the writes to the links change.\<close>

lemma field_upd [simp]:
  "nxt (h(a \<mapsto> m_ptrNodeNext_update (\<lambda>_. v) n)) = (nxt h)(a := v)"
  "prv (h(a \<mapsto> m_ptrNodePrev_update (\<lambda>_. v) n)) = (prv h)(a := v)"
  "h a = Some n \<Longrightarrow> prv (h(a \<mapsto> m_ptrNodeNext_update (\<lambda>_. v) n)) = prv h"
  "h a = Some n \<Longrightarrow> nxt (h(a \<mapsto> m_ptrNodePrev_update (\<lambda>_. v) n)) = nxt h"
  "h a = Some n \<Longrightarrow> expires (h(a \<mapsto> m_ptrNodeNext_update (\<lambda>_. v) n)) = expires h"
  "h a = Some n \<Longrightarrow> expires (h(a \<mapsto> m_ptrNodePrev_update (\<lambda>_. v) n)) = expires h"
  "h a = Some n \<Longrightarrow> client (h(a \<mapsto> m_ptrNodeNext_update (\<lambda>_. v) n)) = client h"
  "h a = Some n \<Longrightarrow> client (h(a \<mapsto> m_ptrNodePrev_update (\<lambda>_. v) n)) = client h"
  by (auto simp: nxt_def prv_def expires_def client_def fun_eq_iff)

text \<open>
  Two stores that agree but for the links, with the new links given. Writing a link makes such a
  store.
\<close>

definition relinked :: "store \<Rightarrow> (nat \<Rightarrow> nat option) \<Rightarrow> (nat \<Rightarrow> nat option) \<Rightarrow> store \<Rightarrow> bool" where
  "relinked h n p h' \<longleftrightarrow> nxt h' = n \<and> prv h' = p \<and> expires h' = expires h \<and> client h' = client h \<and> dom h' = dom h"

lemma relinked_refl: "relinked h (nxt h) (prv h) h"
  by (simp add: relinked_def)

lemma write_next:
  assumes "relinked h n p h1" "h a \<noteq> None"
  shows "\<exists>h2. put_node (Some a) (m_ptrNodeNext_update (\<lambda>_. v)) h1 = Inr h2 \<and> relinked h (n(a := v)) p h2"
proof -
  from assms obtain m where m: "h1 a = Some m" unfolding relinked_def by blast
  then show ?thesis using assms(1) by (auto simp: put_node_Some [of h1 a m, OF m] relinked_def)
qed

lemma write_prev:
  assumes "relinked h n p h1" "h a \<noteq> None"
  shows "\<exists>h2. put_node (Some a) (m_ptrNodePrev_update (\<lambda>_. v)) h1 = Inr h2 \<and> relinked h n (p(a := v)) h2"
proof -
  from assms obtain m where m: "h1 a = Some m" unfolding relinked_def by blast
  then show ?thesis using assms(1) by (auto simp: put_node_Some [of h1 a m, OF m] relinked_def)
qed

lemma links_relinked:
  assumes "relinked h n p h'"
  shows "nxt h' = n" "prv h' = p" "expires h' = expires h" "client h' = client h" "h' a \<noteq> None \<longleftrightarrow> h a \<noteq> None"
  using assms by (auto simp: relinked_def)

lemma nxt_at: "h a = Some m \<Longrightarrow> nxt h a = m_ptrNodeNext m" "h a = Some m \<Longrightarrow> prv h a = m_ptrNodePrev m"
  by (simp_all add: nxt_def prv_def)

lemma link_after_ok:
  assumes "links h (us @ q # r # vs)" "distinct (us @ q # r # vs)" "n \<notin> set (us @ q # r # vs)"
    and "\<forall>a \<in> set (n # us @ q # r # vs). h a \<noteq> None"
  shows "\<exists>h'. link_after (Some q) (Some n) h = Inr h' \<and> links h' (us @ q # n # r # vs)
    \<and> expires h' = expires h \<and> client h' = client h \<and> dom h' = dom h"
proof -
  from assms(1) have qr: "nxt h q = Some r" using links_append [of h us q "r # vs"] by simp
  from assms(4) obtain mq where mq: "h q = Some mq" by auto
  with qr have nq: "m_ptrNodeNext mq = Some r" by (simp add: nxt_at)
  have al: "h n \<noteq> None" "h q \<noteq> None" "h r \<noteq> None" using assms(4) by auto
  obtain h1 where h1: "put_node (Some n) (m_ptrNodeNext_update (\<lambda>_. Some r)) h = Inr h1"
    "relinked h ((nxt h)(n := Some r)) (prv h) h1"
    using write_next [where h = h and a = n, OF relinked_refl al(1)] by blast
  obtain h2 where h2: "put_node (Some q) (m_ptrNodeNext_update (\<lambda>_. Some n)) h1 = Inr h2"
    "relinked h ((nxt h)(n := Some r, q := Some n)) (prv h) h2"
    using write_next [where h = h and a = q, OF h1(2) al(2)] by blast
  obtain h3 where h3: "put_node (Some n) (m_ptrNodePrev_update (\<lambda>_. Some q)) h2 = Inr h3"
    "relinked h ((nxt h)(n := Some r, q := Some n)) ((prv h)(n := Some q)) h3"
    using write_prev [where h = h and a = n, OF h2(2) al(1)] by blast
  obtain h4 where h4: "put_node (Some r) (m_ptrNodePrev_update (\<lambda>_. Some n)) h3 = Inr h4"
    "relinked h ((nxt h)(n := Some r, q := Some n)) ((prv h)(n := Some q, r := Some n)) h4"
    using write_prev [where h = h and a = r, OF h3(2) al(3)] by blast
  note f = links_relinked [where h = h, OF h4(2)]
  have 1: "links h4 (us @ [q])"
  proof -
    have "links h (us @ [q])" using assms(1) links_append [of h us q "r # vs"] by simp
    moreover have "links h (us @ [q]) = links h4 (us @ [q])"
      by (rule links_cong) (use assms(2,3) in \<open>auto simp: f(1,2) dest: in_set_tlD\<close>)
    ultimately show ?thesis by simp
  qed
  have 2: "links h4 (r # vs)"
  proof -
    have "links h (r # vs)" using assms(1) links_append [of h "us @ [q]" r vs] by simp
    moreover have "links h (r # vs) = links h4 (r # vs)"
      by (rule links_cong) (use assms(2,3) in \<open>auto simp: f(1,2) dest: in_set_butlastD\<close>)
    ultimately show ?thesis by simp
  qed
  have "links h4 (q # n # r # vs)" using 2 assms(2,3) by (auto simp: f(1,2))
  with 1 have "links h4 (us @ q # n # r # vs)" using links_append [of h4 us q "n # r # vs"] by simp
  moreover have "link_after (Some q) (Some n) h = Inr h4"
    by (simp add: link_after_def node_at_Some [of h q mq, OF mq] nq h1(1) h2(1) h3(1) h4(1) Let_def)
  ultimately show ?thesis using h4(2) unfolding relinked_def by blast
qed

text \<open>The neighbours of a removed node are joined.\<close>

lemma unlink_ok:
  assumes "links h (us @ q # n # r # vs)" "distinct (us @ q # n # r # vs)"
    and "\<forall>a \<in> set (us @ q # n # r # vs). h a \<noteq> None"
  shows "\<exists>h1 h'. put_node (prv h n) (m_ptrNodeNext_update (\<lambda>_. nxt h n)) h = Inr h1
    \<and> put_node (nxt h n) (m_ptrNodePrev_update (\<lambda>_. prv h n)) h1 = Inr h'
    \<and> links h' (us @ q # r # vs) \<and> expires h' = expires h \<and> client h' = client h \<and> dom h' = dom h"
proof -
  have n: "prv h n = Some q" "nxt h n = Some r"
    using assms(1) links_append [of h us q "n # r # vs"] by simp_all
  have al: "h q \<noteq> None" "h r \<noteq> None" using assms(3) by auto
  obtain h1 where h1: "put_node (Some q) (m_ptrNodeNext_update (\<lambda>_. Some r)) h = Inr h1"
    "relinked h ((nxt h)(q := Some r)) (prv h) h1"
    using write_next [where h = h and a = q, OF relinked_refl al(1)] by blast
  obtain h2 where h2: "put_node (Some r) (m_ptrNodePrev_update (\<lambda>_. Some q)) h1 = Inr h2"
    "relinked h ((nxt h)(q := Some r)) ((prv h)(r := Some q)) h2"
    using write_prev [where h = h and a = r, OF h1(2) al(2)] by blast
  note f = links_relinked [where h = h, OF h2(2)]
  have 1: "links h2 (us @ [q])"
  proof -
    have "links h (us @ [q])" using assms(1) links_append [of h us q "n # r # vs"] by simp
    moreover have "links h (us @ [q]) = links h2 (us @ [q])"
      by (rule links_cong) (use assms(2) in \<open>auto simp: f(1,2) dest: in_set_tlD\<close>)
    ultimately show ?thesis by simp
  qed
  have 2: "links h2 (r # vs)"
  proof -
    have "links h (r # vs)" using assms(1) links_append [of h "us @ [q, n]" r vs] by simp
    moreover have "links h (r # vs) = links h2 (r # vs)"
      by (rule links_cong) (use assms(2) in \<open>auto simp: f(1,2) dest: in_set_butlastD\<close>)
    ultimately show ?thesis by simp
  qed
  have "links h2 (q # r # vs)" using 2 by (simp add: f(1,2))
  with 1 have "links h2 (us @ q # r # vs)" using links_append [of h2 us q "r # vs"] by simp
  with h1(1) h2(1) n f h2(2) show ?thesis
    by (intro exI [of _ h1] exI [of _ h2]) (simp add: relinked_def)
qed

section \<open>The operations on lists\<close>

text \<open>
  Where \<open>addNode\<close> puts a timer: after the first node (the head counts, with expiry 0) that does not
  expire before it, and after the last node if there is none.
\<close>

fun ins :: "(nat \<Rightarrow> int) \<Rightarrow> int \<Rightarrow> nat \<Rightarrow> int \<Rightarrow> nat list \<Rightarrow> nat list" where
  "ins e x n pe [] = [n]"
| "ins e x n pe (y # ys) = (if pe \<ge> x then n # y # ys else y # ins e x n (e y) ys)"

lemma insert_after_ok:
  "links h (p # ys @ [t]) \<Longrightarrow> distinct (p # ys @ [t]) \<Longrightarrow> \<forall>a \<in> set (p # ys @ [t]). h a \<noteq> None \<Longrightarrow>
    \<exists>us q r vs. insert_after t x h (Some p) = Some (Inr (Some q)) \<and> p # ys @ [t] = us @ q # r # vs
      \<and> p # ins (expires h) x n (expires h p) ys @ [t] = us @ q # n # r # vs"
proof (induction ys arbitrary: p)
  case Nil
  then obtain m where "h p = Some m" "m_ptrNodeNext m = Some t" by (auto simp: nxt_def split: option.splits)
  then have "insert_after t x h (Some p) = Some (Inr (Some p))"
    by (subst insert_after.simps) (simp add: node_at_def)
  then show ?case by (intro exI [of _ "[]"] exI [of _ p] exI [of _ t]) simp
next
  case (Cons y ys)
  then obtain m where m: "h p = Some m" "m_ptrNodeNext m = Some y" by (auto simp: nxt_def split: option.splits)
  have yt: "y \<noteq> t" using Cons.prems(2) by auto
  show ?case
  proof (cases "expires h p \<ge> x")
    case True
    then have "insert_after t x h (Some p) = Some (Inr (Some p))"
      using m by (subst insert_after.simps) (simp add: node_at_def expires_def)
    with True show ?thesis
      by (intro exI [of _ "[]"] exI [of _ p] exI [of _ y] exI [of _ "ys @ [t]"]) simp
  next
    case False
    then have "insert_after t x h (Some p) = insert_after t x h (Some y)"
      using m yt by (subst insert_after.simps) (simp add: node_at_def expires_def)
    moreover obtain us q r vs where "insert_after t x h (Some y) = Some (Inr (Some q))" "y # ys @ [t] = us @ q # r # vs"
      "y # ins (expires h) x n (expires h y) ys @ [t] = us @ q # n # r # vs"
      using Cons.IH [of y] Cons.prems by auto
    ultimately show ?thesis using False
      by (intro exI [of _ "p # us"] exI [of _ q] exI [of _ r] exI [of _ vs]) simp
  qed
qed

lemma set_ins: "set (ins e x n pe ys) = insert n (set ys)"
  by (induction ys arbitrary: pe) auto

lemma list_addNode_ok:
  assumes "holds l h xs" "h n \<noteq> None" "n \<notin> set (m_ptrHead l # xs @ [m_ptrTail l])"
  shows "\<exists>h'. list_addNode l (Some n) h = Some (Inr h')
    \<and> holds l h' (ins (expires h) (expires h n) n (expires h (m_ptrHead l)) xs)
    \<and> expires h' = expires h \<and> client h' = client h \<and> dom h' = dom h"
proof -
  let ?L = "m_ptrHead l # xs @ [m_ptrTail l]"
  let ?ys = "ins (expires h) (expires h n) n (expires h (m_ptrHead l)) xs"
  from assms(1) have L: "links h ?L" "distinct ?L" "\<forall>a \<in> set ?L. h a \<noteq> None" by (simp_all add: holds_def)
  from insert_after_ok [OF L, of "expires h n" n] obtain us q r vs where
    p: "insert_after (m_ptrTail l) (expires h n) h (Some (m_ptrHead l)) = Some (Inr (Some q))" "?L = us @ q # r # vs"
    "m_ptrHead l # ?ys @ [m_ptrTail l] = us @ q # n # r # vs"
    by blast
  have "\<forall>a \<in> set (n # us @ q # r # vs). h a \<noteq> None" using L(3) assms(2) unfolding p(2) by simp
  from link_after_ok [OF _ _ _ this] L(1,2) assms(3) p(2) obtain h' where
    h': "link_after (Some q) (Some n) h = Inr h'" "links h' (us @ q # n # r # vs)"
    "expires h' = expires h" "client h' = client h" "dom h' = dom h"
    by (metis)
  from assms(2) obtain m where m: "h n = Some m" by blast
  have "list_addNode l (Some n) h = Some (Inr h')"
    using p(1) h'(1) m by (simp add: list_addNode_def node_at_def expires_def)
  moreover have "distinct (us @ q # n # r # vs)" using L(2) assms(3) unfolding p(2) by auto
  moreover have "\<forall>a \<in> set (us @ q # n # r # vs). h' a \<noteq> None"
    using L(3) assms(2) h'(5) unfolding p(2) by (metis (no_types, lifting) domIff UnE set_append set_ConsD list.set_intros(1,2) Un_iff)
  ultimately show ?thesis using h' unfolding holds_def p(3) by blast
qed

lemma holds_next:
  assumes "holds l h xs"
  shows "nxt h (m_ptrHead l) = Some (hd (xs @ [m_ptrTail l]))"
proof (cases xs)
  case Nil
  then show ?thesis using assms by (simp add: holds_def)
next
  case (Cons x ys)
  then show ?thesis using assms by (simp add: holds_def)
qed

lemma list_isEmpty_ok:
  assumes "holds l h xs"
  shows "list_isEmpty l h = Inr (xs = [])"
proof -
  from assms obtain m where m: "h (m_ptrHead l) = Some m" unfolding holds_def by auto
  have "m_ptrNodeNext m = Some (hd (xs @ [m_ptrTail l]))" using holds_next [OF assms] m by (simp add: nxt_def)
  moreover have "hd (xs @ [m_ptrTail l]) = m_ptrTail l \<longleftrightarrow> xs = []"
    using assms by (cases xs) (auto simp: holds_def)
  ultimately show ?thesis using m by (simp add: list_isEmpty_def node_at_def)
qed

lemma deleteNodeNoDel_ok:
  assumes "holds l h (ys @ n # zs)"
  shows "\<exists>h'. deleteNodeNoDel l (Some n) h = Inr h' \<and> holds l h' (ys @ zs)
    \<and> expires h' = expires h \<and> client h' = client h \<and> dom h' = dom h"
proof -
  let ?L = "m_ptrHead l # ys @ n # zs @ [m_ptrTail l]"
  have L: "links h ?L" "distinct ?L" "\<forall>a \<in> set ?L. h a \<noteq> None" using assms by (simp_all add: holds_def)
  obtain us q where q: "m_ptrHead l # ys = us @ [q]" by (metis append_butlast_last_id list.distinct(1))
  obtain r vs where r: "zs @ [m_ptrTail l] = r # vs" by (cases zs) auto
  have e: "?L = us @ q # n # r # vs" using q r by simp
  from unlink_ok [OF L [unfolded e]] obtain h1 h' where
    h': "put_node (prv h n) (m_ptrNodeNext_update (\<lambda>_. nxt h n)) h = Inr h1"
    "put_node (nxt h n) (m_ptrNodePrev_update (\<lambda>_. prv h n)) h1 = Inr h'"
    "links h' (us @ q # r # vs)" "expires h' = expires h" "client h' = client h" "dom h' = dom h"
    by blast
  have e': "m_ptrHead l # (ys @ zs) @ [m_ptrTail l] = us @ q # r # vs" using q r by simp
  from L(3) obtain m where m: "h n = Some m" by auto
  have "deleteNodeNoDel l (Some n) h = Inr h'"
    using list_isEmpty_ok [OF assms] m h'(1,2) by (simp add: deleteNodeNoDel_def node_at_def nxt_def prv_def)
  moreover have "holds l h' (ys @ zs)"
    unfolding holds_def e'
  proof (intro conjI)
    show "distinct (us @ q # r # vs)" using L(2) unfolding e by auto
    have "\<forall>a \<in> set (us @ q # r # vs). h a \<noteq> None" using L(3) unfolding e by auto
    then show "\<forall>a \<in> set (us @ q # r # vs). h' a \<noteq> None" using h'(6) by (metis domIff)
  qed (rule h'(3))
  ultimately show ?thesis using h'(4-6) by blast
qed

lemma list_deleteNode_ok:
  assumes "holds l h (ys @ n # zs)"
  shows "\<exists>h'. list_deleteNode l (Some n) h = Inr h' \<and> holds l h' (ys @ zs)
    \<and> (\<forall>a. a \<noteq> n \<longrightarrow> expires h' a = expires h a \<and> client h' a = client h a) \<and> dom h' = dom h - {n}"
proof -
  from deleteNodeNoDel_ok [OF assms] obtain h1 where h1: "deleteNodeNoDel l (Some n) h = Inr h1"
    "holds l h1 (ys @ zs)" "expires h1 = expires h" "client h1 = client h" "dom h1 = dom h"
    by blast
  have "h n \<noteq> None" using assms by (simp add: holds_def)
  with h1(5) obtain m where m: "h1 n = Some m" by blast
  let ?h = "h1(n := None)"
  let ?L = "m_ptrHead l # (ys @ zs) @ [m_ptrTail l]"
  have n: "n \<notin> set ?L" using assms by (auto simp: holds_def)
  have nx: "nxt ?h a = nxt h1 a" "prv ?h a = prv h1 a" if "a \<in> set ?L" for a
    using that n by (auto simp: nxt_def prv_def)
  have "links h1 ?L = links ?h ?L"
    by (rule links_cong) (use nx in \<open>auto dest: in_set_butlastD in_set_tlD\<close>)
  then have "holds l ?h (ys @ zs)" using h1(2) n by (auto simp: holds_def)
  moreover have "list_deleteNode l (Some n) h = Inr ?h"
    using h1(1) m by (simp add: list_deleteNode_def free_def node_at_def)
  moreover have "\<forall>a. a \<noteq> n \<longrightarrow> expires ?h a = expires h a \<and> client ?h a = client h a"
    using h1(3,4) by (auto simp: expires_def client_def fun_eq_iff)
  moreover have "dom ?h = dom h - {n}" using h1(5) by simp
  ultimately show ?thesis by blast
qed

lemma adjustNode_ok:
  assumes "holds l h (ys @ n # zs)"
  shows "\<exists>h'. adjustNode l (Some n) h = Some (Inr h')
    \<and> holds l h' (ins (expires h) (expires h n) n (expires h (m_ptrHead l)) (ys @ zs))"
proof -
  from deleteNodeNoDel_ok [OF assms] obtain h1 where h1: "deleteNodeNoDel l (Some n) h = Inr h1"
    "holds l h1 (ys @ zs)" "expires h1 = expires h" "dom h1 = dom h"
    by blast
  have "h n \<noteq> None" using assms by (simp add: holds_def)
  with h1(4) have "h1 n \<noteq> None" by (metis domIff)
  moreover have "n \<notin> set (m_ptrHead l # (ys @ zs) @ [m_ptrTail l])" using assms by (auto simp: holds_def)
  ultimately show ?thesis
    using list_addNode_ok [OF h1(2), of n] h1(1,3) by (auto simp: adjustNode_def)
qed

lemma tick_loop_ok:
  "holds l h xs \<Longrightarrow>
    \<exists>h'. tick_loop l t h (Some (hd (xs @ [m_ptrTail l]))) c
        = Some (Inr (h', c @ List.filter (client h) (takeWhile (\<lambda>a. expires h a \<le> t) xs)))
      \<and> holds l h' (dropWhile (\<lambda>a. expires h a \<le> t) xs) \<and> dom h' = dom h - set (takeWhile (\<lambda>a. expires h a \<le> t) xs)"
proof (induction xs arbitrary: h c)
  case Nil
  then show ?case by (subst tick_loop.simps) simp
next
  case (Cons x xs)
  from Cons.prems have x: "x \<noteq> m_ptrTail l" "h x \<noteq> None" "x \<notin> set xs" by (auto simp: holds_def)
  then obtain m where m: "h x = Some m" by blast
  show ?case
  proof (cases "expires h x \<le> t")
    case False
    then show ?thesis using x m Cons.prems by (subst tick_loop.simps) (simp add: node_at_def expires_def)
  next
    case True
    from list_deleteNode_ok [of l h "[]" x xs] Cons.prems obtain h1 where
      h1: "list_deleteNode l (Some x) h = Inr h1" "holds l h1 xs"
      "\<forall>a. a \<noteq> x \<longrightarrow> expires h1 a = expires h a \<and> client h1 a = client h a" "dom h1 = dom h - {x}"
      by auto
    have "nxt h x = Some (hd (xs @ [m_ptrTail l]))"
      using Cons.prems by (cases xs) (simp_all add: holds_def)
    then have nx: "m_ptrNodeNext m = Some (hd (xs @ [m_ptrTail l]))" using m by (simp add: nxt_def)
    have same: "takeWhile (\<lambda>a. expires h1 a \<le> t) xs = takeWhile (\<lambda>a. expires h a \<le> t) xs"
      "dropWhile (\<lambda>a. expires h1 a \<le> t) xs = dropWhile (\<lambda>a. expires h a \<le> t) xs"
      "List.filter (client h1) (takeWhile (\<lambda>a. expires h a \<le> t) xs) = List.filter (client h) (takeWhile (\<lambda>a. expires h a \<le> t) xs)"
      using h1(3) x(3) by (auto intro!: takeWhile_cong dropWhile_cong filter_cong dest: set_takeWhileD)
    have "tick_loop l t h (Some x) c
        = tick_loop l t h1 (Some (hd (xs @ [m_ptrTail l]))) (if client h x then c @ [x] else c)"
      using x m h1(1) nx True by (subst tick_loop.simps) (simp add: node_at_def expires_def client_def)
    with Cons.IH [OF h1(2), of "if client h x then c @ [x] else c"] True show ?thesis
      unfolding same h1(4) by auto
  qed
qed

lemma list_tick_ok:
  assumes "holds l h xs"
  shows "\<exists>h'. list_tick l t h = Some (Inr (h', List.filter (client h) (takeWhile (\<lambda>a. expires h a \<le> t) xs)))
    \<and> holds l h' (dropWhile (\<lambda>a. expires h a \<le> t) xs) \<and> dom h' = dom h - set (takeWhile (\<lambda>a. expires h a \<le> t) xs)"
proof (cases "xs = []")
  case True
  then show ?thesis using list_isEmpty_ok [OF assms] assms by (simp add: list_tick_def)
next
  case False
  from assms obtain m where m: "h (m_ptrHead l) = Some m" unfolding holds_def by auto
  then have "m_ptrNodeNext m = Some (hd (xs @ [m_ptrTail l]))" using holds_next [OF assms] by (simp add: nxt_def)
  with m False list_isEmpty_ok [OF assms] tick_loop_ok [OF assms, of t "[]"] show ?thesis
    by (simp add: list_tick_def node_at_def)
qed

lemma destroy_loop_ok:
  "holds l h xs \<Longrightarrow> \<exists>h'. destroy_loop l h = Some (Inr h') \<and> holds l h' [] \<and> dom h' = dom h - set xs"
proof (induction xs arbitrary: h)
  case Nil
  from Nil.prems obtain m where m: "h (m_ptrHead l) = Some m" unfolding holds_def by auto
  then have "m_ptrNodeNext m = Some (m_ptrTail l)" using holds_next [OF Nil.prems] by (simp add: nxt_def)
  with m Nil.prems show ?case by (subst destroy_loop.simps) (simp add: node_at_def)
next
  case (Cons x xs)
  from Cons.prems obtain m where m: "h (m_ptrHead l) = Some m" unfolding holds_def by auto
  then have n: "m_ptrNodeNext m = Some x" using holds_next [OF Cons.prems] by (simp add: nxt_def)
  have x: "x \<noteq> m_ptrTail l" using Cons.prems by (auto simp: holds_def)
  from list_deleteNode_ok [of l h "[]" x xs] Cons.prems obtain h1 where
    h1: "list_deleteNode l (Some x) h = Inr h1" "holds l h1 xs" "dom h1 = dom h - {x}" by auto
  have "destroy_loop l h = destroy_loop l h1"
    using m n x h1(1) by (subst destroy_loop.simps) (simp add: node_at_def)
  with Cons.IH [OF h1(2)] h1(3) show ?case by auto
qed

lemma delete_timer_list_ok:
  assumes "holds l h xs"
  shows "\<exists>h'. delete_timer_list l h = Some (Inr h') \<and> dom h' = dom h - set (m_ptrHead l # xs @ [m_ptrTail l])"
proof -
  from destroy_loop_ok [OF assms] obtain h1 where h1: "destroy_loop l h = Some (Inr h1)" "holds l h1 []"
    "dom h1 = dom h - set xs" by blast
  from h1(2) have e: "m_ptrHead l \<noteq> m_ptrTail l" "h1 (m_ptrHead l) \<noteq> None" "h1 (m_ptrTail l) \<noteq> None"
    by (simp_all add: holds_def)
  then obtain a b where "h1 (m_ptrHead l) = Some a" "h1 (m_ptrTail l) = Some b" by blast
  with h1(1) e(1) have "delete_timer_list l h = Some (Inr (h1(m_ptrHead l := None, m_ptrTail l := None)))"
    by (simp add: delete_timer_list_def free_def node_at_def)
  with h1(3) show ?thesis by auto
qed

text \<open>
  C38. The linked list is a list: on a store that holds the timers \<open>ys @ n # zs\<close>, adding a node puts it
  where \<open>ins\<close> says, deleting \<open>n\<close> takes it out and frees exactly its node, adjusting \<open>n\<close> takes it out and
  puts it in again, and a tick ends after calling, in order, the callbacks of the leading timers that
  have expired and whose client is alive, frees exactly their nodes and keeps the others. No null or
  freed node is used. The destructor ends too and frees every node of the list, both ends included.
\<close>

theorem timer_list_refines:
  assumes "holds l h (ys @ n # zs)" "h m \<noteq> None" "m \<notin> set (m_ptrHead l # (ys @ n # zs) @ [m_ptrTail l])"
  shows "(\<exists>h'. list_addNode l (Some m) h = Some (Inr h')
        \<and> holds l h' (ins (expires h) (expires h m) m (expires h (m_ptrHead l)) (ys @ n # zs)))
    \<and> (\<exists>h'. list_deleteNode l (Some n) h = Inr h' \<and> holds l h' (ys @ zs) \<and> dom h' = dom h - {n})
    \<and> (\<exists>h'. adjustNode l (Some n) h = Some (Inr h')
        \<and> holds l h' (ins (expires h) (expires h n) n (expires h (m_ptrHead l)) (ys @ zs)))
    \<and> (\<exists>h'. list_tick l t h
          = Some (Inr (h', List.filter (client h) (takeWhile (\<lambda>a. expires h a \<le> t) (ys @ n # zs))))
        \<and> holds l h' (dropWhile (\<lambda>a. expires h a \<le> t) (ys @ n # zs))
        \<and> dom h' = dom h - set (takeWhile (\<lambda>a. expires h a \<le> t) (ys @ n # zs)))
    \<and> (\<exists>h'. delete_timer_list l h = Some (Inr h')
        \<and> dom h' = dom h - set (m_ptrHead l # (ys @ n # zs) @ [m_ptrTail l]))"
proof (intro conjI)
  show "\<exists>h'. list_addNode l (Some m) h = Some (Inr h')
      \<and> holds l h' (ins (expires h) (expires h m) m (expires h (m_ptrHead l)) (ys @ n # zs))"
    using list_addNode_ok [OF assms] by blast
  show "\<exists>h'. list_deleteNode l (Some n) h = Inr h' \<and> holds l h' (ys @ zs) \<and> dom h' = dom h - {n}"
    using list_deleteNode_ok [OF assms(1)] by blast
qed (rule adjustNode_ok [OF assms(1)], rule list_tick_ok [OF assms(1)], rule delete_timer_list_ok [OF assms(1)])

definition sample_list :: timer_list where
  "sample_list = \<lparr>m_ptrHead = 0, m_ptrTail = 1\<rparr>"

definition sample_store :: store where
  "sample_store =
     [0 \<mapsto> \<lparr>m_expireTime = 0, m_ptrNodeNext = Some 2, m_ptrNodePrev = None, m_client = False\<rparr>,
      1 \<mapsto> \<lparr>m_expireTime = 0, m_ptrNodeNext = None, m_ptrNodePrev = Some 2, m_client = False\<rparr>,
      2 \<mapsto> \<lparr>m_expireTime = 10, m_ptrNodeNext = Some 1, m_ptrNodePrev = Some 0, m_client = True\<rparr>,
      3 \<mapsto> \<lparr>m_expireTime = 5, m_ptrNodeNext = None, m_ptrNodePrev = None, m_client = True\<rparr>]"

lemma sample_holds: "holds sample_list sample_store [2]"
  by (simp add: holds_def sample_list_def sample_store_def nxt_def prv_def)

lemma timer_list_refines_witness:
  "\<exists>h'. list_addNode sample_list (Some 3) sample_store = Some (Inr h') \<and> holds sample_list h' [2, 3]"
  using timer_list_refines [of sample_list sample_store "[]" 2 "[]" 3 0] sample_holds
  by (simp add: sample_list_def sample_store_def expires_def)

text \<open>
  The list is not kept in the order of the expiry times: a timer added after one that expires later
  goes behind it, and until that one expires no tick calls it.
\<close>

lemma list_timer_late:
  assumes "holds l h [n]" "h m \<noteq> None" "m \<notin> {m_ptrHead l, n, m_ptrTail l}"
    and "expires h (m_ptrHead l) = 0" "0 < expires h m" "expires h m \<le> t" "t < expires h n"
  shows "\<exists>h' h''. list_addNode l (Some m) h = Some (Inr h') \<and> list_tick l t h' = Some (Inr (h'', []))
    \<and> holds l h'' [n, m]"
proof -
  have "m \<notin> set (m_ptrHead l # [n] @ [m_ptrTail l])" using assms(3) by simp
  from list_addNode_ok [OF assms(1,2) this] assms(4-7) obtain h' where
    h': "list_addNode l (Some m) h = Some (Inr h')" "holds l h' [n, m]" "expires h' = expires h"
    by auto
  with list_tick_ok [OF h'(2), of t] assms(7) show ?thesis by auto
qed

section \<open>The wheel\<close>

text \<open>
  A slot is the list of timers behind its head node; a timer is its address, its remaining rotations,
  its slot and whether its client is alive. \<open>WheelLinks\<close> has the same operations on linked nodes in a
  store and shows that they implement these; taking a timer out (\<open>wheel_delNode\<close>) is meant for a timer
  that is in the wheel.
\<close>

record wheel_node =
  w_address :: nat
  m_rotation :: int
  m_timeSlot :: nat
  w_client :: bool

record wheel =
  m_timeSlots :: "wheel_node list list"
  m_curSlot :: nat

definition TIME_SLOTS :: nat where
  "TIME_SLOTS = 60"

definition TIME_GAP :: int where
  "TIME_GAP = 1"

definition new_wheel :: wheel where
  "new_wheel = \<lparr>m_timeSlots = replicate TIME_SLOTS [], m_curSlot = 0\<rparr>"

text \<open>\<open>addNode\<close>, with the address of the new node and whether a client is bound to it afterwards.\<close>

definition wheel_addNode :: "nat \<Rightarrow> bool \<Rightarrow> int \<Rightarrow> wheel \<Rightarrow> wheel_node option \<times> wheel" where
  "wheel_addNode a alive timeout w =
     (if timeout < 0 then (None, w)
      else
        let ticks = (if timeout < TIME_GAP then 1 else timeout sdiv TIME_GAP);
            rot = ticks sdiv int TIME_SLOTS;
            ts = (m_curSlot w + nat (ticks smod int TIME_SLOTS)) mod TIME_SLOTS;
            newTimer = \<lparr>w_address = a, m_rotation = rot, m_timeSlot = ts, w_client = alive\<rparr>
        in (Some newTimer, w\<lparr>m_timeSlots := (m_timeSlots w)[ts := newTimer # m_timeSlots w ! ts]\<rparr>))"

definition wheel_delNode :: "wheel_node \<Rightarrow> wheel \<Rightarrow> wheel" where
  "wheel_delNode x w =
     w\<lparr>m_timeSlots := (m_timeSlots w)[m_timeSlot x :=
        List.filter (\<lambda>y. w_address y \<noteq> w_address x) (m_timeSlots w ! m_timeSlot x)]\<rparr>"

text \<open>The destructor deletes the timers that are still in a slot; the addresses it frees.\<close>

definition delete_wheel :: "wheel \<Rightarrow> nat list" where
  "delete_wheel w = concat (map (map w_address) (m_timeSlots w))"

text \<open>The loop of \<open>tick\<close> over the timers of a slot: those that stay, and those called.\<close>

fun tick_slot :: "wheel_node list \<Rightarrow> wheel_node list \<times> nat list" where
  "tick_slot [] = ([], [])"
| "tick_slot (x # xs) =
     (let x = x\<lparr>m_rotation := m_rotation x - 1\<rparr>; (stay, called) = tick_slot xs
      in if m_rotation x \<le> 0 then (stay, if w_client x then w_address x # called else called)
         else (x # stay, called))"

definition wheel_tick :: "wheel \<Rightarrow> wheel \<times> nat list" where
  "wheel_tick w =
     (let (stay, called) = tick_slot (m_timeSlots w ! m_curSlot w)
      in (w\<lparr>m_timeSlots := (m_timeSlots w)[m_curSlot w := stay], m_curSlot := (m_curSlot w + 1) mod TIME_SLOTS\<rparr>, called))"

fun wheel_ticks :: "nat \<Rightarrow> wheel \<Rightarrow> wheel \<times> nat list list" where
  "wheel_ticks 0 w = (w, [])"
| "wheel_ticks (Suc k) w =
     (let (w, called) = wheel_tick w; (w, rest) = wheel_ticks k w in (w, called # rest))"

section \<open>When a timer of the wheel is called\<close>

text \<open>The ticks before the one that calls a timer.\<close>

definition countdown :: "wheel \<Rightarrow> wheel_node \<Rightarrow> nat" where
  "countdown w x =
     (m_timeSlot x + TIME_SLOTS - m_curSlot w) mod TIME_SLOTS + TIME_SLOTS * (nat (m_rotation x) - 1)"

text \<open>A well-formed wheel: 60 slots, every timer in its own, and no address twice.\<close>

definition wf_wheel :: "wheel \<Rightarrow> bool" where
  "wf_wheel w \<longleftrightarrow> length (m_timeSlots w) = TIME_SLOTS \<and> m_curSlot w < TIME_SLOTS
     \<and> (\<forall>k < TIME_SLOTS. (\<forall>x \<in> set (m_timeSlots w ! k). m_timeSlot x = k \<and> m_rotation x \<ge> 0)
         \<and> distinct (map w_address (m_timeSlots w ! k)))"

definition timers :: "wheel \<Rightarrow> wheel_node set" where
  "timers w = (\<Union>k < TIME_SLOTS. set (m_timeSlots w ! k))"

definition less_rotation :: "wheel_node \<Rightarrow> wheel_node" where
  "less_rotation x = x\<lparr>m_rotation := m_rotation x - 1\<rparr>"

lemma tick_slot_eq:
  "tick_slot xs = (map less_rotation (List.filter (\<lambda>x. m_rotation x > 1) xs),
     map w_address (List.filter (\<lambda>x. m_rotation x \<le> 1 \<and> w_client x) xs))"
  by (induction xs) (auto simp: less_rotation_def Let_def)

lemma wheel_tick_eq:
  "wheel_tick w =
     (w\<lparr>m_timeSlots := (m_timeSlots w)[m_curSlot w :=
          map less_rotation (List.filter (\<lambda>x. m_rotation x > 1) (m_timeSlots w ! m_curSlot w))],
        m_curSlot := (m_curSlot w + 1) mod TIME_SLOTS\<rparr>,
      map w_address (List.filter (\<lambda>x. m_rotation x \<le> 1 \<and> w_client x) (m_timeSlots w ! m_curSlot w)))"
  by (simp add: wheel_tick_def tick_slot_eq)

lemma wf_wheel_tick:
  assumes "wf_wheel w"
  shows "wf_wheel (fst (wheel_tick w))"
proof -
  have "distinct (map w_address (map less_rotation (List.filter P xs)))" if "distinct (map w_address xs)" for P xs
    using that by (induction xs) (auto simp: less_rotation_def)
  then show ?thesis
    using assms by (auto simp: wf_wheel_def wheel_tick_eq nth_list_update less_rotation_def TIME_SLOTS_def split: if_splits)
qed

lemma slot_distance:
  assumes "c < 60" "k < (60 :: nat)"
  shows "c = k \<Longrightarrow> (k + 60 - c) mod 60 = 0 \<and> (k + 60 - Suc c mod 60) mod 60 = 59"
    and "c \<noteq> k \<Longrightarrow> (k + 60 - c) mod 60 = Suc ((k + 60 - Suc c mod 60) mod 60)"
proof -
  show "(k + 60 - c) mod 60 = 0 \<and> (k + 60 - Suc c mod 60) mod 60 = 59" if "c = k"
    using that assms span_wrap [of "Suc c mod 60" 60 k] by (cases "Suc c = 60") auto
  have "c \<noteq> k \<Longrightarrow> (k + 60 - c) mod 60 \<noteq> 0" using span_wrap [OF assms] assms by (auto split: if_splits)
  then show "c \<noteq> k \<Longrightarrow> (k + 60 - c) mod 60 = Suc ((k + 60 - Suc c mod 60) mod 60)"
    using span_pop [OF assms] by simp
qed

text \<open>One tick: a timer with no ticks left is called and gone, any other stays and counts down.\<close>

lemma tick_countdown:
  assumes w: "wf_wheel w" and x: "x \<in> timers w"
  shows "countdown w x = 0 \<Longrightarrow> m_timeSlot x = m_curSlot w \<and> m_rotation x \<le> 1"
    and "0 < countdown w x \<Longrightarrow> \<exists>y \<in> timers (fst (wheel_tick w)). w_address y = w_address x \<and> w_client y = w_client x
      \<and> countdown w x = Suc (countdown (fst (wheel_tick w)) y)"
proof -
  from x obtain k where k: "k < TIME_SLOTS" "x \<in> set (m_timeSlots w ! k)" by (auto simp: timers_def)
  with w have x': "m_timeSlot x = k" "m_rotation x \<ge> 0" and c: "m_curSlot w < 60" "length (m_timeSlots w) = 60"
    by (auto simp: wf_wheel_def TIME_SLOTS_def)
  have k60: "k < 60" using k(1) by (simp add: TIME_SLOTS_def)
  show "countdown w x = 0 \<Longrightarrow> m_timeSlot x = m_curSlot w \<and> m_rotation x \<le> 1"
  proof -
    assume "countdown w x = 0"
    then have "(k + 60 - m_curSlot w) mod 60 = 0" "nat (m_rotation x) \<le> 1"
      using x'(1) by (simp_all add: countdown_def TIME_SLOTS_def)
    moreover from this(1) have "m_curSlot w = k" using slot_distance(2) [OF c(1) k60] by auto
    ultimately show ?thesis using x' by auto
  qed
  assume pos: "0 < countdown w x"
  let ?w = "fst (wheel_tick w)"
  show "\<exists>y \<in> timers ?w. w_address y = w_address x \<and> w_client y = w_client x \<and> countdown w x = Suc (countdown ?w y)"
  proof (cases "m_curSlot w = k")
    case True
    then have r: "m_rotation x > 1" using pos slot_distance [of "m_curSlot w" k] c k(1) x' by (auto simp: countdown_def TIME_SLOTS_def)
    have "less_rotation x \<in> set (m_timeSlots ?w ! k)"
      using True r k c by (simp add: wheel_tick_eq TIME_SLOTS_def)
    moreover have "countdown w x = Suc (countdown ?w (less_rotation x))"
      using True r x' slot_distance [of "m_curSlot w" k] c k(1)
      by (simp add: countdown_def wheel_tick_eq less_rotation_def TIME_SLOTS_def nat_diff_distrib)
    ultimately show ?thesis using k(1) by (intro bexI [of _ "less_rotation x"]) (auto simp: less_rotation_def timers_def)
  next
    case False
    then have "x \<in> set (m_timeSlots ?w ! k)" using k by (simp add: wheel_tick_eq)
    moreover have "countdown w x = Suc (countdown ?w x)"
      using False x' slot_distance [of "m_curSlot w" k] c k(1) by (simp add: countdown_def wheel_tick_eq TIME_SLOTS_def)
    ultimately show ?thesis using k(1) by (intro bexI [of _ x]) (auto simp: timers_def)
  qed
qed

lemma tick_origin:
  assumes w: "wf_wheel w" and y: "y \<in> timers (fst (wheel_tick w))"
  shows "\<exists>x \<in> timers w. w_address x = w_address y \<and> w_client x = w_client y
    \<and> countdown w x = Suc (countdown (fst (wheel_tick w)) y)"
proof -
  let ?w = "fst (wheel_tick w)"
  from y obtain k where k: "k < TIME_SLOTS" "y \<in> set (m_timeSlots ?w ! k)" by (auto simp: timers_def)
  with wf_wheel_tick [OF w] have y': "m_timeSlot y = k" "m_rotation y \<ge> 0" by (auto simp: wf_wheel_def)
  have c: "m_curSlot w < 60" "length (m_timeSlots w) = 60" "k < 60"
    using w k(1) by (auto simp: wf_wheel_def TIME_SLOTS_def)
  show ?thesis
  proof (cases "m_curSlot w = k")
    case True
    then obtain x where x: "x \<in> set (m_timeSlots w ! k)" "m_rotation x > 1" "y = less_rotation x"
      using k c by (auto simp: wheel_tick_eq)
    then have xt: "m_timeSlot x = k" using w k(1) by (auto simp: wf_wheel_def)
    have "countdown w x = Suc (countdown ?w y)"
      using True x(2,3) xt slot_distance [OF c(1,3)]
      by (simp add: countdown_def wheel_tick_eq less_rotation_def TIME_SLOTS_def nat_diff_distrib)
    with x k(1) show ?thesis by (intro bexI [of _ x]) (auto simp: less_rotation_def timers_def)
  next
    case False
    then have "y \<in> set (m_timeSlots w ! k)" using k by (simp add: wheel_tick_eq)
    moreover have "countdown w y = Suc (countdown ?w y)"
      using False y' slot_distance [OF c(1,3)] by (simp add: countdown_def wheel_tick_eq TIME_SLOTS_def)
    ultimately show ?thesis using k(1) by (intro bexI [of _ y]) (auto simp: timers_def)
  qed
qed

lemma tick_calls:
  assumes w: "wf_wheel w"
  shows "set (snd (wheel_tick w)) = w_address ` {x \<in> timers w. countdown w x = 0 \<and> w_client x}"
proof -
  have c: "m_curSlot w < TIME_SLOTS" using w by (simp add: wf_wheel_def)
  have "x \<in> set (m_timeSlots w ! m_curSlot w) \<and> m_rotation x \<le> 1 \<longleftrightarrow> x \<in> timers w \<and> countdown w x = 0" for x
  proof
    assume x: "x \<in> set (m_timeSlots w ! m_curSlot w) \<and> m_rotation x \<le> 1"
    with w c have "m_timeSlot x = m_curSlot w" by (auto simp: wf_wheel_def)
    with x c show "x \<in> timers w \<and> countdown w x = 0" by (auto simp: timers_def countdown_def TIME_SLOTS_def)
  next
    assume x: "x \<in> timers w \<and> countdown w x = 0"
    then have "m_timeSlot x = m_curSlot w" "m_rotation x \<le> 1" using tick_countdown(1) [OF w] by blast+
    moreover from x obtain k where k: "k < TIME_SLOTS" "x \<in> set (m_timeSlots w ! k)" by (auto simp: timers_def)
    then have "m_timeSlot x = k" using w by (auto simp: wf_wheel_def)
    ultimately show "x \<in> set (m_timeSlots w ! m_curSlot w) \<and> m_rotation x \<le> 1" using k by simp
  qed
  then show ?thesis by (auto simp: wheel_tick_eq image_def)
qed

text \<open>All timers with the address \<open>a\<close> count down from \<open>c\<close>; \<open>None\<close> where there is none.\<close>

definition due :: "wheel \<Rightarrow> nat \<Rightarrow> nat option \<Rightarrow> bool" where
  "due w a c \<longleftrightarrow> (case c of None \<Rightarrow> a \<notin> w_address ` timers w
     | Some d \<Rightarrow> a \<in> w_address ` timers w \<and> (\<forall>x \<in> timers w. w_address x = a \<longrightarrow> w_client x \<and> countdown w x = d))"

lemma due_tick:
  assumes "wf_wheel w" "due w a c"
  shows "a \<in> set (snd (wheel_tick w)) \<longleftrightarrow> c = Some 0"
    and "due (fst (wheel_tick w)) a (case c of Some (Suc d) \<Rightarrow> Some d | _ \<Rightarrow> None)"
proof -
  show "a \<in> set (snd (wheel_tick w)) \<longleftrightarrow> c = Some 0"
    using assms(2) unfolding tick_calls [OF assms(1)] by (auto simp: due_def split: option.splits)
  have o: "\<exists>x \<in> timers w. w_address x = a \<and> w_client x = w_client y \<and> countdown w x = Suc (countdown (fst (wheel_tick w)) y)"
    if "y \<in> timers (fst (wheel_tick w))" "w_address y = a" for y
    using tick_origin [OF assms(1) that(1)] that(2) by auto
  show "due (fst (wheel_tick w)) a (case c of Some (Suc d) \<Rightarrow> Some d | _ \<Rightarrow> None)"
  proof (cases "\<exists>d. c = Some (Suc d)")
    case True
    then obtain d where d: "c = Some (Suc d)" by blast
    then obtain x where x: "x \<in> timers w" "w_address x = a" "countdown w x = Suc d" using assms(2) by (auto simp: due_def)
    from tick_countdown(2) [OF assms(1) x(1)] x obtain y where "y \<in> timers (fst (wheel_tick w))" "w_address y = a" by auto
    then have "a \<in> w_address ` timers (fst (wheel_tick w))" by auto
    moreover have "\<forall>y \<in> timers (fst (wheel_tick w)). w_address y = a \<longrightarrow> w_client y \<and> countdown (fst (wheel_tick w)) y = d"
      using o assms(2) d by (fastforce simp: due_def)
    ultimately show ?thesis by (simp add: d due_def)
  next
    case False
    have "a \<notin> w_address ` timers (fst (wheel_tick w))"
    proof
      assume "a \<in> w_address ` timers (fst (wheel_tick w))"
      then obtain y where y: "y \<in> timers (fst (wheel_tick w))" "w_address y = a" by auto
      from o [OF y] obtain x where "x \<in> timers w" "w_address x = a" "countdown w x \<noteq> 0" by auto
      with assms(2) False show False by (cases c; cases "the c") (auto simp: due_def)
    qed
    moreover have "(case c of Some (Suc d) \<Rightarrow> Some d | _ \<Rightarrow> None) = (None :: nat option)"
      using False by (auto split: option.splits nat.splits)
    ultimately show ?thesis by (simp add: due_def)
  qed
qed

lemma due_ticks:
  "wf_wheel w \<Longrightarrow> due w a c \<Longrightarrow> j < k \<Longrightarrow> a \<in> set (snd (wheel_ticks k w) ! j) \<longleftrightarrow> c = Some j"
proof (induction k arbitrary: w c j)
  case (Suc k)
  let ?c = "case c of Some (Suc d) \<Rightarrow> Some d | _ \<Rightarrow> None"
  have t: "snd (wheel_ticks (Suc k) w) = snd (wheel_tick w) # snd (wheel_ticks k (fst (wheel_tick w)))"
    by (simp add: case_prod_beta Let_def)
  note d = due_tick [OF Suc.prems(1,2)]
  show ?case
  proof (cases j)
    case 0
    with d(1) show ?thesis unfolding t by simp
  next
    case (Suc i)
    with Suc.IH [OF wf_wheel_tick [OF Suc.prems(1)] d(2), of i] Suc.prems(3) show ?thesis
      unfolding t by (auto split: option.splits nat.splits)
  qed
qed simp

lemma due_insert:
  assumes "timers w' = insert x (timers w)" "countdown w' x = d" "a \<notin> w_address ` timers w" "w_address x = a" "w_client x"
  shows "due w' a (Some d)"
proof -
  have "\<forall>y \<in> timers w. w_address y \<noteq> a" using assms(3) by auto
  then show ?thesis using assms(1,2,4,5) by (auto simp: due_def)
qed

lemma ring_distance:
  assumes "(c :: nat) < 60" "m < 60"
  shows "((c + m) mod 60 + 60 - c) mod 60 = m"
proof (cases "c + m < 60")
  case True
  then have "(c + m) mod 60 + 60 - c = m + 60" using assms by simp
  then show ?thesis using assms by simp
next
  case False
  then have "(c + m) mod 60 = c + m - 60" using mod_wrap [of "c + m" 60] assms by simp
  then have "(c + m) mod 60 + 60 - c = m" using False assms by linarith
  then show ?thesis using assms by simp
qed

lemma turns_left:
  assumes "1 \<le> (n :: int)"
  shows "int (nat (n mod 60) + 60 * (nat (n div 60) - 1)) = (if n < 60 then n else n - 60)"
proof (cases "n < 60")
  case True
  then show ?thesis using assms by simp
next
  case False
  then have "1 \<le> n div 60" by (simp add: pos_imp_zdiv_pos_iff int_one_le_iff_zero_less)
  then have "int (nat (n div 60) - 1) = n div 60 - 1" by simp
  moreover have "n mod 60 = n - 60 * (n div 60)" by (simp add: minus_mult_div_eq_mod)
  ultimately show ?thesis using False by simp
qed

lemma UN_insert_at: "t < n \<Longrightarrow> (\<Union>i < (n :: nat). if i = t then insert x (S i) else S i) = insert x (\<Union>i < n. S i)"
  by (auto split: if_splits)

text \<open>
  C39. When a timer of the wheel is called: a timer added with a time out below 60 seconds is called by
  exactly one of the following ticks, the one after as many ticks as the time out (at least one); with
  a time out of 60 seconds or more it is called a full turn of 60 ticks early. This holds whatever
  other timers the wheel holds.
\<close>

theorem wheel_call_time:
  assumes "wf_wheel w" "a \<notin> w_address ` timers w" "0 \<le> timeout" "j < k"
  shows "a \<in> set (snd (wheel_ticks k (snd (wheel_addNode a True timeout w))) ! j)
    \<longleftrightarrow> int j = (if timeout < 60 then max 1 timeout else timeout - 60)"
proof -
  let ?n = "max 1 timeout"
  let ?ts = "(m_curSlot w + nat (?n mod 60)) mod 60"
  let ?x = "\<lparr>w_address = a, m_rotation = ?n div 60, m_timeSlot = ?ts, w_client = True\<rparr>"
  let ?w = "w\<lparr>m_timeSlots := (m_timeSlots w)[?ts := ?x # m_timeSlots w ! ?ts]\<rparr>"
  have n: "(if timeout < 1 then 1 else timeout) = ?n" by simp
  have w1: "snd (wheel_addNode a True timeout w) = ?w"
    using assms(3) by (simp add: wheel_addNode_def TIME_GAP_def TIME_SLOTS_def sdiv_nonneg smod_nonneg n Let_def)
  have c: "m_curSlot w < 60" "length (m_timeSlots w) = 60" using assms(1) by (simp_all add: wf_wheel_def TIME_SLOTS_def)
  have ts: "?ts < 60" by simp
  have "a \<notin> w_address ` set (m_timeSlots w ! i)" if "i < 60" for i
    using assms(2) that by (auto simp: timers_def TIME_SLOTS_def)
  then have wf: "wf_wheel ?w"
    using assms(1,3) by (auto simp: wf_wheel_def TIME_SLOTS_def nth_list_update pos_imp_zdiv_nonneg_iff)
  have tm: "timers ?w = insert ?x (timers w)"
  proof -
    have "set (m_timeSlots ?w ! i) = (if i = ?ts then insert ?x (set (m_timeSlots w ! i)) else set (m_timeSlots w ! i))"
      if "i < 60" for i
      using c ts that by (simp add: nth_list_update)
    then have "timers ?w = (\<Union>i < 60. if i = ?ts then insert ?x (set (m_timeSlots w ! i)) else set (m_timeSlots w ! i))"
      unfolding timers_def TIME_SLOTS_def by (intro SUP_cong) auto
    also have "\<dots> = insert ?x (\<Union>i < 60. set (m_timeSlots w ! i))"
      by (rule UN_insert_at [OF ts])
    finally show ?thesis by (simp add: timers_def TIME_SLOTS_def)
  qed
  define d where "d = nat (?n mod 60) + 60 * (nat (?n div 60) - 1)"
  have m: "nat (?n mod 60) < 60" by simp
  have "(?ts + 60 - m_curSlot w) mod 60 = nat (?n mod 60)"
    by (rule ring_distance [OF c(1) m])
  then have "countdown ?w ?x = d" by (simp add: countdown_def TIME_SLOTS_def d_def)
  with tm have "due ?w a (Some d)" by (rule due_insert) (use assms(2) in simp_all)
  from due_ticks [OF wf this assms(4)] have "a \<in> set (snd (wheel_ticks k ?w) ! j) \<longleftrightarrow> d = j" by simp
  moreover have "int d = (if timeout < 60 then ?n else timeout - 60)"
    unfolding d_def using turns_left [of ?n] assms(3) by (simp add: max_def split: if_splits)
  ultimately show ?thesis unfolding w1 by auto
qed

lemma wheel_call_time_witness:
  "7 \<in> set (snd (wheel_ticks 70 (snd (wheel_addNode 7 True 5 new_wheel))) ! 5)
    \<and> 7 \<in> set (snd (wheel_ticks 70 (snd (wheel_addNode 7 True 60 new_wheel))) ! 0)
    \<and> 7 \<notin> set (snd (wheel_ticks 70 (snd (wheel_addNode 7 True 60 new_wheel))) ! 60)"
proof -
  have w: "wf_wheel new_wheel" "7 \<notin> w_address ` timers new_wheel"
    by (auto simp: wf_wheel_def timers_def new_wheel_def TIME_SLOTS_def)
  show ?thesis
    using wheel_call_time [OF w, of 5 5 70] wheel_call_time [OF w, of 60 0 70] wheel_call_time [OF w, of 60 60 70]
    by (simp del: wheel_ticks.simps)
qed

section \<open>Operations on the lists of the wheel\<close>

datatype wheel_op = Wheel_add nat bool int | Wheel_del wheel_node | Wheel_tick

text \<open>An added timer has an address of its own; a deleted one is in the wheel.\<close>

fun wheel_op_ok :: "wheel_op \<Rightarrow> wheel \<Rightarrow> bool" where
  "wheel_op_ok (Wheel_add a alive timeout) w = (a \<notin> set (delete_wheel w))"
| "wheel_op_ok (Wheel_del x) w = (m_timeSlot x < TIME_SLOTS \<and> x \<in> set (m_timeSlots w ! m_timeSlot x))"
| "wheel_op_ok Wheel_tick w = True"

fun run_wheel :: "wheel_op \<Rightarrow> wheel \<Rightarrow> wheel" where
  "run_wheel (Wheel_add a alive timeout) w = snd (wheel_addNode a alive timeout w)"
| "run_wheel (Wheel_del x) w = wheel_delNode x w"
| "run_wheel Wheel_tick w = fst (wheel_tick w)"

lemma distinct_concat_update:
  assumes "i < length xs" "distinct (concat xs)" "distinct ys" "set ys \<subseteq> set (xs ! i) \<union> S" "S \<inter> set (concat xs) = {}"
  shows "distinct (concat (xs[i := ys]))"
proof -
  have e: "xs = take i xs @ xs ! i # drop (Suc i) xs" by (rule id_take_nth_drop [OF assms(1)])
  have u: "xs[i := ys] = take i xs @ ys # drop (Suc i) xs" by (rule upd_conv_take_nth_drop [OF assms(1)])
  let ?A = "concat (take i xs)" and ?B = "concat (drop (Suc i) xs)"
  have c: "concat xs = ?A @ xs ! i @ ?B" by (subst e) simp
  have d: "distinct (?A @ xs ! i @ ?B)" using assms(2) by (simp only: c)
  have s: "S \<inter> set (?A @ xs ! i @ ?B) = {}" using assms(5) by (simp only: c)
  have "distinct (?A @ ys @ ?B)" using d s assms(3,4) by (auto simp del: set_concat)
  then show ?thesis unfolding u by simp
qed

lemma tick_slot_sub:
  "set (map w_address (fst (tick_slot xs))) \<subseteq> set (map w_address xs)"
  "distinct (map w_address xs) \<Longrightarrow> distinct (map w_address (fst (tick_slot xs)))"
proof -
  show sub: "set (map w_address (fst (tick_slot xs))) \<subseteq> set (map w_address xs)" for xs
    by (induction xs) (auto simp: Let_def image_subset_iff split: prod.splits)
  show "distinct (map w_address xs) \<Longrightarrow> distinct (map w_address (fst (tick_slot xs)))"
  proof (induction xs)
    case (Cons x xs)
    with sub [of xs] show ?case by (auto simp: Let_def image_subset_iff split: prod.splits)
  qed simp
qed

lemma delete_wheel_update:
  assumes "distinct (delete_wheel w)" "i < length (m_timeSlots w)" "distinct (map w_address ys)"
    and "set (map w_address ys) \<subseteq> set (map w_address (m_timeSlots w ! i)) \<union> S" "S \<inter> set (delete_wheel w) = {}"
  shows "distinct (delete_wheel (w\<lparr>m_timeSlots := (m_timeSlots w)[i := ys]\<rparr>))"
  using distinct_concat_update [of i "map (map w_address) (m_timeSlots w)" "map w_address ys" S] assms
  by (simp add: delete_wheel_def map_update)

lemma slot_distinct: "distinct (delete_wheel w) \<Longrightarrow> i < length (m_timeSlots w) \<Longrightarrow> distinct (map w_address (m_timeSlots w ! i))"
  by (auto simp: delete_wheel_def distinct_concat_iff)

lemma in_delete_wheel: "i < length (m_timeSlots w) \<Longrightarrow> x \<in> set (m_timeSlots w ! i) \<Longrightarrow> w_address x \<in> set (delete_wheel w)"
  by (auto simp: delete_wheel_def)

lemma run_wheel_ok:
  assumes w: "wf_wheel w" "distinct (delete_wheel w)" and ok: "wheel_op_ok op w"
  shows "wf_wheel (run_wheel op w) \<and> distinct (delete_wheel (run_wheel op w))"
proof -
  have l: "length (m_timeSlots w) = TIME_SLOTS" "m_curSlot w < TIME_SLOTS" using w(1) by (simp_all add: wf_wheel_def)
  show ?thesis
  proof (cases op)
    case (Wheel_add a alive timeout)
    let ?ticks = "if timeout < TIME_GAP then 1 else timeout sdiv TIME_GAP"
    let ?ts = "(m_curSlot w + nat (?ticks smod int TIME_SLOTS)) mod TIME_SLOTS"
    let ?x = "\<lparr>w_address = a, m_rotation = ?ticks sdiv int TIME_SLOTS, m_timeSlot = ?ts, w_client = alive\<rparr>"
    show ?thesis
    proof (cases "timeout < 0")
      case False
      have ts: "?ts < TIME_SLOTS" by (simp add: TIME_SLOTS_def)
      have t: "0 \<le> ?ticks" using False by (auto simp: TIME_GAP_def signed_divide_int_def sgn_if)
      then have r: "0 \<le> ?ticks sdiv int TIME_SLOTS" by (auto simp: signed_divide_int_def sgn_if TIME_SLOTS_def)
      have "distinct (map w_address (?x # m_timeSlots w ! ?ts))"
        using slot_distinct [OF w(2), of ?ts] in_delete_wheel [of ?ts w] ts l ok Wheel_add by auto
      then have "wf_wheel (run_wheel op w)"
        using w(1) False r ts l by (auto simp: Wheel_add wheel_addNode_def wf_wheel_def Let_def nth_list_update)
      moreover have "distinct (delete_wheel (w\<lparr>m_timeSlots := (m_timeSlots w)[?ts := ?x # m_timeSlots w ! ?ts]\<rparr>))"
        by (rule delete_wheel_update [OF w(2), where S = "{a}"])
          (use \<open>distinct (map w_address (?x # m_timeSlots w ! ?ts))\<close> ts l ok Wheel_add in auto)
      ultimately show ?thesis using False by (simp add: Wheel_add wheel_addNode_def Let_def)
    qed (use w in \<open>simp add: Wheel_add wheel_addNode_def\<close>)
  next
    case (Wheel_del x)
    have i: "m_timeSlot x < length (m_timeSlots w)" using ok l Wheel_del by simp
    let ?ys = "List.filter (\<lambda>y. w_address y \<noteq> w_address x) (m_timeSlots w ! m_timeSlot x)"
    have d: "distinct (map w_address ?ys)" using slot_distinct [OF w(2) i] by (rule distinct_map_filter)
    have "distinct (delete_wheel (w\<lparr>m_timeSlots := (m_timeSlots w)[m_timeSlot x := ?ys]\<rparr>))"
      by (rule delete_wheel_update [OF w(2) i d, where S = "{}"]) auto
    moreover have "wf_wheel (run_wheel op w)"
      using w(1) d i by (auto simp: Wheel_del wheel_delNode_def wf_wheel_def nth_list_update)
    ultimately show ?thesis by (simp add: Wheel_del wheel_delNode_def)
  next
    case Wheel_tick
    let ?stay = "fst (tick_slot (m_timeSlots w ! m_curSlot w))"
    have "distinct (map w_address ?stay)"
      using tick_slot_sub(2) [of "m_timeSlots w ! m_curSlot w"] slot_distinct [OF w(2), of "m_curSlot w"] l by simp
    then have "distinct (delete_wheel (w\<lparr>m_timeSlots := (m_timeSlots w)[m_curSlot w := ?stay]\<rparr>))"
      by (rule delete_wheel_update [OF w(2), where S = "{}", rotated]) (use tick_slot_sub(1) [of "m_timeSlots w ! m_curSlot w"] l in simp_all)
    then have "distinct (delete_wheel (fst (wheel_tick w)))"
      by (cases "tick_slot (m_timeSlots w ! m_curSlot w)") (simp add: wheel_tick_def delete_wheel_def)
    with wf_wheel_tick [OF w(1)] show ?thesis by (simp add: Wheel_tick)
  qed
qed

end
