(* ===== verification/WheelLinks.thy ===== *)
theory WheelLinks
  imports LstTimers
begin

text \<open>
  The timer wheel of \<open>src/src/base/LstTimer.cc\<close> on an explicit store: a slot is the address of a head node,
  and the links are followed and written one by one, so that a null or freed node is a fault. \<open>LstTimers\<close>
  has the wheel as lists of timers; the operations here implement those on lists as long as only timers
  that are linked are deleted. Callbacks do not touch the wheel.
\<close>

section \<open>Translation\<close>

record wheel_cell =
  wc_next :: "nat option"
  wc_prev :: "nat option"
  wc_rotation :: int
  wc_timeSlot :: nat
  wc_client :: bool

type_synonym wheel_store = "nat \<rightharpoonup> wheel_cell"

record wheel_links =
  wl_timeSlots :: "nat list"
  wl_curSlot :: nat

definition new_cell :: wheel_cell where
  "new_cell = \<lparr>wc_next = None, wc_prev = None, wc_rotation = 0, wc_timeSlot = 0, wc_client = False\<rparr>"

definition cell_at :: "wheel_store \<Rightarrow> nat option \<Rightarrow> wheel_cell res" where
  "cell_at h p = (case p of None \<Rightarrow> Inl Null_deref
     | Some a \<Rightarrow> (case h a of None \<Rightarrow> Inl Undefined | Some n \<Rightarrow> Inr n))"

definition put_cell :: "nat option \<Rightarrow> (wheel_cell \<Rightarrow> wheel_cell) \<Rightarrow> wheel_store \<Rightarrow> wheel_store res" where
  "put_cell p f h = bindR (cell_at h p) (\<lambda>n. Inr (h(the p \<mapsto> f n)))"

text \<open>The constructor, with the addresses \<open>new\<close> gives to the head nodes.\<close>

definition links_new :: "nat list \<Rightarrow> wheel_links \<times> wheel_store" where
  "links_new heads =
     (\<lparr>wl_timeSlots = heads, wl_curSlot = 0\<rparr>, fold (\<lambda>a h. h(a \<mapsto> new_cell)) heads Map.empty)"

text \<open>\<open>addNode\<close>, with the address of the new node and whether a client is bound to it afterwards.\<close>

definition links_addNode ::
  "nat \<Rightarrow> bool \<Rightarrow> int \<Rightarrow> wheel_links \<Rightarrow> wheel_store \<Rightarrow> (nat option \<times> wheel_store) res" where
  "links_addNode a alive timeout w h =
     (if timeout < 0 then Inr (None, h)
      else
        let ticks = (if timeout < TIME_GAP then 1 else timeout sdiv TIME_GAP);
            rot = ticks sdiv int TIME_SLOTS;
            ts = (wl_curSlot w + nat (ticks smod int TIME_SLOTS)) mod TIME_SLOTS;
            h = h(a \<mapsto> new_cell\<lparr>wc_rotation := rot, wc_timeSlot := ts, wc_client := alive\<rparr>);
            head = Some (wl_timeSlots w ! ts)
        in bindR (cell_at h head) (\<lambda>n.
           let headNext = wc_next n in
           bindR (put_cell head (wc_next_update (\<lambda>_. Some a)) h) (\<lambda>h.
           bindR (put_cell (Some a) (wc_prev_update (\<lambda>_. head)) h) (\<lambda>h.
           bindR (put_cell (Some a) (wc_next_update (\<lambda>_. headNext)) h) (\<lambda>h.
           bindR (if headNext \<noteq> None then put_cell headNext (wc_prev_update (\<lambda>_. Some a)) h else Inr h) (\<lambda>h.
           Inr (Some a, h)))))))"

definition links_delNode :: "nat option \<Rightarrow> wheel_store \<Rightarrow> wheel_store res" where
  "links_delNode p h =
     bindR (cell_at h p) (\<lambda>n.
     let next = wc_next n in
     bindR (put_cell (wc_prev n) (wc_next_update (\<lambda>_. next)) h) (\<lambda>h.
     if next \<noteq> None then
       bindR (cell_at h p) (\<lambda>n. put_cell next (wc_prev_update (\<lambda>_. wc_prev n)) h)
     else Inr h))"

text \<open>The loop of \<open>tick\<close>, with the addresses of the timers whose callback was run.\<close>

partial_function (option) links_tick_loop ::
  "wheel_store \<Rightarrow> nat option \<Rightarrow> nat list \<Rightarrow> (wheel_store \<times> nat list) res option" where
  "links_tick_loop h nowNode called =
     (if nowNode = None then Some (Inr (h, called))
      else case cell_at h nowNode of
        Inl e \<Rightarrow> Some (Inl e)
      | Inr n \<Rightarrow>
          let storeNode = wc_next n; h = h(the nowNode \<mapsto> n\<lparr>wc_rotation := wc_rotation n - 1\<rparr>)
          in if wc_rotation n - 1 \<le> 0 then
               (case links_delNode nowNode h of
                  Inl e \<Rightarrow> Some (Inl e)
                | Inr h \<Rightarrow> links_tick_loop h storeNode (if wc_client n then called @ [the nowNode] else called))
             else links_tick_loop h storeNode called)"

definition links_tick :: "wheel_links \<Rightarrow> wheel_store \<Rightarrow> (wheel_links \<times> wheel_store \<times> nat list) res option" where
  "links_tick w h =
     (case cell_at h (Some (wl_timeSlots w ! wl_curSlot w)) of
        Inl e \<Rightarrow> Some (Inl e)
      | Inr n \<Rightarrow>
          (case links_tick_loop h (wc_next n) [] of
             None \<Rightarrow> None
           | Some r \<Rightarrow> Some (bindR r (\<lambda>(h, called).
               Inr (w\<lparr>wl_curSlot := (wl_curSlot w + 1) mod TIME_SLOTS\<rparr>, h, called)))))"

text \<open>The destructor: the loop over one slot, from its head node on, and the loop over the slots.\<close>

partial_function (option) links_delete_slot :: "wheel_store \<Rightarrow> nat option \<Rightarrow> wheel_store res option" where
  "links_delete_slot h tmp =
     (if tmp = None then Some (Inr h)
      else case cell_at h tmp of
        Inl e \<Rightarrow> Some (Inl e)
      | Inr n \<Rightarrow> links_delete_slot (h(the tmp := None)) (wc_next n))"

fun links_delete :: "nat list \<Rightarrow> wheel_store \<Rightarrow> wheel_store res option" where
  "links_delete [] h = Some (Inr h)"
| "links_delete (s # ss) h =
     (case links_delete_slot h (Some s) of
        None \<Rightarrow> None
      | Some (Inl e) \<Rightarrow> Some (Inl e)
      | Some (Inr h) \<Rightarrow> links_delete ss h)"

section \<open>What the store stands for\<close>

text \<open>From the node \<open>q\<close> on, whose predecessor is \<open>p\<close>, the links run through the timers \<open>xs\<close>.\<close>

fun chain :: "wheel_store \<Rightarrow> nat option \<Rightarrow> nat option \<Rightarrow> wheel_node list \<Rightarrow> bool" where
  "chain h p q [] \<longleftrightarrow> q = None"
| "chain h p q (x # xs) \<longleftrightarrow> q = Some (w_address x) \<and>
     (\<exists>nx. h (w_address x) = Some \<lparr>wc_next = nx, wc_prev = p, wc_rotation = m_rotation x,
         wc_timeSlot = m_timeSlot x, wc_client = w_client x\<rparr> \<and> chain h q nx xs)"

definition slot_holds :: "wheel_store \<Rightarrow> nat \<Rightarrow> wheel_node list \<Rightarrow> bool" where
  "slot_holds h s xs \<longleftrightarrow> (\<exists>n. h s = Some n \<and> chain h (Some s) (wc_next n) xs)"

text \<open>The nodes of each slot, its head first.\<close>

definition nodes :: "wheel_links \<Rightarrow> wheel \<Rightarrow> nat list list" where
  "nodes w W = map2 (\<lambda>s xs. s # map w_address xs) (wl_timeSlots w) (m_timeSlots W)"

definition stands_for :: "wheel_links \<Rightarrow> wheel_store \<Rightarrow> wheel \<Rightarrow> bool" where
  "stands_for w h W \<longleftrightarrow> wl_curSlot w = m_curSlot W \<and> length (m_timeSlots W) = TIME_SLOTS
     \<and> list_all2 (slot_holds h) (wl_timeSlots w) (m_timeSlots W) \<and> distinct (concat (nodes w W))"

section \<open>One slot\<close>

lemma chain_frame: "(\<forall>x \<in> set xs. h' (w_address x) = h (w_address x)) \<Longrightarrow> chain h' p q xs = chain h p q xs"
  by (induction h p q xs rule: chain.induct) auto

lemma chain_update: "a \<notin> w_address ` set xs \<Longrightarrow> chain (h(a := v)) p q xs = chain h p q xs"
  by (rule chain_frame) auto

lemma slot_frame:
  assumes "\<forall>a \<in> set (s # map w_address xs). h' a = h a"
  shows "slot_holds h' s xs = slot_holds h s xs"
proof -
  have "h' s = h s" "chain h' p q xs = chain h p q xs" for p q using assms by (simp, intro chain_frame) simp_all
  then show ?thesis by (simp add: slot_holds_def)
qed

lemma cell_at_Some [simp]: "h a = Some n \<Longrightarrow> cell_at h (Some a) = Inr n"
  by (simp add: cell_at_def)

lemma put_cell_Some [simp]: "h a = Some n \<Longrightarrow> put_cell (Some a) f h = Inr (h(a \<mapsto> f n))"
  by (simp add: put_cell_def)

text \<open>A chain with another predecessor.\<close>

definition reprev :: "nat option \<Rightarrow> nat option \<Rightarrow> wheel_store \<Rightarrow> wheel_store" where
  "reprev q p h = (case q of None \<Rightarrow> h | Some b \<Rightarrow> h(b := map_option (wc_prev_update (\<lambda>_. p)) (h b)))"

lemma chain_reprev:
  assumes "chain h p q xs" "distinct (map w_address xs)"
  shows "chain (reprev q p' h) p' q xs"
proof (cases xs)
  case (Cons x ys)
  then have q: "q = Some (w_address x)" and ys: "w_address x \<notin> w_address ` set ys" using assms by auto
  from assms(1) Cons obtain nx where "h (w_address x) = Some \<lparr>wc_next = nx, wc_prev = p, wc_rotation = m_rotation x,
         wc_timeSlot = m_timeSlot x, wc_client = w_client x\<rparr>" "chain h q nx ys" by auto
  then show ?thesis using Cons q by (simp add: reprev_def chain_update [OF ys] del: fun_upd_apply) simp
qed (use assms in \<open>simp add: reprev_def\<close>)

lemma reprev_at: "q \<noteq> Some a \<Longrightarrow> reprev q p h a = h a"
  by (cases q) (auto simp: reprev_def)

lemma dom_reprev [simp]: "dom (reprev q p h) = dom h"
  by (cases q) (auto simp: reprev_def split: if_splits)

text \<open>Deleting a linked node joins its neighbours and touches no other node.\<close>

lemma links_delNode_ok:
  assumes "h s = Some n" "chain h (Some s) (wc_next n) (us @ x # vs)" "distinct (s # map w_address (us @ x # vs))"
  shows "\<exists>h' nx. links_delNode (Some (w_address x)) h = Inr h' \<and> h' s = Some (n\<lparr>wc_next := nx\<rparr>)
    \<and> chain h' (Some s) nx (us @ vs) \<and> (\<forall>a. a \<notin> set (s # map w_address (us @ x # vs)) \<longrightarrow> h' a = h a) \<and> dom h' = dom h"
  using assms
proof (induction us arbitrary: s n)
  case Nil
  let ?a = "w_address x"
  from Nil obtain nx where x: "wc_next n = Some ?a" "h ?a = Some \<lparr>wc_next = nx, wc_prev = Some s, wc_rotation = m_rotation x,
      wc_timeSlot = m_timeSlot x, wc_client = w_client x\<rparr>" and vs: "chain h (Some ?a) nx vs" by auto
  have d: "s \<noteq> ?a" "s \<notin> w_address ` set vs" "?a \<notin> w_address ` set vs" "distinct (map w_address vs)" using Nil.prems(3) by auto
  let ?h = "h(s \<mapsto> n\<lparr>wc_next := nx\<rparr>)"
  have c: "chain ?h (Some ?a) nx vs" using vs by (simp only: chain_update [OF d(2)])
  then have r: "chain (reprev nx (Some s) ?h) (Some s) nx vs" using d(4) by (rule chain_reprev)
  have nv: "nx = None \<or> (\<exists>b \<in> w_address ` set vs. nx = Some b \<and> ?h b \<noteq> None)"
    using c by (cases vs) auto
  then have ns: "nx \<noteq> Some s" using d(2) by auto
  have "links_delNode (Some ?a) h = Inr (reprev nx (Some s) ?h)"
    using x Nil.prems(1) d(1) nv by (auto simp: links_delNode_def Let_def reprev_def)
  moreover have "(reprev nx (Some s) ?h) s = Some (n\<lparr>wc_next := nx\<rparr>)" using ns by (simp add: reprev_at)
  moreover have "(reprev nx (Some s) ?h) a = h a" if "a \<notin> set (s # map w_address ([] @ x # vs))" for a
    using that nv by (subst reprev_at) auto
  moreover have "dom (reprev nx (Some s) ?h) = dom h" using Nil.prems(1) by auto
  ultimately show ?case using r by auto
next
  case (Cons u us)
  let ?b = "w_address u"
  from Cons.prems obtain nu where u: "wc_next n = Some ?b" "h ?b = Some nu" "wc_prev nu = Some s" "wc_rotation nu = m_rotation u"
    "wc_timeSlot nu = m_timeSlot u" "wc_client nu = w_client u" "chain h (Some ?b) (wc_next nu) (us @ x # vs)" by auto
  have "distinct (?b # map w_address (us @ x # vs))" using Cons.prems(3) by auto
  from Cons.IH [OF u(2,7) this] obtain h' nx where h': "links_delNode (Some (w_address x)) h = Inr h'"
    "h' ?b = Some (nu\<lparr>wc_next := nx\<rparr>)" "chain h' (Some ?b) nx (us @ vs)"
    "\<forall>a. a \<notin> set (?b # map w_address (us @ x # vs)) \<longrightarrow> h' a = h a" "dom h' = dom h" by blast
  have "h' s = h s" using h'(4) Cons.prems(3) by auto
  then have "h' s = Some (n\<lparr>wc_next := Some ?b\<rparr>)" using Cons.prems(1) u(1) by simp
  moreover have "chain h' (Some s) (Some ?b) ((u # us) @ vs)"
    using h'(2,3) u(3-6) by (cases nu) auto
  ultimately show ?case using h'(1,4,5) by auto
qed

text \<open>Adding a node at the head of a slot.\<close>

lemma links_add_slot_ok:
  assumes "slot_holds h s xs" "distinct (s # map w_address xs)" "h (w_address x) = None"
  defines "h0 \<equiv> h(w_address x \<mapsto> new_cell\<lparr>wc_rotation := m_rotation x, wc_timeSlot := m_timeSlot x, wc_client := w_client x\<rparr>)"
  shows "\<exists>h'. bindR (cell_at h0 (Some s)) (\<lambda>n.
           let headNext = wc_next n in
           bindR (put_cell (Some s) (wc_next_update (\<lambda>_. Some (w_address x))) h0) (\<lambda>h.
           bindR (put_cell (Some (w_address x)) (wc_prev_update (\<lambda>_. Some s)) h) (\<lambda>h.
           bindR (put_cell (Some (w_address x)) (wc_next_update (\<lambda>_. headNext)) h) (\<lambda>h.
           bindR (if headNext \<noteq> None then put_cell headNext (wc_prev_update (\<lambda>_. Some (w_address x))) h else Inr h) (\<lambda>h.
           Inr (Some (w_address x), h)))))) = Inr (Some (w_address x), h')
    \<and> slot_holds h' s (x # xs) \<and> (\<forall>a. a \<notin> set (s # map w_address (x # xs)) \<longrightarrow> h' a = h a)
    \<and> dom h' = insert (w_address x) (dom h)"
proof -
  let ?a = "w_address x"
  from assms(1) obtain n where n: "h s = Some n" "chain h (Some s) (wc_next n) xs" by (auto simp: slot_holds_def)
  have al: "h (w_address y) \<noteq> None" if "y \<in> set xs" for y
  proof -
    have "chain h p q ys \<Longrightarrow> y \<in> set ys \<Longrightarrow> h (w_address y) \<noteq> None" for p q ys
      by (induction ys arbitrary: p q) auto
    with n(2) that show ?thesis by blast
  qed
  have na: "?a \<notin> w_address ` set xs" using al assms(3) by (metis image_iff)
  then have d: "s \<noteq> ?a" "?a \<notin> w_address ` set xs" "s \<notin> w_address ` set xs" "distinct (map w_address xs)"
    using assms(2,3) n(1) by auto
  let ?c = "\<lparr>wc_next = wc_next n, wc_prev = Some s, wc_rotation = m_rotation x, wc_timeSlot = m_timeSlot x, wc_client = w_client x\<rparr>"
  let ?h = "h(s \<mapsto> n\<lparr>wc_next := Some ?a\<rparr>, ?a \<mapsto> ?c)"
  have c: "chain ?h (Some s) (wc_next n) xs" using n(2) by (simp only: chain_update [OF d(2)] chain_update [OF d(3)])
  let ?h' = "reprev (wc_next n) (Some ?a) ?h"
  have r: "chain ?h' (Some ?a) (wc_next n) xs" using c d(4) by (rule chain_reprev)
  have nv: "wc_next n = None \<or> (\<exists>b \<in> w_address ` set xs. wc_next n = Some b \<and> ?h b \<noteq> None)"
    using c by (cases xs) auto
  have at: "?h' b = ?h b" if "b \<notin> w_address ` set xs" for b
    using nv that by (intro reprev_at) auto
  have "slot_holds ?h' s (x # xs)"
    using r at [OF d(2)] at [OF d(3)] d(1) by (simp add: slot_holds_def)
  moreover have "?h' b = h b" if "b \<notin> set (s # map w_address (x # xs))" for b
    using that at [of b] by auto
  moreover have "dom ?h' = insert ?a (dom h)" using n(1) by auto
  moreover have "h0 s = Some n" "h0 ?a = Some (new_cell\<lparr>wc_rotation := m_rotation x, wc_timeSlot := m_timeSlot x, wc_client := w_client x\<rparr>)"
    using n(1) d(1) by (simp_all add: h0_def)
  moreover have "h0(s \<mapsto> n\<lparr>wc_next := Some ?a\<rparr>, ?a \<mapsto> v) = h(s \<mapsto> n\<lparr>wc_next := Some ?a\<rparr>, ?a \<mapsto> v)" for v
    using d(1) by (auto simp: h0_def)
  ultimately show ?thesis
    using d(1) nv by (intro exI [of _ ?h']) (auto simp: Let_def new_cell_def reprev_def)
qed

text \<open>The node of a timer, with its successor.\<close>

definition first_of :: "wheel_node list \<Rightarrow> nat option" where
  "first_of xs = (case xs of [] \<Rightarrow> None | x # _ \<Rightarrow> Some (w_address x))"

lemma chain_first: "chain h p q xs \<Longrightarrow> q = first_of xs"
  by (cases xs) (simp_all add: first_of_def)

lemma chain_cell:
  "chain h p q (us @ x # vs) \<Longrightarrow> \<exists>pr. h (w_address x) = Some \<lparr>wc_next = first_of vs, wc_prev = pr, wc_rotation = m_rotation x,
     wc_timeSlot = m_timeSlot x, wc_client = w_client x\<rparr>"
  by (induction us arbitrary: p q) (auto dest: chain_first)

lemma chain_rotation:
  assumes "chain h p q (us @ x # vs)" "distinct (map w_address (us @ x # vs))" "h (w_address x) = Some n"
  shows "chain (h(w_address x \<mapsto> n\<lparr>wc_rotation := r\<rparr>)) p q (us @ x\<lparr>m_rotation := r\<rparr> # vs)"
  using assms
proof (induction us arbitrary: p q)
  case Nil
  then have "w_address x \<notin> w_address ` set vs" by auto
  with Nil show ?case by (auto simp: chain_update simp del: fun_upd_apply) (auto simp: fun_upd_apply)
next
  case (Cons u us)
  then show ?case by auto
qed

lemma slot_rotation:
  assumes "slot_holds h s (us @ x # vs)" "distinct (s # map w_address (us @ x # vs))" "h (w_address x) = Some n"
  shows "slot_holds (h(w_address x \<mapsto> n\<lparr>wc_rotation := r\<rparr>)) s (us @ x\<lparr>m_rotation := r\<rparr> # vs)"
proof -
  have "s \<noteq> w_address x" using assms(2) by auto
  with assms chain_rotation [of h "Some s" _ us x vs n r] show ?thesis by (auto simp: slot_holds_def)
qed

section \<open>Ticking\<close>

lemma links_tick_loop_ok:
  assumes "slot_holds h s (us @ xs)" "distinct (s # map w_address (us @ xs))"
  shows "\<exists>h'. links_tick_loop h (first_of xs) called = Some (Inr (h', called @ snd (tick_slot xs)))
    \<and> slot_holds h' s (us @ fst (tick_slot xs))
    \<and> (\<forall>a. a \<notin> set (s # map w_address (us @ xs)) \<longrightarrow> h' a = h a) \<and> dom h' = dom h"
  using assms
proof (induction xs arbitrary: h us called)
  case Nil
  then show ?case by (simp add: first_of_def links_tick_loop.simps)
next
  case (Cons x xs)
  let ?a = "w_address x" and ?r = "m_rotation x - 1"
  let ?x = "x\<lparr>m_rotation := ?r\<rparr>"
  from Cons.prems(1) chain_cell [of h _ _ us x xs] obtain n where n: "h ?a = Some n" "wc_next n = first_of xs"
    "wc_rotation n = m_rotation x" "wc_client n = w_client x" unfolding slot_holds_def by force
  define h1 where "h1 = h(?a \<mapsto> n\<lparr>wc_rotation := ?r\<rparr>)"
  have s1: "slot_holds h1 s (us @ ?x # xs)" unfolding h1_def by (rule slot_rotation [OF Cons.prems n(1)])
  have d: "distinct (s # map w_address (us @ xs))" "distinct (s # map w_address ((us @ [?x]) @ xs))"
    "distinct (s # map w_address (us @ ?x # xs))" using Cons.prems(2) by auto
  have f1: "\<forall>a. a \<notin> set (s # map w_address (us @ x # xs)) \<longrightarrow> h1 a = h a" "dom h1 = dom h"
    using n(1) by (auto simp: h1_def)
  have t: "first_of (x # xs) = Some ?a" by (simp add: first_of_def)
  obtain stay c where ts: "tick_slot xs = (stay, c)" by (cases "tick_slot xs")
  show ?case
  proof (cases "?r \<le> 0")
    case True
    from s1 obtain m where m: "h1 s = Some m" "chain h1 (Some s) (wc_next m) (us @ ?x # xs)" by (auto simp: slot_holds_def)
    from links_delNode_ok [OF m d(3)] obtain h2 nx where h2: "links_delNode (Some ?a) h1 = Inr h2"
      "h2 s = Some (m\<lparr>wc_next := nx\<rparr>)" "chain h2 (Some s) nx (us @ xs)"
      "\<forall>a. a \<notin> set (s # map w_address (us @ ?x # xs)) \<longrightarrow> h2 a = h1 a" "dom h2 = dom h1" by auto
    then have "slot_holds h2 s (us @ xs)" by (simp add: slot_holds_def)
    from Cons.IH [OF this d(1), of "if w_client x then called @ [?a] else called"] obtain h' where
      h': "links_tick_loop h2 (first_of xs) (if w_client x then called @ [?a] else called)
        = Some (Inr (h', (if w_client x then called @ [?a] else called) @ c))" "slot_holds h' s (us @ stay)"
      "\<forall>a. a \<notin> set (s # map w_address (us @ xs)) \<longrightarrow> h' a = h2 a" "dom h' = dom h2" using ts by auto
    have "links_tick_loop h (Some ?a) called = Some (Inr (h', (if w_client x then called @ [?a] else called) @ c))"
      using n True h2(1) h'(1) by (subst links_tick_loop.simps, cases "w_client x") (simp_all add: Let_def h1_def)
    then show ?thesis using True ts h'(2-4) h2(4,5) f1 unfolding t by auto
  next
    case False
    have "slot_holds h1 s ((us @ [?x]) @ xs)" using s1 by simp
    from Cons.IH [OF this d(2), of called] obtain h' where
      h': "links_tick_loop h1 (first_of xs) called = Some (Inr (h', called @ c))" "slot_holds h' s (us @ ?x # stay)"
      "\<forall>a. a \<notin> set (s # map w_address (us @ ?x # xs)) \<longrightarrow> h' a = h1 a" "dom h' = dom h1" using ts by auto
    have "links_tick_loop h (Some ?a) called = Some (Inr (h', called @ c))"
      using n False h'(1) by (subst links_tick_loop.simps) (simp add: Let_def h1_def)
    then show ?thesis using False ts h'(2-4) f1 unfolding t by auto
  qed
qed

section \<open>Freeing\<close>

lemma links_delete_slot_ok:
  assumes "chain h p q xs" "distinct (map w_address xs)"
  shows "\<exists>h'. links_delete_slot h q = Some (Inr h') \<and> (\<forall>a. h' a = (if a \<in> w_address ` set xs then None else h a))"
  using assms
proof (induction xs arbitrary: h p q)
  case Nil
  then show ?case by (simp add: links_delete_slot.simps)
next
  case (Cons x xs)
  let ?a = "w_address x"
  from Cons.prems obtain n where n: "q = Some ?a" "h ?a = Some n" "chain h q (wc_next n) xs" by auto
  have na: "?a \<notin> w_address ` set xs" using Cons.prems(2) by auto
  from n(3) chain_update [OF na] have "chain (h(?a := None)) q (wc_next n) xs" by simp
  moreover have "distinct (map w_address xs)" using Cons.prems(2) by simp
  ultimately obtain h' where h': "links_delete_slot (h(?a := None)) (wc_next n) = Some (Inr h')"
    "\<forall>a. h' a = (if a \<in> w_address ` set xs then None else (h(?a := None)) a)"
    using Cons.IH by blast
  have "links_delete_slot h q = Some (Inr h')" using n h'(1) by (subst links_delete_slot.simps) simp
  with h'(2) show ?case by auto
qed

lemma map2_sub:
  "i < length ss \<Longrightarrow> i < length yss \<Longrightarrow> set (f (ss ! i) (yss ! i)) \<subseteq> set (concat (map2 f ss yss))"
proof -
  assume i: "i < length ss" "i < length yss"
  then have "map2 f ss yss ! i \<in> set (map2 f ss yss)" by (intro nth_mem) simp
  then have "set (map2 f ss yss ! i) \<subseteq> \<Union> (set ` set (map2 f ss yss))" by (intro UN_upper)
  then show ?thesis using i by (simp only: set_concat nth_map nth_zip length_zip min_less_iff_conj split)
qed

lemma links_delete_ok:
  assumes "list_all2 (slot_holds h) ss yss" "distinct (concat (map2 (\<lambda>s xs. s # map w_address xs) ss yss))"
  shows "\<exists>h'. links_delete ss h = Some (Inr h')
    \<and> (\<forall>a. h' a = (if a \<in> set (concat (map2 (\<lambda>s xs. s # map w_address xs) ss yss)) then None else h a))"
  using assms
proof (induction ss arbitrary: yss h)
  case (Cons s ss)
  then obtain xs zss where y: "yss = xs # zss" "slot_holds h s xs" "list_all2 (slot_holds h) ss zss" by (cases yss) auto
  let ?rest = "concat (map2 (\<lambda>s xs. s # map w_address xs) ss zss)"
  have d: "distinct (s # map w_address xs)" "distinct ?rest" "set (s # map w_address xs) \<inter> set ?rest = {}"
    using Cons.prems(2) unfolding y(1) by auto
  from y(2) obtain n where n: "h s = Some n" "chain h (Some s) (wc_next n) xs" by (auto simp: slot_holds_def)
  have "s \<notin> w_address ` set xs" using d(1) by auto
  with n(2) chain_update [of s xs] have "chain (h(s := None)) (Some s) (wc_next n) xs" by simp
  from links_delete_slot_ok [OF this] d(1) obtain h1 where h1: "links_delete_slot (h(s := None)) (wc_next n) = Some (Inr h1)"
    "\<forall>a. h1 a = (if a \<in> w_address ` set xs then None else (h(s := None)) a)" by auto
  have f: "links_delete_slot h (Some s) = Some (Inr h1)" using n(1) h1(1) by (subst links_delete_slot.simps) simp
  have e: "h1 a = (if a \<in> set (s # map w_address xs) then None else h a)" for a using h1(2) by auto
  have "list_all2 (slot_holds h1) ss zss"
    unfolding list_all2_conv_all_nth
  proof (intro conjI allI impI)
    show "length ss = length zss" using y(3) by (rule list_all2_lengthD)
    fix i assume i: "i < length ss"
    then have il: "i < length zss" using y(3) by (simp add: list_all2_lengthD)
    have sub: "set (ss ! i # map w_address (zss ! i)) \<subseteq> set ?rest" using map2_sub [OF i il] .
    have "slot_holds h1 (ss ! i) (zss ! i) = slot_holds h (ss ! i) (zss ! i)"
    proof (rule slot_frame, rule ballI)
      fix a assume "a \<in> set (ss ! i # map w_address (zss ! i))"
      with sub d(3) have "a \<notin> set (s # map w_address xs)" by blast
      then show "h1 a = h a" unfolding e by simp
    qed
    with y(3) i show "slot_holds h1 (ss ! i) (zss ! i)" by (simp add: list_all2_nthD)
  qed
  from Cons.IH [OF this d(2)] obtain h' where h': "links_delete ss h1 = Some (Inr h')"
    "\<forall>a. h' a = (if a \<in> set ?rest then None else h1 a)" by blast
  have "links_delete (s # ss) h = Some (Inr h')" using f h'(1) by simp
  moreover have "\<forall>a. h' a = (if a \<in> set (s # map w_address xs) \<union> set ?rest then None else h a)"
    unfolding h'(2) [rule_format] e by auto
  ultimately show ?case unfolding y(1) by auto
qed simp

section \<open>The wheel\<close>

lemma length_nodes: "length (nodes w W) = min (length (wl_timeSlots w)) (length (m_timeSlots W))"
  by (simp add: nodes_def)

lemma nodes_nth:
  "i < length (wl_timeSlots w) \<Longrightarrow> i < length (m_timeSlots W)
    \<Longrightarrow> nodes w W ! i = wl_timeSlots w ! i # map w_address (m_timeSlots W ! i)"
  by (simp add: nodes_def)

lemma concat_nth_disjoint:
  "distinct (concat xs) \<Longrightarrow> i < length xs \<Longrightarrow> j < length xs \<Longrightarrow> i \<noteq> j \<Longrightarrow> set (xs ! i) \<inter> set (xs ! j) = {}"
proof (induction xs arbitrary: i j)
  case (Cons x xs)
  have "set x \<inter> set (xs ! k) = {}" if "k < length xs" for k using Cons.prems(1) nth_mem [OF that] by auto
  with Cons show ?case by (cases i; cases j) auto
qed simp

lemma stands_forD:
  assumes "stands_for w h W"
  shows "length (wl_timeSlots w) = TIME_SLOTS" "length (m_timeSlots W) = TIME_SLOTS" "length (nodes w W) = TIME_SLOTS"
    "i < TIME_SLOTS \<Longrightarrow> slot_holds h (wl_timeSlots w ! i) (m_timeSlots W ! i)"
    "i < TIME_SLOTS \<Longrightarrow> nodes w W ! i = wl_timeSlots w ! i # map w_address (m_timeSlots W ! i)"
    "i < TIME_SLOTS \<Longrightarrow> distinct (wl_timeSlots w ! i # map w_address (m_timeSlots W ! i))"
proof -
  have l: "length (m_timeSlots W) = TIME_SLOTS" "length (wl_timeSlots w) = TIME_SLOTS"
    using assms list_all2_lengthD [of "slot_holds h" "wl_timeSlots w" "m_timeSlots W"] by (simp_all add: stands_for_def)
  then show "length (wl_timeSlots w) = TIME_SLOTS" "length (m_timeSlots W) = TIME_SLOTS" "length (nodes w W) = TIME_SLOTS"
    by (simp_all add: length_nodes)
  show "i < TIME_SLOTS \<Longrightarrow> slot_holds h (wl_timeSlots w ! i) (m_timeSlots W ! i)"
    using assms l by (simp add: stands_for_def list_all2_nthD)
  show n: "i < TIME_SLOTS \<Longrightarrow> nodes w W ! i = wl_timeSlots w ! i # map w_address (m_timeSlots W ! i)"
    using l by (simp add: nodes_nth)
  assume i: "i < TIME_SLOTS"
  then have "nodes w W ! i \<in> set (nodes w W)" using l by (intro nth_mem) (simp add: length_nodes)
  then have "distinct (nodes w W ! i)" using assms by (auto simp: stands_for_def distinct_concat_iff)
  with n [OF i] show "distinct (wl_timeSlots w ! i # map w_address (m_timeSlots W ! i))" by simp
qed

lemma chain_alloc: "chain h p q xs \<Longrightarrow> w_address ` set xs \<subseteq> dom h"
  by (induction h p q xs rule: chain.induct) auto

lemma slot_alloc: "slot_holds h s xs \<Longrightarrow> set (s # map w_address xs) \<subseteq> dom h"
  by (auto simp: slot_holds_def dest!: chain_alloc)

lemma nodes_alloc:
  assumes "stands_for w h W"
  shows "set (concat (nodes w W)) \<subseteq> dom h"
proof -
  have "set (nodes w W ! i) \<subseteq> dom h" if "i < TIME_SLOTS" for i
    unfolding stands_forD(5) [OF assms that] by (rule slot_alloc [OF stands_forD(4) [OF assms that]])
  then have "\<forall>ns \<in> set (nodes w W). set ns \<subseteq> dom h"
    using stands_forD(3) [OF assms] by (metis in_set_conv_nth)
  then show ?thesis by (simp add: UN_subset_iff)
qed

lemma update_eq: "x = f (xs ! t) v \<Longrightarrow> length xs = length ys \<Longrightarrow> map2 f xs (ys[t := v]) = (map2 f xs ys)[t := x]"
proof (rule nth_equalityI)
  assume x: "x = f (xs ! t) v" and l: "length xs = length ys"
  show "length (map2 f xs (ys[t := v])) = length ((map2 f xs ys)[t := x])" by simp
  fix i assume "i < length (map2 f xs (ys[t := v]))"
  then show "map2 f xs (ys[t := v]) ! i = (map2 f xs ys)[t := x] ! i"
    using x l by (cases "i = t") simp_all
qed

text \<open>A slot is changed, and nothing else.\<close>

lemma stands_update:
  assumes w: "stands_for w h W" and t: "t < TIME_SLOTS"
    and ys: "slot_holds h' (wl_timeSlots w ! t) ys" "distinct (wl_timeSlots w ! t # map w_address ys)"
      "set (map w_address ys) \<subseteq> set (map w_address (m_timeSlots W ! t)) \<union> S" "S \<inter> dom h = {}"
    and f: "\<forall>a. a \<notin> set (wl_timeSlots w ! t # map w_address (m_timeSlots W ! t)) \<union> S \<longrightarrow> h' a = h a"
  shows "stands_for w h' (W\<lparr>m_timeSlots := (m_timeSlots W)[t := ys]\<rparr>)"
proof -
  note d = stands_forD [OF w]
  let ?W = "W\<lparr>m_timeSlots := (m_timeSlots W)[t := ys]\<rparr>"
  have dc: "distinct (concat (nodes w W))" using w by (simp add: stands_for_def)
  have n: "nodes w ?W = (nodes w W)[t := wl_timeSlots w ! t # map w_address ys]"
    unfolding nodes_def using d(1,2) by (simp add: update_eq)
  have "S \<inter> set (concat (nodes w W)) = {}" using ys(4) nodes_alloc [OF w] by blast
  moreover have "t < length (nodes w W)" "set (wl_timeSlots w ! t # map w_address ys) \<subseteq> set (nodes w W ! t) \<union> S"
    using ys(3) d(3,5) t by auto
  ultimately have "distinct (concat (nodes w ?W))" unfolding n using dc ys(2) by (intro distinct_concat_update)
  moreover have "list_all2 (slot_holds h') (wl_timeSlots w) ((m_timeSlots W)[t := ys])"
    unfolding list_all2_conv_all_nth
  proof (intro conjI allI impI)
    show "length (wl_timeSlots w) = length ((m_timeSlots W)[t := ys])" using d(1,2) by simp
    fix i assume "i < length (wl_timeSlots w)"
    then have i: "i < TIME_SLOTS" using d(1) by simp
    show "slot_holds h' (wl_timeSlots w ! i) ((m_timeSlots W)[t := ys] ! i)"
    proof (cases "i = t")
      case False
      have "set (nodes w W ! i) \<inter> set (nodes w W ! t) = {}" by (rule concat_nth_disjoint [OF dc]) (use False i t d(3) in simp_all)
      moreover have "set (nodes w W ! i) \<inter> S = {}"
        unfolding d(5) [OF i] using slot_alloc [OF d(4) [OF i]] ys(4) by blast
      ultimately have "\<forall>a \<in> set (nodes w W ! i). h' a = h a" using f unfolding d(5) [OF t] by blast
      then have "\<forall>a \<in> set (wl_timeSlots w ! i # map w_address (m_timeSlots W ! i)). h' a = h a"
        by (simp only: d(5) [OF i])
      then have "slot_holds h' (wl_timeSlots w ! i) (m_timeSlots W ! i) = slot_holds h (wl_timeSlots w ! i) (m_timeSlots W ! i)"
        by (rule slot_frame)
      with d(4) [OF i] False show ?thesis by simp
    qed (use ys(1) t d(2) in simp)
  qed
  ultimately show ?thesis using w d(2) by (simp add: stands_for_def)
qed

section \<open>The operations\<close>

text \<open>The operations on the store, with the addresses of the timers called, and on the lists.\<close>

fun run_links :: "wheel_op \<Rightarrow> wheel_links \<times> wheel_store \<Rightarrow> (wheel_links \<times> wheel_store \<times> nat list) res option" where
  "run_links (Wheel_add a alive timeout) (w, h) =
     Some (bindR (links_addNode a alive timeout w h) (\<lambda>(_, h). Inr (w, h, [])))"
| "run_links (Wheel_del x) (w, h) = Some (bindR (links_delNode (Some (w_address x)) h) (\<lambda>h. Inr (w, h, [])))"
| "run_links Wheel_tick (w, h) = links_tick w h"

fun run_all :: "wheel_op list \<Rightarrow> wheel_links \<times> wheel_store \<Rightarrow> (wheel_links \<times> wheel_store \<times> nat list) res option" where
  "run_all [] (w, h) = Some (Inr (w, h, []))"
| "run_all (op # ops) (w, h) =
     (case run_links op (w, h) of
        None \<Rightarrow> None
      | Some (Inl e) \<Rightarrow> Some (Inl e)
      | Some (Inr (w, h, called)) \<Rightarrow>
          map_option (\<lambda>r. bindR r (\<lambda>(w, h, rest). Inr (w, h, called @ rest))) (run_all ops (w, h)))"

fun calls_of :: "wheel_op \<Rightarrow> wheel \<Rightarrow> nat list" where
  "calls_of Wheel_tick W = snd (wheel_tick W)"
| "calls_of _ W = []"

fun calls_all :: "wheel_op list \<Rightarrow> wheel \<Rightarrow> nat list" where
  "calls_all [] W = []"
| "calls_all (op # ops) W = calls_of op W @ calls_all ops (run_wheel op W)"

text \<open>
  What the program may do: \<open>new\<close> gives a node of an address that is not in use (\<open>used\<close> are the ones in
  use, and no operation frees one), and the timer it deletes is in the wheel.
\<close>

fun allocates :: "wheel_op \<Rightarrow> nat set" where
  "allocates (Wheel_add a alive timeout) = (if timeout < 0 then {} else {a})"
| "allocates _ = {}"

fun op_fine :: "wheel_op \<Rightarrow> nat set \<Rightarrow> wheel \<Rightarrow> bool" where
  "op_fine (Wheel_add a alive timeout) used W = (a \<notin> used)"
| "op_fine (Wheel_del x) used W = (m_timeSlot x < TIME_SLOTS \<and> x \<in> set (m_timeSlots W ! m_timeSlot x))"
| "op_fine Wheel_tick used W = True"

fun ops_fine :: "wheel_op list \<Rightarrow> nat set \<Rightarrow> wheel \<Rightarrow> bool" where
  "ops_fine [] used W = True"
| "ops_fine (op # ops) used W = (op_fine op used W \<and> ops_fine ops (used \<union> allocates op) (run_wheel op W))"

lemma add_refines:
  assumes w: "stands_for w h W" and a: "h a = None"
  shows "\<exists>h'. run_links (Wheel_add a alive timeout) (w, h) = Some (Inr (w, h', []))
    \<and> stands_for w h' (run_wheel (Wheel_add a alive timeout) W) \<and> dom h' = dom h \<union> allocates (Wheel_add a alive timeout)"
proof (cases "timeout < 0")
  case True
  with w show ?thesis by (simp add: links_addNode_def wheel_addNode_def)
next
  case False
  let ?ticks = "if timeout < TIME_GAP then 1 else timeout sdiv TIME_GAP"
  define ts where "ts = (m_curSlot W + nat (?ticks smod int TIME_SLOTS)) mod TIME_SLOTS"
  define x where "x = \<lparr>w_address = a, m_rotation = ?ticks sdiv int TIME_SLOTS, m_timeSlot = ts, w_client = alive\<rparr>"
  have cur: "wl_curSlot w = m_curSlot W" using w by (simp add: stands_for_def)
  have t: "ts < TIME_SLOTS" by (simp add: ts_def TIME_SLOTS_def)
  have fx: "w_address x = a" "m_rotation x = ?ticks sdiv int TIME_SLOTS" "m_timeSlot x = ts" "w_client x = alive"
    by (simp_all add: x_def)
  note d = stands_forD [OF w]
  have "h (w_address x) = None" using a fx by simp
  from links_add_slot_ok [OF d(4) [OF t] d(6) [OF t] this] obtain h' where h':
    "links_addNode a alive timeout w h = Inr (Some a, h')" "slot_holds h' (wl_timeSlots w ! ts) (x # m_timeSlots W ! ts)"
    "\<forall>b. b \<notin> set (wl_timeSlots w ! ts # map w_address (x # m_timeSlots W ! ts)) \<longrightarrow> h' b = h b" "dom h' = insert a (dom h)"
    using False unfolding links_addNode_def cur ts_def [symmetric] Let_def fx by auto
  have "a \<notin> set (wl_timeSlots w ! ts # map w_address (m_timeSlots W ! ts))" using slot_alloc [OF d(4) [OF t]] a by auto
  then have "stands_for w h' (W\<lparr>m_timeSlots := (m_timeSlots W)[ts := x # m_timeSlots W ! ts]\<rparr>)"
    by (intro stands_update [OF w t h'(2), where S = "{a}"]) (use d(6) [OF t] a h'(3) fx(1) in auto)
  moreover have "run_wheel (Wheel_add a alive timeout) W = W\<lparr>m_timeSlots := (m_timeSlots W)[ts := x # m_timeSlots W ! ts]\<rparr>"
    using False by (simp add: wheel_addNode_def Let_def ts_def x_def)
  ultimately show ?thesis using h'(1,4) False by simp
qed

lemma del_refines:
  assumes w: "stands_for w h W" and x: "m_timeSlot x < TIME_SLOTS" "x \<in> set (m_timeSlots W ! m_timeSlot x)"
  shows "\<exists>h'. run_links (Wheel_del x) (w, h) = Some (Inr (w, h', [])) \<and> stands_for w h' (run_wheel (Wheel_del x) W) \<and> dom h' = dom h"
proof -
  note d = stands_forD [OF w]
  let ?t = "m_timeSlot x"
  from x(2) obtain us vs where u: "m_timeSlots W ! ?t = us @ x # vs" by (auto simp: in_set_conv_decomp)
  have dx: "distinct (wl_timeSlots w ! ?t # map w_address (us @ x # vs))" using d(6) [OF x(1)] u by simp
  from d(4) [OF x(1)] u obtain n where "h (wl_timeSlots w ! ?t) = Some n" "chain h (Some (wl_timeSlots w ! ?t)) (wc_next n) (us @ x # vs)"
    by (auto simp: slot_holds_def)
  from links_delNode_ok [OF this dx] obtain h' where h': "links_delNode (Some (w_address x)) h = Inr h'"
    "slot_holds h' (wl_timeSlots w ! ?t) (us @ vs)"
    "\<forall>a. a \<notin> set (wl_timeSlots w ! ?t # map w_address (us @ x # vs)) \<longrightarrow> h' a = h a" "dom h' = dom h"
    unfolding slot_holds_def by auto
  have "List.filter (\<lambda>y. w_address y \<noteq> w_address x) us = us" "List.filter (\<lambda>y. w_address y \<noteq> w_address x) vs = vs"
    using dx by (auto simp: filter_id_conv image_iff)
  then have "run_wheel (Wheel_del x) W = W\<lparr>m_timeSlots := (m_timeSlots W)[?t := us @ vs]\<rparr>"
    by (simp add: wheel_delNode_def u)
  moreover have "stands_for w h' (W\<lparr>m_timeSlots := (m_timeSlots W)[?t := us @ vs]\<rparr>)"
    by (rule stands_update [OF w x(1) h'(2), where S = "{}"]) (use dx h'(3) in \<open>auto simp: u\<close>)
  ultimately show ?thesis using h'(1,4) by simp
qed

lemma tick_refines:
  assumes w: "stands_for w h W" and c: "m_curSlot W < TIME_SLOTS"
  shows "\<exists>w' h'. run_links Wheel_tick (w, h) = Some (Inr (w', h', snd (wheel_tick W)))
    \<and> stands_for w' h' (run_wheel Wheel_tick W) \<and> dom h' = dom h \<and> wl_timeSlots w' = wl_timeSlots w"
proof -
  note d = stands_forD [OF w]
  let ?t = "m_curSlot W"
  have cur: "wl_curSlot w = ?t" using w by (simp add: stands_for_def)
  let ?s = "wl_timeSlots w ! ?t" and ?xs = "m_timeSlots W ! ?t"
  from d(4) [OF c] obtain n where n: "h ?s = Some n" "chain h (Some ?s) (wc_next n) ?xs" by (auto simp: slot_holds_def)
  have "slot_holds h ?s ([] @ ?xs)" "distinct (?s # map w_address ([] @ ?xs))" using d(4,6) c by simp_all
  from links_tick_loop_ok [OF this, of "[]"] obtain h' where h':
    "links_tick_loop h (first_of ?xs) [] = Some (Inr (h', snd (tick_slot ?xs)))" "slot_holds h' ?s (fst (tick_slot ?xs))"
    "\<forall>a. a \<notin> set (?s # map w_address ?xs) \<longrightarrow> h' a = h a" "dom h' = dom h" by auto
  let ?W = "W\<lparr>m_timeSlots := (m_timeSlots W)[?t := fst (tick_slot ?xs)]\<rparr>"
  have "distinct (?s # map w_address (fst (tick_slot ?xs)))"
    using d(6) [OF c] tick_slot_sub [of ?xs] by auto
  then have sf: "stands_for w h' ?W"
    by (intro stands_update [OF w c h'(2), where S = "{}"]) (use h'(3) tick_slot_sub(1) [of ?xs] in auto)
  have tk: "wheel_tick W = (?W\<lparr>m_curSlot := (?t + 1) mod TIME_SLOTS\<rparr>, snd (tick_slot ?xs))"
    by (simp add: wheel_tick_def split: prod.splits)
  let ?w = "w\<lparr>wl_curSlot := (?t + 1) mod TIME_SLOTS\<rparr>"
  have "run_links Wheel_tick (w, h) = Some (Inr (?w, h', snd (wheel_tick W)))"
    using n(1) h'(1) chain_first [OF n(2)] by (simp add: links_tick_def cur tk)
  moreover have "stands_for ?w h' (run_wheel Wheel_tick W)"
    using sf by (simp add: tk stands_for_def nodes_def)
  ultimately show ?thesis using h'(4) by auto
qed

text \<open>One operation of each kind, and any sequence of them.\<close>

lemma op_refines:
  assumes s: "stands_for w h W" and v: "wf_wheel W" "distinct (delete_wheel W)" and op: "op_fine op (dom h) W"
  shows "\<exists>w' h'. run_links op (w, h) = Some (Inr (w', h', calls_of op W)) \<and> stands_for w' h' (run_wheel op W)
    \<and> wf_wheel (run_wheel op W) \<and> distinct (delete_wheel (run_wheel op W))
    \<and> dom h' = dom h \<union> allocates op \<and> wl_timeSlots w' = wl_timeSlots w"
proof -
  have sub: "set (delete_wheel W) \<subseteq> dom h"
  proof
    fix a assume "a \<in> set (delete_wheel W)"
    then obtain xs where "xs \<in> set (m_timeSlots W)" "a \<in> set (map w_address xs)" by (auto simp: delete_wheel_def)
    then obtain i where "i < length (m_timeSlots W)" "a \<in> set (map w_address (m_timeSlots W ! i))"
      by (metis in_set_conv_nth)
    then show "a \<in> dom h" using slot_alloc [OF stands_forD(4) [OF s]] stands_forD(2) [OF s] by auto
  qed
  have "wheel_op_ok op W" using op sub by (cases op) auto
  from run_wheel_ok [OF v this] have k: "wf_wheel (run_wheel op W)" "distinct (delete_wheel (run_wheel op W))" by simp_all
  show ?thesis
  proof (cases op)
    case (Wheel_add a alive timeout)
    with op have "h a = None" by auto
    from add_refines [OF s this, of alive timeout] k Wheel_add show ?thesis by auto
  next
    case (Wheel_del x)
    with op del_refines [OF s, of x] k show ?thesis by auto
  next
    case Wheel_tick
    have "m_curSlot W < TIME_SLOTS" using v(1) by (simp add: wf_wheel_def)
    from tick_refines [OF s this] k Wheel_tick show ?thesis by auto
  qed
qed

lemma run_all_refines:
  assumes "stands_for w h W" "wf_wheel W" "distinct (delete_wheel W)" "ops_fine ops (dom h) W"
  shows "\<exists>w' h'. run_all ops (w, h) = Some (Inr (w', h', calls_all ops W)) \<and> stands_for w' h' (fold run_wheel ops W)
    \<and> wf_wheel (fold run_wheel ops W) \<and> distinct (delete_wheel (fold run_wheel ops W))
    \<and> dom h' = dom h \<union> \<Union> (allocates ` set ops) \<and> wl_timeSlots w' = wl_timeSlots w"
  using assms
proof (induction ops arbitrary: w h W)
  case (Cons op ops)
  from Cons.prems(4) have f: "op_fine op (dom h) W" "ops_fine ops (dom h \<union> allocates op) (run_wheel op W)" by simp_all
  from op_refines [OF Cons.prems(1-3) f(1)] obtain w1 h1 where 1: "run_links op (w, h) = Some (Inr (w1, h1, calls_of op W))"
    "stands_for w1 h1 (run_wheel op W)" "wf_wheel (run_wheel op W)" "distinct (delete_wheel (run_wheel op W))"
    "dom h1 = dom h \<union> allocates op" "wl_timeSlots w1 = wl_timeSlots w" by blast
  from Cons.IH [OF 1(2-4)] f(2) 1(5) obtain w2 h2 where 2: "run_all ops (w1, h1) = Some (Inr (w2, h2, calls_all ops (run_wheel op W)))"
    "stands_for w2 h2 (fold run_wheel ops (run_wheel op W))" "wf_wheel (fold run_wheel ops (run_wheel op W))"
    "distinct (delete_wheel (fold run_wheel ops (run_wheel op W)))" "dom h2 = dom h1 \<union> \<Union> (allocates ` set ops)"
    "wl_timeSlots w2 = wl_timeSlots w1" by auto
  have "run_all (op # ops) (w, h) = Some (Inr (w2, h2, calls_all (op # ops) W))" using 1(1) 2(1) by simp
  with 1(5,6) 2 show ?case by auto
qed simp

text \<open>The wheel that was just made.\<close>

lemma links_new_ok:
  assumes "length heads = TIME_SLOTS" "distinct heads" "links_new heads = (w, h)"
  shows "stands_for w h new_wheel" "dom h = set heads" "wl_timeSlots w = heads"
proof -
  have f: "fold (\<lambda>a h. h(a \<mapsto> new_cell)) as h0 a = (if a \<in> set as then Some new_cell else h0 a)" for as a and h0 :: wheel_store
    by (induction as arbitrary: h0) auto
  have h: "h a = (if a \<in> set heads then Some new_cell else None)" for a using assms(3) by (auto simp: links_new_def f)
  then show "dom h = set heads" by (auto split: if_splits)
  show w: "wl_timeSlots w = heads" using assms(3) by (auto simp: links_new_def)
  have l: "list_all2 (slot_holds h) heads (replicate TIME_SLOTS [])"
    using assms(1) by (auto simp: list_all2_conv_all_nth slot_holds_def h new_cell_def)
  have c: "concat (nodes w new_wheel) = heads"
  proof -
    have "map2 (\<lambda>s xs. s # map w_address xs) ss (replicate (length ss) []) = map (\<lambda>s. [s]) ss" for ss
      by (induction ss) auto
    from this [of heads] have "nodes w new_wheel = map (\<lambda>s. [s]) heads"
      unfolding assms(1) nodes_def w new_wheel_def wheel.select_convs .
    then show ?thesis by simp
  qed
  have "wl_curSlot w = 0" using assms(3) by (auto simp: links_new_def)
  with l assms(2) show "stands_for w h new_wheel"
    unfolding stands_for_def c w by (simp add: new_wheel_def)
qed

section \<open>Deleting a timer a second time\<close>

text \<open>
  The links of a timer that was taken out stay as they were, and nothing tells it from one that is in the
  wheel. Timers 102, 101 and 100 are in one slot; a tick calls 101 and 100 and takes them out; then 101 is
  deleted, as a client does whose connection ends. Its old links bring 100 back behind 102, and the
  slot's next tick calls 100 a second time.
\<close>

definition stale_ops :: "wheel_op list" where
  "stale_ops = [Wheel_add 100 True 1, Wheel_add 101 True 1, Wheel_add 102 True 121, Wheel_tick, Wheel_tick]"

lemma fold_cells: "fold (\<lambda>a h. h(a \<mapsto> c)) as h0 a = (if a \<in> set as then Some c else h0 a)"
  by (induction as arbitrary: h0) auto

lemma deleted_twice:
  "\<exists>w h h' h''. run_all stale_ops (links_new [0..<60]) = Some (Inr (w, h, [101, 100]))
    \<and> links_delNode (Some 101) h = Inr h'
    \<and> chain h' (Some 1) (Some 102) [\<lparr>w_address = 102, m_rotation = 1, m_timeSlot = 1, w_client = True\<rparr>,
        \<lparr>w_address = 100, m_rotation = -1, m_timeSlot = 1, w_client = True\<rparr>]
    \<and> links_tick_loop h' (Some 102) [] = Some (Inr (h'', [102, 100]))"
proof -
  define w h0 where "w = \<lparr>wl_timeSlots = [0..<60], wl_curSlot = 0\<rparr>" and "h0 = fold (\<lambda>a h. h(a \<mapsto> new_cell)) [0..<60] Map.empty"
  have 0: "links_new [0..<60] = (w, h0)" by (simp add: links_new_def w_def h0_def)
  have h0: "h0 0 = Some new_cell" "h0 1 = Some new_cell" "h0 (Suc 0) = Some new_cell" by (simp_all add: h0_def fold_cells)
  show ?thesis
    unfolding stale_ops_def 0
    by (simp add: w_def h0 links_addNode_def links_delNode_def links_tick_def links_tick_loop.simps new_cell_def TIME_GAP_def
      TIME_SLOTS_def cell_at_def put_cell_def Let_def signed_divide_int_def signed_modulo_int_def)
qed

lemma set_nodes:
  "length ss = length yss \<Longrightarrow>
    set (concat (map2 (\<lambda>s xs. s # map w_address xs) ss yss)) = set ss \<union> set (concat (map (map w_address) yss))"
  by (induction ss yss rule: list_induct2) auto

section \<open>The property\<close>

text \<open>
  C40. The linked wheel implements the lists of timers. After any adding of new timers, deleting of timers
  that are in the wheel, and ticking, no null or freed node is used and every loop ends; the links of
  each slot run, forwards and backwards, through exactly the timers of its list, newest first, each
  with the turns, the slot number and the client of the list; the timers called are those of the
  lists, in order. Every timer lies in the slot its number says, with turns that are not
  negative, and none is there twice. The destructor then frees the heads and each timer that is
  left exactly once; a timer that was called or deleted has left the wheel and is freed by nobody.
\<close>

theorem wheel_links_refine:
  assumes "length heads = TIME_SLOTS" and "distinct heads" and "ops_fine ops (set heads) new_wheel"
  shows "\<exists>w h h'. run_all ops (links_new heads) = Some (Inr (w, h, calls_all ops new_wheel))
    \<and> stands_for w h (fold run_wheel ops new_wheel)
    \<and> wf_wheel (fold run_wheel ops new_wheel) \<and> distinct (delete_wheel (fold run_wheel ops new_wheel))
    \<and> links_delete (wl_timeSlots w) h = Some (Inr h')
    \<and> dom h' = \<Union> (allocates ` set ops) - set heads - set (delete_wheel (fold run_wheel ops new_wheel))"
proof -
  let ?W = "fold run_wheel ops new_wheel"
  obtain w0 h0 where 0: "links_new heads = (w0, h0)" by (cases "links_new heads")
  note n = links_new_ok [OF assms(1,2) 0]
  have "wf_wheel new_wheel" "distinct (delete_wheel new_wheel)"
    by (auto simp: wf_wheel_def new_wheel_def delete_wheel_def TIME_SLOTS_def)
  from run_all_refines [OF n(1) this, of ops] obtain w h where r:
    "run_all ops (w0, h0) = Some (Inr (w, h, calls_all ops new_wheel))" "stands_for w h ?W" "wf_wheel ?W"
    "distinct (delete_wheel ?W)" "dom h = set heads \<union> \<Union> (allocates ` set ops)" "wl_timeSlots w = heads"
    unfolding n(2,3) using assms(3) by blast
  from r(2) have "list_all2 (slot_holds h) (wl_timeSlots w) (m_timeSlots ?W)"
    "distinct (concat (map2 (\<lambda>s xs. s # map w_address xs) (wl_timeSlots w) (m_timeSlots ?W)))"
    by (simp_all add: stands_for_def nodes_def)
  from links_delete_ok [OF this] obtain h' where h': "links_delete (wl_timeSlots w) h = Some (Inr h')"
    "\<forall>a. h' a = (if a \<in> set (concat (nodes w ?W)) then None else h a)" unfolding nodes_def by blast
  have "length heads = length (m_timeSlots ?W)" using stands_forD(2) [OF r(2)] assms(1) by simp
  then have "set (concat (nodes w ?W)) = set heads \<union> set (delete_wheel ?W)"
    unfolding nodes_def delete_wheel_def r(6) by (rule set_nodes)
  moreover have "dom h' = dom h - set (concat (nodes w ?W))" using h'(2) by (auto simp: dom_def simp del: set_concat split: if_splits)
  ultimately have "dom h' = \<Union> (allocates ` set ops) - set heads - set (delete_wheel ?W)" using r(5) by blast
  with r(1-4) h'(1) 0 show ?thesis by auto
qed

text \<open>A timer is added and deleted, another one added and called, a third one stays.\<close>

lemma wheel_links_refine_witness:
  "\<exists>w h h'. run_all [Wheel_add 100 True 3, Wheel_add 101 True 1, Wheel_del \<lparr>w_address = 100, m_rotation = 0, m_timeSlot = 3, w_client = True\<rparr>,
        Wheel_tick, Wheel_tick, Wheel_add 102 False 200] (links_new [0..<60]) = Some (Inr (w, h, [101]))
    \<and> links_delete (wl_timeSlots w) h = Some (Inr h') \<and> dom h' = {100, 101}"
proof -
  let ?ops = "[Wheel_add 100 True 3, Wheel_add 101 True 1, Wheel_del \<lparr>w_address = 100, m_rotation = 0, m_timeSlot = 3, w_client = True\<rparr>,
        Wheel_tick, Wheel_tick, Wheel_add 102 False 200]"
  have "ops_fine ?ops (set [0..<60]) new_wheel" by code_simp
  moreover have "length [0..<60] = TIME_SLOTS" by (simp add: TIME_SLOTS_def)
  moreover have "calls_all ?ops new_wheel = [101]" by code_simp
  moreover have "delete_wheel (fold run_wheel ?ops new_wheel) = [102]" by code_simp
  moreover have "\<Union> (allocates ` set ?ops) - set [0..<60] - set [102] = {100, 101}" by auto
  ultimately show ?thesis using wheel_links_refine [of "[0..<60]" ?ops] by (simp only: distinct_upt simp_thms) blast
qed

end
