(* ===== verification/Logs.thy ===== *)
theory Logs
  imports LogStreams TimeStamps TimeZones
begin

text \<open>
  \<open>src/src/base/Log.h\<close> and \<open>Log.cc\<close>, with the cached thread id of \<open>CurrentThread.h\<close> and
  \<open>CurrentThread.cc\<close>: a log line from the macro to the output function. The thread-local
  variables are the record \<open>log_thread\<close>, the globals the record \<open>log_globals\<close>; the clock, \<open>gettid\<close>
  and \<open>strerror_r\<close> are arguments.
\<close>

section \<open>The cached thread id\<close>

record log_thread =
  t_cachedTid :: int
  t_tidString :: string
  t_tidStrLen :: int
  t_time :: string
  t_lastSecond :: int

definition new_thread :: log_thread where
  "new_thread = \<lparr>t_cachedTid = 0, t_tidString = [], t_tidStrLen = 6, t_time = [], t_lastSecond = 0\<rparr>"

definition cacheTid :: "int \<Rightarrow> log_thread \<Rightarrow> log_thread" where
  "cacheTid gettid th =
     (if t_cachedTid th = 0 then
        let th = th\<lparr>t_cachedTid := gettid\<rparr>;
            (tidString, len) = snprintf 32 (fmt_wd 5 (t_cachedTid th))
        in th\<lparr>t_tidString := tidString, t_tidStrLen := len\<rparr>
      else th)"

definition thread_tid :: "int \<Rightarrow> log_thread \<Rightarrow> int \<times> log_thread" where
  "thread_tid gettid th =
     (let th = (if t_cachedTid th = 0 then cacheTid gettid th else th) in (t_cachedTid th, th))"

definition isMainThread :: "int \<Rightarrow> int \<Rightarrow> log_thread \<Rightarrow> bool \<times> log_thread" where
  "isMainThread gettid getpid th = (let (t, th) = thread_tid gettid th in (t = getpid, th))"

section \<open>Levels and source files\<close>

datatype LOG_LEVEL = TRACE | DEBUG | INFO | WARN | ERROR | FATAL

fun level_num :: "LOG_LEVEL \<Rightarrow> nat" where
  "level_num TRACE = 0"
| "level_num DEBUG = 1"
| "level_num INFO = 2"
| "level_num WARN = 3"
| "level_num ERROR = 4"
| "level_num FATAL = 5"

text \<open>An unscoped enumeration is ordered by its numbers: \<open>getLogLevel() <= Log::TRACE\<close>.\<close>

lemma level_num_eq: "level_num a = level_num b \<longleftrightarrow> a = b"
  by (cases a; cases b) simp_all

instantiation LOG_LEVEL :: linorder
begin

definition less_eq_LOG_LEVEL :: "LOG_LEVEL \<Rightarrow> LOG_LEVEL \<Rightarrow> bool" where
  "less_eq_LOG_LEVEL a b \<longleftrightarrow> level_num a \<le> level_num b"

definition less_LOG_LEVEL :: "LOG_LEVEL \<Rightarrow> LOG_LEVEL \<Rightarrow> bool" where
  "less_LOG_LEVEL a b \<longleftrightarrow> level_num a < level_num b"

instance
  by standard (auto simp: less_eq_LOG_LEVEL_def less_LOG_LEVEL_def level_num_eq)

end

fun LogLevelName :: "LOG_LEVEL \<Rightarrow> string" where
  "LogLevelName TRACE = ''TRACE ''"
| "LogLevelName DEBUG = ''DEBUG ''"
| "LogLevelName INFO = ''INFO  ''"
| "LogLevelName WARN = ''WARN  ''"
| "LogLevelName ERROR = ''ERROR ''"
| "LogLevelName FATAL = ''FATAL ''"

text \<open>The environment is the set of variables that are defined.\<close>

definition initLogLevel :: "string set \<Rightarrow> LOG_LEVEL" where
  "initLogLevel env =
     (if ''CZY_LOG_TRACE'' \<in> env then TRACE else if ''CZY_LOG_DEBUG'' \<in> env then DEBUG else INFO)"

fun strrchr :: "char \<Rightarrow> string \<Rightarrow> nat option" where
  "strrchr c [] = None"
| "strrchr c (x # xs) =
     (case strrchr c xs of Some i \<Rightarrow> Some (i + 1) | None \<Rightarrow> if x = c then Some 0 else None)"

record SourceFile =
  sf_data :: string
  sf_size :: int

definition mk_SourceFile :: "string \<Rightarrow> SourceFile" where
  "mk_SourceFile fileName =
     (let data = (case strrchr (CHR ''/'') fileName of Some i \<Rightarrow> drop (i + 1) fileName | None \<Rightarrow> fileName)
      in \<lparr>sf_data = data, sf_size = int (length data)\<rparr>)"

section \<open>A log line\<close>

text \<open>\<open>T\<close> checks the length it is given; \<open><<\<close> appends that many characters.\<close>

definition put_T :: "string \<Rightarrow> int \<Rightarrow> FixedBuffer \<Rightarrow> FixedBuffer res" where
  "put_T str len b = assertR (int (length str) = len mod 2 ^ 32) (stream_append str len b)"

definition put_SourceFile :: "SourceFile \<Rightarrow> FixedBuffer \<Rightarrow> FixedBuffer res" where
  "put_SourceFile v b = stream_append (sf_data v) (sf_size v) b"

text \<open>\<open>Fmt\<close> with the text the format gives: it has to fit into 32 bytes.\<close>

definition mk_Fmt :: "string \<Rightarrow> (string \<times> int) res" where
  "mk_Fmt formatted =
     (let (buf, len) = snprintf 32 formatted in assertR (i32_to_size len < 32) (Inr (buf, len)))"

record log_impl =
  m_time :: TimeStamp
  m_stream :: FixedBuffer
  m_level :: LOG_LEVEL
  m_line :: int
  m_baseName :: SourceFile

definition refreshTime :: "TimeZone \<Rightarrow> int \<Rightarrow> log_thread \<Rightarrow> log_thread res" where
  "refreshTime tz seconds th =
     (if seconds \<noteq> t_lastSecond th then
        let th = th\<lparr>t_lastSecond := seconds\<rparr>
        in bindR (if zone_valid tz then bindR (toLocalTime tz seconds) (\<lambda>(dt, utcOffset). Inr dt)
                  else toUtcTime seconds) (\<lambda>dt.
           let (buf, len) = snprintf 64 (fmt_wd 4 (dt_year dt) @ fmt_0wd 2 (dt_month dt) @ fmt_0wd 2 (dt_day dt)
                 @ '' '' @ fmt_0wd 2 (dt_hour dt) @ '':'' @ fmt_0wd 2 (dt_minute dt) @ '':'' @ fmt_0wd 2 (dt_second dt))
           in assertR (len = 17) (Inr (th\<lparr>t_time := buf\<rparr>)))
      else Inr th)"

definition formatTime :: "TimeZone \<Rightarrow> log_thread \<Rightarrow> log_impl \<Rightarrow> (log_thread \<times> log_impl) res" where
  "formatTime tz th i =
     (let us = microSecondsSinceEpoch (m_time i);
          seconds = us sdiv KPerSecondMicroSecondsCount;
          microseconds = to_i32 (us smod KPerSecondMicroSecondsCount)
      in bindR (refreshTime tz seconds th) (\<lambda>th.
         if zone_valid tz then
           bindR (mk_Fmt (''.'' @ fmt_0wd 6 microseconds @ '' '')) (\<lambda>(us, us_len).
           assertR (us_len = 8) (
           bindR (put_T (t_time th) 17 (m_stream i)) (\<lambda>b.
           bindR (put_T us 8 b) (\<lambda>b.
           Inr (th, i\<lparr>m_stream := b\<rparr>)))))
         else
           bindR (mk_Fmt (''.'' @ fmt_0wd 6 microseconds @ ''Z '')) (\<lambda>(us, us_len).
           assertR (us_len = 9) (
           bindR (put_T (t_time th) 17 (m_stream i)) (\<lambda>b.
           bindR (put_T us 9 b) (\<lambda>b.
           Inr (th, i\<lparr>m_stream := b\<rparr>)))))))"

text \<open>\<open>Impl::Impl\<close>: \<open>now\<close> is the clock, \<open>strerr\<close> the text of \<open>strerror_r\<close>.\<close>

record log_world =
  w_now :: TimeStamp
  w_gettid :: int
  w_strerror :: "int \<Rightarrow> string"
  w_errno :: int

definition new_Impl ::
  "TimeZone \<Rightarrow> log_world \<Rightarrow> LOG_LEVEL \<Rightarrow> int \<Rightarrow> SourceFile \<Rightarrow> int \<Rightarrow> log_thread \<Rightarrow> (log_thread \<times> log_impl) res" where
  "new_Impl tz w level old_errno file line th =
     bindR (formatTime tz th \<lparr>m_time = w_now w, m_stream = new_FixedBuffer KSmallBuffer, m_level = level,
              m_line = line, m_baseName = file\<rparr>) (\<lambda>(th, i).
     let (_, th) = thread_tid (w_gettid w) th
     in bindR (put_T (t_tidString th) (t_tidStrLen th) (m_stream i)) (\<lambda>b.
        bindR (put_T (LogLevelName level) 6 b) (\<lambda>b.
        bindR (if old_errno \<noteq> 0 then
                 foldR put_item [Put_cstr (Some (w_strerror w old_errno)), Put_cstr (Some ''(errno = ''),
                   Put_int old_errno, Put_cstr (Some '')'')] b
               else Inr b) (\<lambda>b.
        Inr (th, i\<lparr>m_stream := b\<rparr>)))))"

definition log_finish :: "log_impl \<Rightarrow> log_impl res" where
  "log_finish i =
     bindR (put_item (Put_cstr (Some '' - '')) (m_stream i)) (\<lambda>b.
     bindR (put_SourceFile (m_baseName i) b) (\<lambda>b.
     bindR (foldR put_item [Put_cstr (Some '':''), Put_int (m_line i), Put_char (CHR 0x0A)] b) (\<lambda>b.
     Inr (i\<lparr>m_stream := b\<rparr>))))"

section \<open>The four constructors, the destructor and the globals\<close>

definition Log_line :: "TimeZone \<Rightarrow> log_world \<Rightarrow> SourceFile \<Rightarrow> int \<Rightarrow> log_thread \<Rightarrow> (log_thread \<times> log_impl) res" where
  "Log_line tz w file line th = new_Impl tz w INFO 0 file line th"

definition Log_func ::
  "TimeZone \<Rightarrow> log_world \<Rightarrow> SourceFile \<Rightarrow> int \<Rightarrow> LOG_LEVEL \<Rightarrow> string \<Rightarrow> log_thread \<Rightarrow> (log_thread \<times> log_impl) res" where
  "Log_func tz w file line level func th =
     bindR (new_Impl tz w level 0 file line th) (\<lambda>(th, i).
     bindR (foldR put_item [Put_cstr (Some func), Put_char (CHR '' '')] (m_stream i)) (\<lambda>b.
     Inr (th, i\<lparr>m_stream := b\<rparr>)))"

definition Log_level :: "TimeZone \<Rightarrow> log_world \<Rightarrow> SourceFile \<Rightarrow> int \<Rightarrow> LOG_LEVEL \<Rightarrow> log_thread \<Rightarrow> (log_thread \<times> log_impl) res" where
  "Log_level tz w file line level th = new_Impl tz w level 0 file line th"

definition Log_abort :: "TimeZone \<Rightarrow> log_world \<Rightarrow> SourceFile \<Rightarrow> int \<Rightarrow> bool \<Rightarrow> log_thread \<Rightarrow> (log_thread \<times> log_impl) res" where
  "Log_abort tz w file line toAbort th =
     new_Impl tz w (if toAbort then FATAL else ERROR) (w_errno w) file line th"

text \<open>
  The output and flush functions are opaque handles; what a finished line does is the list of calls.
\<close>

record log_globals =
  g_logLevel :: LOG_LEVEL
  g_output :: nat
  g_flush :: nat
  g_timeZone :: TimeZone

datatype log_effect = Output nat string | Flush nat | Abort

definition setLogLevel :: "LOG_LEVEL \<Rightarrow> log_globals \<Rightarrow> log_globals" where
  "setLogLevel level g = g\<lparr>g_logLevel := level\<rparr>"

definition setOutPutFunc :: "nat \<Rightarrow> log_globals \<Rightarrow> log_globals" where
  "setOutPutFunc func g = g\<lparr>g_output := func\<rparr>"

definition setFlushFunc :: "nat \<Rightarrow> log_globals \<Rightarrow> log_globals" where
  "setFlushFunc flush g = g\<lparr>g_flush := flush\<rparr>"

definition setTimeZone :: "TimeZone \<Rightarrow> log_globals \<Rightarrow> log_globals" where
  "setTimeZone tz g = g\<lparr>g_timeZone := tz\<rparr>"

definition delete_Log :: "log_globals \<Rightarrow> log_impl \<Rightarrow> log_effect list res" where
  "delete_Log g i =
     bindR (log_finish i) (\<lambda>i.
     let buf = m_stream i;
         out = Output (g_output g) (take (nat (fb_length buf)) (fb_data buf))
     in Inr (if m_level i = FATAL then [out, Flush (g_flush g), Abort] else [out]))"

text \<open>The macros: what is constructed, and the level test of the first three.\<close>

datatype log_macro = LOG_TRACE | LOG_DEBUG | LOG_INFO | LOG_WARN | LOG_ERROR | LOG_FATAL | LOG_SYSERR | LOG_SYSFATAL

fun macro_on :: "LOG_LEVEL \<Rightarrow> log_macro \<Rightarrow> bool" where
  "macro_on level LOG_TRACE = (level \<le> TRACE)"
| "macro_on level LOG_DEBUG = (level \<le> DEBUG)"
| "macro_on level LOG_INFO = (level \<le> INFO)"
| "macro_on level _ = True"

fun macro_log ::
  "log_macro \<Rightarrow> TimeZone \<Rightarrow> log_world \<Rightarrow> SourceFile \<Rightarrow> int \<Rightarrow> string \<Rightarrow> log_thread \<Rightarrow> (log_thread \<times> log_impl) res" where
  "macro_log LOG_TRACE tz w file line func = Log_func tz w file line TRACE func"
| "macro_log LOG_DEBUG tz w file line func = Log_func tz w file line DEBUG func"
| "macro_log LOG_INFO tz w file line func = Log_line tz w file line"
| "macro_log LOG_WARN tz w file line func = Log_level tz w file line WARN"
| "macro_log LOG_ERROR tz w file line func = Log_level tz w file line ERROR"
| "macro_log LOG_FATAL tz w file line func = Log_level tz w file line FATAL"
| "macro_log LOG_SYSERR tz w file line func = Log_abort tz w file line False"
| "macro_log LOG_SYSFATAL tz w file line func = Log_abort tz w file line True"

text \<open>A whole statement \<open>MACRO << item << ...\<close>: the temporary dies at its end.\<close>

definition log_statement ::
  "log_macro \<Rightarrow> log_globals \<Rightarrow> log_world \<Rightarrow> string \<Rightarrow> int \<Rightarrow> string \<Rightarrow> log_item list \<Rightarrow> log_thread
     \<Rightarrow> (log_thread \<times> log_effect list) res" where
  "log_statement macro g w file line func items th =
     (if macro_on (g_logLevel g) macro then
        bindR (macro_log macro (g_timeZone g) w (mk_SourceFile file) line func th) (\<lambda>(th, i).
        bindR (foldR put_item items (m_stream i)) (\<lambda>b.
        bindR (delete_Log g (i\<lparr>m_stream := b\<rparr>)) (\<lambda>effects.
        Inr (th, effects))))
      else Inr (th, []))"

text \<open>
  \<open>CHECK_NOTNULL\<close>: \<open>names\<close> is the text the macro makes of the expression. A line of level FATAL that is
  flushed ends in \<open>abort\<close>, so the pointer is returned only where it is not null.
\<close>

definition CheckNotNull ::
  "log_globals \<Rightarrow> log_world \<Rightarrow> string \<Rightarrow> int \<Rightarrow> string \<Rightarrow> 'p option \<Rightarrow> log_thread
     \<Rightarrow> (log_thread \<times> log_effect list \<times> 'p option) res" where
  "CheckNotNull g w file line names ptr th =
     (if ptr = None then
        bindR (Log_level (g_timeZone g) w (mk_SourceFile file) line FATAL th) (\<lambda>(th, i).
        bindR (put_item (Put_cstr (Some names)) (m_stream i)) (\<lambda>b.
        bindR (delete_Log g (i\<lparr>m_stream := b\<rparr>)) (\<lambda>effects.
        Inr (th, effects, ptr))))
      else Inr (th, [], ptr))"

definition CHECK_NOTNULL ::
  "log_globals \<Rightarrow> log_world \<Rightarrow> string \<Rightarrow> int \<Rightarrow> string \<Rightarrow> 'p option \<Rightarrow> log_thread
     \<Rightarrow> (log_thread \<times> log_effect list \<times> 'p option) res" where
  "CHECK_NOTNULL g w file line val ptr th =
     CheckNotNull g w file line (CHR 0x27 # val @ [CHR 0x27] @ '' Must be non NULL'') ptr th"

section \<open>What a line should say\<close>

definition zone_ok :: "TimeZone \<Rightarrow> bool" where
  "zone_ok tz = (case tz of None \<Rightarrow> True | Some d \<Rightarrow> wf_zone d)"

definition zone_offset :: "TimeZone \<Rightarrow> int \<Rightarrow> int" where
  "zone_offset tz s = (case tz of None \<Rightarrow> 0 | Some d \<Rightarrow> utcOffset (in_force d s))"

definition date_text :: "DateTime \<Rightarrow> string" where
  "date_text dt = fmt_wd 4 (dt_year dt) @ fmt_0wd 2 (dt_month dt) @ fmt_0wd 2 (dt_day dt)
     @ '' '' @ fmt_0wd 2 (dt_hour dt) @ '':'' @ fmt_0wd 2 (dt_minute dt) @ '':'' @ fmt_0wd 2 (dt_second dt)"

definition second_text :: "TimeZone \<Rightarrow> int \<Rightarrow> string" where
  "second_text tz s = date_text (utc_time (s + zone_offset tz s))"

definition micro_text :: "TimeZone \<Rightarrow> int \<Rightarrow> string" where
  "micro_text tz m = ''.'' @ fmt_0wd 6 m @ (if tz = None then ''Z '' else '' '')"

text \<open>The seconds whose year has at most four digits in the zone; the first second of 1970 is excluded.\<close>

definition second_ok :: "TimeZone \<Rightarrow> int \<Rightarrow> bool" where
  "second_ok tz s \<longleftrightarrow> s > 0 \<and> in_break_range (s + zone_offset tz s)
     \<and> 0 \<le> dt_year (utc_time (s + zone_offset tz s)) \<and> dt_year (utc_time (s + zone_offset tz s)) < 10000"

text \<open>The thread-local caches hold what they would be computed to.\<close>

definition tid_cached :: "int \<Rightarrow> log_thread \<Rightarrow> bool" where
  "tid_cached tid th \<longleftrightarrow> t_cachedTid th = tid \<and> t_tidString th = fmt_wd 5 tid
     \<and> t_tidStrLen th = int (length (fmt_wd 5 tid))"

definition thread_ok :: "TimeZone \<Rightarrow> int \<Rightarrow> log_thread \<Rightarrow> bool" where
  "thread_ok tz tid th \<longleftrightarrow> (t_lastSecond th = 0 \<or> t_time th = second_text tz (t_lastSecond th))
     \<and> (t_cachedTid th = 0 \<or> tid_cached tid th)"

definition base_name :: "string \<Rightarrow> string" where
  "base_name file = rev (takeWhile (\<lambda>c. c \<noteq> CHR ''/'') (rev file))"

section \<open>Lemmas\<close>

lemma strrchr_None: "strrchr c s = None \<longleftrightarrow> c \<notin> set s"
  by (induction s) (auto split: option.splits)

lemma drop_strrchr: "strrchr c s = Some i \<Longrightarrow> drop (i + 1) s = rev (takeWhile (\<lambda>x. x \<noteq> c) (rev s))"
proof (induction s arbitrary: i)
  case (Cons x s)
  show ?case
  proof (cases "strrchr c s")
    case None
    with Cons.prems have "c \<notin> set s" "x = c" "i = 0"
      using strrchr_None [of c s] by (auto split: if_splits)
    moreover from this(1) have "takeWhile (\<lambda>x. x \<noteq> c) (rev s @ [c]) = rev s"
      by (subst takeWhile_append2) auto
    ultimately show ?thesis by simp
  next
    case (Some j)
    then have "c \<in> set s" using strrchr_None [of c s] by auto
    then have "takeWhile (\<lambda>x. x \<noteq> c) (rev s @ [x]) = takeWhile (\<lambda>x. x \<noteq> c) (rev s)"
      by (intro takeWhile_append1) auto
    with Cons Some show ?thesis by simp
  qed
qed simp

lemma mk_SourceFile_base: "mk_SourceFile f = \<lparr>sf_data = base_name f, sf_size = int (length (base_name f))\<rparr>"
proof (cases "strrchr (CHR ''/'') f")
  case None
  then have "takeWhile (\<lambda>x. x \<noteq> CHR ''/'') (rev f) = rev f"
    unfolding takeWhile_eq_all_conv strrchr_None by auto
  then have "base_name f = f" by (simp only: base_name_def rev_rev_ident)
  with None show ?thesis by (simp add: mk_SourceFile_def)
qed (simp add: mk_SourceFile_def base_name_def drop_strrchr [of "CHR ''/''" f, simplified])

lemma length_base_name: "length (base_name f) \<le> length f"
  using length_takeWhile_le [of "\<lambda>c. c \<noteq> CHR ''/''" "rev f"] by (simp add: base_name_def)

lemma length_LogLevelName [simp]: "length (LogLevelName level) = 6"
  by (cases level) simp_all

lemma put_T_item: "length str < 2 ^ 31 \<Longrightarrow> n = int (length str) \<Longrightarrow> put_T str n b = put_string str b"
  by (simp add: put_T_def stream_append_def put_string_def i32_to_size_nonneg)

lemma put_SourceFile_item:
  "length f < 2 ^ 31 \<Longrightarrow> put_SourceFile (mk_SourceFile f) b = put_item (Put_string (base_name f)) b"
  using length_base_name [of f]
  by (simp add: put_SourceFile_def stream_append_def put_string_def i32_to_size_nonneg mk_SourceFile_base)

lemma length_date_text:
  assumes "in_break_range t" "0 \<le> dt_year (utc_time t)" "dt_year (utc_time t) < 10000"
  shows "length (date_text (utc_time t)) = 17"
proof -
  let ?dt = "utc_time t"
  note f = toUtcTime_fields(3) [OF assms(1), unfolded Let_def]
  have two: "length (fmt_0wd 2 x) = 2" if "0 \<le> x" "x < 100" for x
    using that by (intro length_fmt_0wd [where k = 1]) simp_all
  have "nat (dt_year ?dt) < 10 ^ Suc 3" using assms(2,3) by simp
  from length_nat_str_le [OF this] have y: "length (fmt_wd 4 (dt_year ?dt)) = 4"
    using assms(2) by (simp add: fmt_wd_def fmt_d_def)
  have "dt_month ?dt \<le> 12" "1 \<le> dt_month ?dt" "1 \<le> dt_day ?dt" "dt_day ?dt \<le> 31"
    using f by (auto simp: civil_def days_in_month_def split: if_splits)
  with f y show ?thesis by (simp add: date_text_def two)
qed

lemma refreshTime_ok:
  assumes th: "thread_ok tz tid th" and z: "zone_ok tz" and s: "second_ok tz s"
  shows "\<exists>th'. refreshTime tz s th = Inr th' \<and> thread_ok tz tid th' \<and> t_time th' = second_text tz s
    \<and> length (t_time th') = 17"
proof -
  have len: "length (second_text tz s) = 17"
    using s length_date_text by (simp add: second_ok_def second_text_def)
  have b: "BreakTime (s + zone_offset tz s) = Inr (utc_time (s + zone_offset tz s))"
    using s by (simp add: second_ok_def BreakTime_eq)
  have "(if zone_valid tz then bindR (toLocalTime tz s) (\<lambda>(dt, utcOffset). Inr dt) else toUtcTime s)
      = Inr (utc_time (s + zone_offset tz s))"
    using z b findLocalTime_utc_in_force
    by (cases tz) (simp_all add: zone_valid_def zone_ok_def zone_offset_def toLocalTime_def toUtcTime_def)
  then have r: "refreshTime tz s th =
      (if s \<noteq> t_lastSecond th then Inr (th\<lparr>t_lastSecond := s, t_time := second_text tz s\<rparr>) else Inr th)"
    using len unfolding refreshTime_def Let_def second_text_def
    by (simp only: bindR_Inr date_text_def [symmetric]) (simp add: snprintf_def)
  show ?thesis
    using th s len unfolding r by (auto simp: thread_ok_def second_ok_def tid_cached_def)
qed

lemma micro_split_K:
  assumes "0 \<le> us"
  shows "us sdiv KPerSecondMicroSecondsCount = us div 1000000" "to_i32 (us smod KPerSecondMicroSecondsCount) = us mod 1000000"
proof -
  have "us smod 1000000 = us mod 1000000" using assms by (simp add: smod_nonneg)
  moreover have "0 \<le> us mod 1000000" "us mod 1000000 < 1000000" by simp_all
  ultimately show "to_i32 (us smod KPerSecondMicroSecondsCount) = us mod 1000000"
    using to_i32_id [of "us mod 1000000"] by (simp add: KPerSecondMicroSecondsCount_def)
  show "us sdiv KPerSecondMicroSecondsCount = us div 1000000"
    using assms by (simp add: KPerSecondMicroSecondsCount_def sdiv_nonneg)
qed

lemma formatTime_ok:
  assumes th: "thread_ok tz tid th" and z: "zone_ok tz" and us: "0 \<le> us" and t: "m_time i = ts_of us"
    and s: "second_ok tz (us div 1000000)"
  shows "\<exists>th'. thread_ok tz tid th' \<and> formatTime tz th i =
    bindR (foldR put_item [Put_string (second_text tz (us div 1000000)), Put_string (micro_text tz (us mod 1000000))]
      (m_stream i)) (\<lambda>b. Inr (th', i\<lparr>m_stream := b\<rparr>))"
proof -
  from refreshTime_ok [OF th z s] obtain th' where r: "refreshTime tz (us div 1000000) th = Inr th'"
    "thread_ok tz tid th'" "t_time th' = second_text tz (us div 1000000)"
    "length (second_text tz (us div 1000000)) = 17" by auto
  have l: "length (fmt_0wd 6 (us mod 1000000)) = 6" by (rule length_fmt_0wd [where k = 5]) simp_all
  have f: "mk_Fmt (''.'' @ fmt_0wd 6 (us mod 1000000) @ '' '') = Inr (''.'' @ fmt_0wd 6 (us mod 1000000) @ '' '', 8)"
    "mk_Fmt (''.'' @ fmt_0wd 6 (us mod 1000000) @ ''Z '') = Inr (''.'' @ fmt_0wd 6 (us mod 1000000) @ ''Z '', 9)"
    using l by (simp_all add: mk_Fmt_def snprintf_def i32_to_size_nonneg)
  have u: "put_T (''.'' @ fmt_0wd 6 (us mod 1000000) @ '' '') 8 b = put_string (''.'' @ fmt_0wd 6 (us mod 1000000) @ '' '') b"
    "put_T (''.'' @ fmt_0wd 6 (us mod 1000000) @ ''Z '') 9 b = put_string (''.'' @ fmt_0wd 6 (us mod 1000000) @ ''Z '') b"
    "put_T (t_time th') 17 b = put_string (second_text tz (us div 1000000)) b" for b
    using l r(3,4) by (simp_all add: put_T_item)
  have "formatTime tz th i =
    bindR (foldR put_item [Put_string (second_text tz (us div 1000000)), Put_string (micro_text tz (us mod 1000000))]
      (m_stream i)) (\<lambda>b. Inr (th', i\<lparr>m_stream := b\<rparr>))"
    unfolding formatTime_def Let_def t ts_of_def TimeStamp.select_convs micro_split_K [OF us] r(1) bindR_Inr f u
    by (cases tz) (simp_all add: zone_valid_def micro_text_def bindR_assoc case_prod_beta u [simplified])
  with r(2) show ?thesis by blast
qed

lemma thread_tid_ok:
  assumes "thread_ok tz tid th" "0 < tid" "tid < 2 ^ 31"
  shows "\<exists>th'. thread_tid tid th = (tid, th') \<and> thread_ok tz tid th' \<and> tid_cached tid th'"
proof -
  have "nat tid < 10 ^ Suc 10" using assms(3) by simp
  from length_nat_str_le [OF this] have l: "length (fmt_wd 5 tid) \<le> 31"
    using assms(2) by (simp add: fmt_wd_def fmt_d_def)
  show ?thesis
  proof (cases "t_cachedTid th = 0")
    case True
    with l assms show ?thesis
      by (auto simp: thread_tid_def cacheTid_def thread_ok_def tid_cached_def snprintf_def Let_def)
  next
    case False
    with assms show ?thesis by (auto simp: thread_tid_def thread_ok_def tid_cached_def)
  qed
qed

definition errno_items :: "log_world \<Rightarrow> int \<Rightarrow> log_item list" where
  "errno_items w e =
     (if e = 0 then []
      else [Put_cstr (Some (w_strerror w e)), Put_cstr (Some ''(errno = ''), Put_int e, Put_cstr (Some '')'')])"

definition head_items :: "TimeZone \<Rightarrow> int \<Rightarrow> int \<Rightarrow> LOG_LEVEL \<Rightarrow> log_item list" where
  "head_items tz us tid level =
     [Put_string (second_text tz (us div 1000000)), Put_string (micro_text tz (us mod 1000000)),
      Put_string (fmt_wd 5 tid), Put_string (LogLevelName level)]"

definition tail_items :: "string \<Rightarrow> int \<Rightarrow> log_item list" where
  "tail_items file line =
     [Put_cstr (Some '' - ''), Put_string (base_name file), Put_cstr (Some '':''), Put_int line, Put_char (CHR 0x0A)]"

lemma new_Impl_ok:
  assumes th: "thread_ok tz tid th" and z: "zone_ok tz" and us: "0 \<le> us" and t: "w_now w = ts_of us"
    and s: "second_ok tz (us div 1000000)" and tid: "0 < tid" "tid < 2 ^ 31" "w_gettid w = tid"
  shows "\<exists>th'. thread_ok tz tid th' \<and> new_Impl tz w level e file line th =
    bindR (foldR put_item (head_items tz us tid level @ errno_items w e) (new_FixedBuffer KSmallBuffer)) (\<lambda>b.
      Inr (th', \<lparr>m_time = w_now w, m_stream = b, m_level = level, m_line = line, m_baseName = file\<rparr>))"
proof -
  let ?i = "\<lambda>b. \<lparr>m_time = w_now w, m_stream = b, m_level = level, m_line = line, m_baseName = file\<rparr>"
  have "m_time (?i (new_FixedBuffer KSmallBuffer)) = ts_of us" by (simp add: t)
  from formatTime_ok [OF th z us this s] obtain th1 where f: "thread_ok tz tid th1"
    "formatTime tz th (?i (new_FixedBuffer KSmallBuffer)) =
      bindR (foldR put_item [Put_string (second_text tz (us div 1000000)), Put_string (micro_text tz (us mod 1000000))]
        (new_FixedBuffer KSmallBuffer)) (\<lambda>b. Inr (th1, ?i b))"
    by auto
  from thread_tid_ok [OF f(1) tid(1,2)] obtain th2 where c: "thread_tid (w_gettid w) th1 = (tid, th2)"
    "thread_ok tz tid th2" "tid_cached tid th2" using tid(3) by auto
  have "nat tid < 10 ^ Suc 10" using tid(2) by simp
  from length_nat_str_le [OF this] have l: "length (fmt_wd 5 tid) < 2 ^ 31"
    using tid(1) by (simp add: fmt_wd_def fmt_d_def)
  have p: "put_T (t_tidString th2) (t_tidStrLen th2) b = put_item (Put_string (fmt_wd 5 tid)) b"
    "put_T (LogLevelName level) 6 b = put_item (Put_string (LogLevelName level)) b" for b
    using c(3) l by (simp_all add: tid_cached_def put_T_item)
  have "new_Impl tz w level e file line th =
    bindR (foldR put_item (head_items tz us tid level @ errno_items w e) (new_FixedBuffer KSmallBuffer)) (\<lambda>b. Inr (th2, ?i b))"
    unfolding new_Impl_def f(2)
    by (simp add: head_items_def errno_items_def foldR_append bindR_assoc c(1) p case_prod_beta Let_def)
  with c(2) show ?thesis by blast
qed

fun macro_level :: "log_macro \<Rightarrow> LOG_LEVEL" where
  "macro_level LOG_TRACE = TRACE"
| "macro_level LOG_DEBUG = DEBUG"
| "macro_level LOG_INFO = INFO"
| "macro_level LOG_WARN = WARN"
| "macro_level LOG_ERROR = ERROR"
| "macro_level LOG_FATAL = FATAL"
| "macro_level LOG_SYSERR = ERROR"
| "macro_level LOG_SYSFATAL = FATAL"

text \<open>What the statement puts in front of its own items.\<close>

definition macro_items :: "log_macro \<Rightarrow> TimeZone \<Rightarrow> log_world \<Rightarrow> int \<Rightarrow> string \<Rightarrow> log_item list" where
  "macro_items macro tz w us func =
     head_items tz us (w_gettid w) (macro_level macro)
     @ (if macro \<in> {LOG_SYSERR, LOG_SYSFATAL} then errno_items w (w_errno w) else [])
     @ (if macro \<in> {LOG_TRACE, LOG_DEBUG} then [Put_cstr (Some func), Put_char (CHR '' '')] else [])"

lemma macro_log_ok:
  assumes th: "thread_ok tz (w_gettid w) th" and z: "zone_ok tz" and us: "0 \<le> us" "w_now w = ts_of us"
    and s: "second_ok tz (us div 1000000)" and tid: "0 < w_gettid w" "w_gettid w < 2 ^ 31"
  shows "\<exists>th'. thread_ok tz (w_gettid w) th' \<and> macro_log macro tz w file line func th =
    bindR (foldR put_item (macro_items macro tz w us func) (new_FixedBuffer KSmallBuffer)) (\<lambda>b.
      Inr (th', \<lparr>m_time = w_now w, m_stream = b, m_level = macro_level macro, m_line = line, m_baseName = file\<rparr>))"
proof -
  define e where "e = (if macro \<in> {LOG_SYSERR, LOG_SYSFATAL} then w_errno w else 0)"
  from new_Impl_ok [OF th z us s tid refl, of "macro_level macro" e "file" line] obtain th' where
    t: "thread_ok tz (w_gettid w) th'" and
    n: "new_Impl tz w (macro_level macro) e file line th =
    bindR (foldR put_item (head_items tz us (w_gettid w) (macro_level macro) @ errno_items w e) (new_FixedBuffer KSmallBuffer)) (\<lambda>b.
      Inr (th', \<lparr>m_time = w_now w, m_stream = b, m_level = macro_level macro, m_line = line, m_baseName = file\<rparr>))"
    by blast
  have "macro_log macro tz w file line func th =
    bindR (foldR put_item (macro_items macro tz w us func) (new_FixedBuffer KSmallBuffer)) (\<lambda>b.
      Inr (th', \<lparr>m_time = w_now w, m_stream = b, m_level = macro_level macro, m_line = line, m_baseName = file\<rparr>))"
    using n by (cases macro) (simp_all add: e_def Log_line_def Log_func_def Log_level_def Log_abort_def macro_items_def
        errno_items_def foldR_append bindR_assoc)
  with t show ?thesis by blast
qed

lemma delete_Log_ok:
  assumes "m_baseName i = mk_SourceFile f" "length f < 2 ^ 31"
  shows "delete_Log g i =
    bindR (foldR put_item (tail_items f (m_line i)) (m_stream i)) (\<lambda>b.
      Inr (Output (g_output g) (fb_toString b) # (if m_level i = FATAL then [Flush (g_flush g), Abort] else [])))"
  using put_SourceFile_item [OF assms(2)] assms(1)
  by (simp add: delete_Log_def log_finish_def tail_items_def bindR_assoc fb_toString_def Let_def)

text \<open>
  The corners of the cache: it is keyed by the second alone, so a change of the zone is not seen
  before the next second, and it is taken for filled in the first second of 1970.
\<close>

lemma zone_change_unseen: "m_time i = ts_of us \<Longrightarrow> 0 \<le> us \<Longrightarrow> t_lastSecond th = us div 1000000 \<Longrightarrow>
  formatTime tz th i = Inr (th', i') \<Longrightarrow> t_time th' = t_time th"
  by (auto simp: formatTime_def refreshTime_def micro_split_K ts_of_def Let_def bindR_eq_Inr assertR_eq_Inr split: if_splits)

lemma first_second_aborts:
  assumes "m_time i = ts_of us" "0 \<le> us" "us < 1000000"
  shows "formatTime tz new_thread i = Inl Assert_failed"
proof -
  have l: "length (fmt_0wd 6 us) = 6" by (rule length_fmt_0wd [where k = 5]) (use assms in simp_all)
  have "us div 1000000 = 0" "us mod 1000000 = us" using assms(2,3) by simp_all
  then show ?thesis
    using assms l by (simp add: formatTime_def refreshTime_def micro_split_K ts_of_def Let_def new_thread_def
        mk_Fmt_def snprintf_def i32_to_size_nonneg put_T_def)
qed

text \<open>\<open>CHECK_NOTNULL\<close> does nothing for a pointer, and is a statement of \<open>LOG_FATAL\<close> for a null one.\<close>

lemma CHECK_NOTNULL_statement:
  "CHECK_NOTNULL g w file line val ptr th =
    (case ptr of
       Some p \<Rightarrow> Inr (th, [], Some p)
     | None \<Rightarrow> map_sum id (\<lambda>(th, effects). (th, effects, None))
         (log_statement LOG_FATAL g w file line func [Put_cstr (Some (CHR 0x27 # val @ [CHR 0x27] @ '' Must be non NULL''))] th))"
  by (cases ptr) (auto simp: CHECK_NOTNULL_def CheckNotNull_def log_statement_def bindR_def split: sum.splits)

text \<open>All that is put into the stream of a statement, and the line it makes.\<close>

definition statement_items :: "log_macro \<Rightarrow> log_globals \<Rightarrow> log_world \<Rightarrow> string \<Rightarrow> int \<Rightarrow> string \<Rightarrow> log_item list \<Rightarrow> log_item list" where
  "statement_items macro g w file line func items =
     macro_items macro (g_timeZone g) w (microSecondsSinceEpoch (w_now w)) func @ items @ tail_items file line"

definition statement_text :: "log_macro \<Rightarrow> log_globals \<Rightarrow> log_world \<Rightarrow> string \<Rightarrow> int \<Rightarrow> string \<Rightarrow> log_item list \<Rightarrow> string" where
  "statement_text macro g w file line func items = fitting_text 4000 [] (statement_items macro g w file line func items)"

text \<open>What a statement has to be given.\<close>

definition statement_ok :: "log_globals \<Rightarrow> log_world \<Rightarrow> string \<Rightarrow> int \<Rightarrow> log_item list \<Rightarrow> bool" where
  "statement_ok g w file line items \<longleftrightarrow> zone_ok (g_timeZone g) \<and> 0 \<le> microSecondsSinceEpoch (w_now w)
     \<and> second_ok (g_timeZone g) (microSecondsSinceEpoch (w_now w) div 1000000)
     \<and> 0 < w_gettid w \<and> w_gettid w < 2 ^ 31 \<and> i32_ok (w_errno w) \<and> i32_ok line \<and> length file < 2 ^ 31
     \<and> (\<forall>it \<in> set items. item_ok it)"

lemma log_statement_ok:
  assumes th: "thread_ok (g_timeZone g) (w_gettid w) th" and ok: "statement_ok g w file line items"
  shows "\<exists>th'. thread_ok (g_timeZone g) (w_gettid w) th' \<and>
    log_statement macro g w file line func items th = Inr (th',
      if macro_on (g_logLevel g) macro then
        Output (g_output g) (statement_text macro g w file line func items)
        # (if macro_level macro = FATAL then [Flush (g_flush g), Abort] else [])
      else [])"
    and "length (statement_text macro g w file line func items) < 4000"
proof -
  let ?us = "microSecondsSinceEpoch (w_now w)"
  let ?all = "statement_items macro g w file line func items"
  let ?fin = "if macro_level macro = FATAL then [Flush (g_flush g), Abort] else []"
  let ?new = "new_FixedBuffer KSmallBuffer"
  have now: "w_now w = ts_of ?us" by (simp add: ts_of_def)
  from ok have i: "zone_ok (g_timeZone g)" "0 \<le> ?us" "second_ok (g_timeZone g) (?us div 1000000)"
    "0 < w_gettid w" "w_gettid w < 2 ^ 31" "i32_ok (w_errno w)" "i32_ok line" "length file < 2 ^ 31"
    "\<forall>it \<in> set items. item_ok it" by (simp_all add: statement_ok_def)
  from macro_log_ok [OF th i(1,2) now i(3,4,5), of macro "mk_SourceFile file" line func] obtain th' where
    t: "thread_ok (g_timeZone g) (w_gettid w) th'" and
    m: "macro_log macro (g_timeZone g) w (mk_SourceFile file) line func th =
      bindR (foldR put_item (macro_items macro (g_timeZone g) w ?us func) ?new) (\<lambda>b.
        Inr (th', \<lparr>m_time = w_now w, m_stream = b, m_level = macro_level macro, m_line = line, m_baseName = mk_SourceFile file\<rparr>))"
    by blast
  have s: "log_statement macro g w file line func items th =
      bindR (foldR put_item ?all ?new) (\<lambda>b. Inr (th', Output (g_output g) (fb_toString b) # ?fin))"
    if "macro_on (g_logLevel g) macro"
    using that i(8) by (simp add: log_statement_def m delete_Log_ok foldR_append bindR_assoc statement_items_def)
  have "\<forall>it \<in> set ?all. item_ok it"
    using i(6,7,9)
    by (auto simp: statement_items_def macro_items_def head_items_def errno_items_def tail_items_def i32_ok_def)
  moreover have "wf_fb ?new" by (simp add: wf_fb_def new_FixedBuffer_def KSmallBuffer_def)
  ultimately obtain b where b: "foldR put_item ?all ?new = Inr b" "wf_fb b" "length (fb_data b) = 4000"
    "fb_toString b = statement_text macro g w file line func items"
    using put_items_ok [of ?new ?all]
    by (auto simp: statement_text_def new_FixedBuffer_def KSmallBuffer_def fb_toString_def fb_length_def)
  then show "length (statement_text macro g w file line func items) < 4000"
    using length_fb_toString [OF b(2)] by (simp add: wf_fb_def)
  show "\<exists>th'. thread_ok (g_timeZone g) (w_gettid w) th' \<and>
    log_statement macro g w file line func items th = Inr (th',
      if macro_on (g_logLevel g) macro then
        Output (g_output g) (statement_text macro g w file line func items) # ?fin else [])"
  proof (cases "macro_on (g_logLevel g) macro")
    case True
    with t b(1,4) show ?thesis by (auto simp: s)
  qed (use th in \<open>auto simp: log_statement_def\<close>)
qed

section \<open>Properties\<close>

text \<open>
  C25. A log statement writes the line it should and leaves the caches right. A statement below the
  level does nothing at all. Otherwise exactly one line goes to the output function: date and time
  of the clock in the zone, microseconds, thread id, level, error text, function, items, file
  without its directories and line number, each whole and in order, as far as they fit into 4000
  bytes; after a line of level FATAL, and of no other, the output is flushed and the program aborts.
  No assertion on the length of the date, of the microseconds, of the thread id or of a level fails
  and no buffer overflows, whether the date and the id are taken from the caches of the thread or
  computed, for years up to 9999.
\<close>

theorem log_line_text:
  assumes "thread_ok (g_timeZone g) (w_gettid w) th" "zone_ok (g_timeZone g)"
    and "0 \<le> us" "w_now w = ts_of us" "second_ok (g_timeZone g) (us div 1000000)"
    and "0 < w_gettid w" "w_gettid w < 2 ^ 31" "i32_ok (w_errno w)" "i32_ok line" "length file < 2 ^ 31"
    and "\<forall>it \<in> set items. item_ok it"
  shows "\<exists>th'. thread_ok (g_timeZone g) (w_gettid w) th' \<and>
    log_statement macro g w file line func items th = Inr (th',
      if macro_on (g_logLevel g) macro then
        Output (g_output g) (fitting_text 4000 []
          (macro_items macro (g_timeZone g) w us func @ items @ tail_items file line))
        # (if macro_level macro = FATAL then [Flush (g_flush g), Abort] else [])
      else [])"
proof -
  have m: "microSecondsSinceEpoch (w_now w) = us" by (simp add: assms(4) ts_of_def)
  have "statement_ok g w file line items" using assms by (simp add: statement_ok_def ts_of_def)
  from log_statement_ok(1) [OF assms(1) this, of macro func] show ?thesis
    unfolding statement_text_def statement_items_def m .
qed

lemma toUtc_sample: "utc_time 1000000000 =
  \<lparr>dt_year = 2001, dt_month = 9, dt_day = 9, dt_hour = 1, dt_minute = 46, dt_second = 40\<rparr>"
proof -
  have d: "ymd_of 2452162 = \<lparr>ymd_year = 2001, ymd_month = 9, ymd_day = 9\<rparr>" by code_simp
  show ?thesis by (simp add: utc_time_def kSecondsPerDay_def epoch_jdn d)
qed

definition sample_world :: log_world where
  "sample_world = \<lparr>w_now = ts_of 1000000000000007, w_gettid = 42, w_strerror = (\<lambda>e. []), w_errno = 0\<rparr>"

definition sample_globals :: log_globals where
  "sample_globals = \<lparr>g_logLevel = INFO, g_output = 0, g_flush = 0, g_timeZone = None\<rparr>"

lemma new_thread_ok: "thread_ok tz tid new_thread"
  by (simp add: thread_ok_def new_thread_def)


lemma sample_pieces:
  "date_text \<lparr>dt_year = 2001, dt_month = 9, dt_day = 9, dt_hour = 1, dt_minute = 46, dt_second = 40\<rparr> = ''20010909 01:46:40''"
  "fmt_0wd 6 7 = ''000007''" "fmt_wd 5 42 = ''   42''" "base_name ''src/a.cc'' = ''a.cc''" "fmt_d 5 = ''5''" "fmt_d 7 = ''7''"
  by code_simp+

lemma sample_text:
  "fitting_text 4000 [] (macro_items LOG_WARN None sample_world 1000000000000007 [] @ [Put_int 5]
     @ tail_items ''src/a.cc'' 7) = ''20010909 01:46:40.000007Z    42WARN  5 - a.cc:7'' @ [CHR 0x0A]"
  by (simp add: macro_items_def head_items_def tail_items_def second_text_def zone_offset_def toUtc_sample
      micro_text_def sample_world_def sample_pieces)

lemma sample_world_fields:
  "w_gettid sample_world = 42" "w_errno sample_world = 0" "w_now sample_world = ts_of 1000000000000007"
  by (simp_all add: sample_world_def)

lemma log_line_text_witness:
  "\<exists>th'. log_statement LOG_WARN sample_globals sample_world ''src/a.cc'' 7 [] [Put_int 5] new_thread =
     Inr (th', [Output 0 (''20010909 01:46:40.000007Z    42WARN  5 - a.cc:7'' @ [CHR 0x0A])])"
proof -
  have "second_ok None 1000000000"
    by (simp add: second_ok_def zone_offset_def in_break_range_def kSecondsPerDay_def toUtc_sample)
  then show ?thesis
    using log_line_text [of sample_globals sample_world new_thread 1000000000000007 7 "''src/a.cc''" "[Put_int 5]" LOG_WARN "[]"]
    by (auto simp: sample_globals_def new_thread_ok zone_ok_def i32_ok_def sample_world_fields sample_text [simplified])
qed
end
