(* ===== verification/NumberTexts.thy ===== *)
theory NumberTexts
  imports Formats Doubles
begin

text \<open>
  \<open>formatSI\<close> and \<open>formatIEC\<close> of \<open>src/src/base/LogStream.cc\<close>: a quantity with a unit prefix. They
  compute with \<open>double\<close>, rounded as in \<open>Doubles\<close>.
\<close>

text \<open>\<open>%.kf\<close> of a value that is not negative: the exact value is rounded to \<open>k\<close> decimals.\<close>

definition fmt_f :: "nat \<Rightarrow> rat \<Rightarrow> string" where
  "fmt_f k x =
     (let v = rne (x * 10 ^ k)
      in fmt_d (v div 10 ^ k) @ (if k = 0 then [] else ''.'' @ fmt_0wd k (v mod 10 ^ k)))"

section \<open>The two functions\<close>

definition formatSI :: "int \<Rightarrow> string" where
  "formatSI s =
     (let n = fl (of_int s)
      in fst (snprintf 64 (
        if s < 1000 then fmt_d s
        else if s < 9995 then fmt_f 2 (fl (n / 1000)) @ ''k''
        else if s < 99950 then fmt_f 1 (fl (n / 1000)) @ ''k''
        else if s < 999500 then fmt_f 0 (fl (n / 1000)) @ ''k''
        else if s < 9995000 then fmt_f 2 (fl (n / 1000000)) @ ''M''
        else if s < 99950000 then fmt_f 1 (fl (n / 1000000)) @ ''M''
        else if s < 999500000 then fmt_f 0 (fl (n / 1000000)) @ ''M''
        else if s < 9995000000 then fmt_f 2 (fl (n / 1000000000)) @ ''G''
        else if s < 99950000000 then fmt_f 1 (fl (n / 1000000000)) @ ''G''
        else if s < 999500000000 then fmt_f 0 (fl (n / 1000000000)) @ ''G''
        else if s < 9995000000000 then fmt_f 2 (fl (n / 1000000000000)) @ ''T''
        else if s < 99950000000000 then fmt_f 1 (fl (n / 1000000000000)) @ ''T''
        else if s < 999500000000000 then fmt_f 0 (fl (n / 1000000000000)) @ ''T''
        else if s < 9995000000000000 then fmt_f 2 (fl (n / 1000000000000000)) @ ''P''
        else if s < 99950000000000000 then fmt_f 1 (fl (n / 1000000000000000)) @ ''P''
        else if s < 999500000000000000 then fmt_f 0 (fl (n / 1000000000000000)) @ ''P''
        else fmt_f 2 (fl (n / 1000000000000000000)) @ ''E'')))"

definition Ki :: rat where "Ki = fl 1024"
definition Mi :: rat where "Mi = fl (Ki * 1024)"
definition Gi :: rat where "Gi = fl (Mi * 1024)"
definition Ti :: rat where "Ti = fl (Gi * 1024)"
definition Pi :: rat where "Pi = fl (Ti * 1024)"
definition Ei :: rat where "Ei = fl (Pi * 1024)"

definition formatIEC :: "int \<Rightarrow> string" where
  "formatIEC s =
     (let n = fl (of_int s)
      in fst (snprintf 64 (
        if n < Ki then fmt_d s
        else if n < fl (Ki * fl (9995 / 1000)) then fmt_f 2 (fl (n / Ki)) @ ''Ki''
        else if n < fl (Ki * fl (9995 / 100)) then fmt_f 1 (fl (n / Ki)) @ ''Ki''
        else if n < fl (Ki * fl (10235 / 10)) then fmt_f 0 (fl (n / Ki)) @ ''Ki''
        else if n < fl (Mi * fl (9995 / 1000)) then fmt_f 2 (fl (n / Mi)) @ ''Mi''
        else if n < fl (Mi * fl (9995 / 100)) then fmt_f 1 (fl (n / Mi)) @ ''Mi''
        else if n < fl (Mi * fl (10235 / 10)) then fmt_f 0 (fl (n / Mi)) @ ''Mi''
        else if n < fl (Gi * fl (9995 / 1000)) then fmt_f 2 (fl (n / Gi)) @ ''Gi''
        else if n < fl (Gi * fl (9995 / 100)) then fmt_f 1 (fl (n / Gi)) @ ''Gi''
        else if n < fl (Gi * fl (10235 / 10)) then fmt_f 0 (fl (n / Gi)) @ ''Gi''
        else if n < fl (Ti * fl (9995 / 1000)) then fmt_f 2 (fl (n / Ti)) @ ''Ti''
        else if n < fl (Ti * fl (9995 / 100)) then fmt_f 1 (fl (n / Ti)) @ ''Ti''
        else if n < fl (Ti * fl (10235 / 10)) then fmt_f 0 (fl (n / Ti)) @ ''Ti''
        else if n < fl (Pi * fl (9995 / 1000)) then fmt_f 2 (fl (n / Pi)) @ ''Pi''
        else if n < fl (Pi * fl (9995 / 100)) then fmt_f 1 (fl (n / Pi)) @ ''Pi''
        else if n < fl (Pi * fl (10235 / 10)) then fmt_f 0 (fl (n / Pi)) @ ''Pi''
        else if n < fl (Ei * fl (9995 / 1000)) then fmt_f 2 (fl (n / Ei)) @ ''Ei''
        else fmt_f 1 (fl (n / Ei)) @ ''Ei'')))"

section \<open>Lengths\<close>

lemma length_fmt_d_nonneg: "0 \<le> v \<Longrightarrow> v < 10 ^ Suc k \<Longrightarrow> length (fmt_d v) \<le> Suc k"
  using length_nat_str_le [of "nat v" k] by (simp add: fmt_d_def nat_less_iff)

lemma rne_nonneg: "0 \<le> x \<Longrightarrow> 0 \<le> rne x"
  using rne_ge [of 0 x] by simp

lemma length_fmt_f:
  assumes "0 \<le> x" "rne (x * 10 ^ k) < 10 ^ (k + Suc j)"
  shows "length (fmt_f k x) \<le> Suc j + (if k = 0 then 0 else Suc k)"
proof -
  let ?v = "rne (x * 10 ^ k)"
  have v: "0 \<le> ?v" using assms(1) by (intro rne_nonneg) simp
  have "?v div 10 ^ k < 10 ^ Suc j"
  proof (rule ccontr)
    assume "\<not> ?v div 10 ^ k < 10 ^ Suc j"
    then have "10 ^ Suc j * 10 ^ k \<le> ?v div 10 ^ k * 10 ^ k" by (intro mult_right_mono) simp_all
    also have "\<dots> \<le> ?v" by (simp flip: minus_mod_eq_div_mult)
    finally show False using assms(2) by (simp add: power_add ac_simps)
  qed
  with v have "length (fmt_d (?v div 10 ^ k)) \<le> Suc j"
    by (intro length_fmt_d_nonneg) (simp_all add: pos_imp_zdiv_nonneg_iff)
  moreover have "length (fmt_0wd k (?v mod 10 ^ k)) = k" if "0 < k"
    using that by (intro length_fmt_0wd [where k = "k - 1"]) simp_all
  ultimately show ?thesis by (auto simp: fmt_f_def Let_def)
qed

text \<open>Below \<open>B\<close> less than \<open>2 ^ 53\<close>, a quotient by \<open>U\<close> stays below the bound that \<open>B\<close> stands for.\<close>

lemma quotient_below:
  assumes "0 < s" "s < B" "B \<le> 9007199254740992" "0 < U"
  shows "fl (fl (of_int s) / of_int U) < of_int B / of_int U"
proof -
  let ?x = "of_int s / of_int U :: rat"
  have x: "0 < ?x" using assms by simp
  have "fl ?x * 9007199254740992 \<le> ?x * 9007199254740993" by (rule fl_upper [OF x])
  also have "?x * 9007199254740993 < of_int B / of_int U * 9007199254740992"
  proof -
    have "s \<le> B - 1" using assms(2) by simp
    then have "(of_int s :: rat) \<le> of_int (B - 1)" by (simp only: of_int_le_iff)
    then have "(of_int s :: rat) \<le> of_int B - 1" by simp
    moreover have "(of_int B :: rat) \<le> of_int 9007199254740992" using assms(3) by (simp only: of_int_le_iff)
    then have "(of_int B :: rat) \<le> 9007199254740992" by simp
    ultimately have "(of_int s :: rat) * 9007199254740993 < of_int B * 9007199254740992" by linarith
    then show ?thesis using assms(4) by (simp add: divide_strict_right_mono)
  qed
  finally have "fl ?x < of_int B / of_int U" by (rule mult_right_less_imp_less) simp
  moreover have "fl (of_int s) = (of_int s :: rat)" using assms by (intro fl_int) simp_all
  ultimately show ?thesis by simp
qed

lemma short_fmt_f:
  assumes "0 \<le> x" "x * 10 ^ k < 999 + 1 / 2" "k \<le> 2"
  shows "length (fmt_f k x) \<le> 4"
proof -
  have "rne (x * 10 ^ k) \<le> 999" using assms(2) by (intro rne_below) simp
  moreover have "k + Suc (2 - k) = 3" using assms(3) by simp
  ultimately show ?thesis using length_fmt_f [OF assms(1), of k "2 - k"] assms(3) by (auto split: if_splits)
qed

lemma short_quotient:
  assumes "0 < s" "s < B" "B \<le> 9007199254740992" "0 < U" "2 * B * 10 ^ k \<le> 1999 * U" "k \<le> 2"
  shows "length (fmt_f k (fl (fl (of_int s) / of_int U))) \<le> 4"
proof (rule short_fmt_f)
  show "0 \<le> fl (fl (of_int s) / of_int U)" using assms by (intro fl_nonneg divide_nonneg_nonneg) simp_all
  have "fl (fl (of_int s) / of_int U) * 10 ^ k < of_int B / of_int U * (10 ^ k :: rat)"
    using quotient_below [OF assms(1-4)] by (intro mult_strict_right_mono) simp_all
  also have "\<dots> = of_int (2 * B * 10 ^ k) / (2 * of_int U)" by simp
  also have "\<dots> \<le> of_int (1999 * U) / (2 * of_int U)"
    by (rule divide_right_mono, rule iffD2 [OF of_int_le_iff], rule assms(5)) (use assms(4) in simp)
  also have "\<dots> = 999 + 1 / 2" using assms(4) by simp
  finally show "fl (fl (of_int s) / of_int U) * 10 ^ k < 999 + 1 / 2" .
qed (rule assms(6))

text \<open>The values at the end of the range, where an integer is no longer exact.\<close>

lemma large_values:
  "fl 9995000000000000 = 9995000000000000"
  "fl 99950000000000000 = 99950000000000000"
  "fl 99949999999999992 = 99950000000000000"
  "fl 99949999999999991 = 99949999999999984"
  "fl 999500000000000000 = 999500000000000000"
  "fl 9223372036854775808 = 9223372036854775808"
  subgoal by (subst fl_at [of 53]) (simp_all add: rne_def Let_def floor_ratio)
  subgoal by (subst fl_at [of 56]) (simp_all add: rne_def Let_def floor_ratio)
  subgoal by (subst fl_at [of 56]) (simp_all add: rne_def Let_def floor_ratio)
  subgoal by (subst fl_at [of 56]) (simp_all add: rne_def Let_def floor_ratio)
  subgoal by (subst fl_at [of 59]) (simp_all add: rne_def Let_def floor_ratio)
  subgoal by (subst fl_at [of 63]) (simp_all add: rne_def Let_def floor_ratio)
  done

lemma small_values:
  "fl (1999 / 200) < 1999 / 200" "1999 / 20 < fl (1999 / 20)" "fl (1999 / 20) < 100" "fl (1999 / 2) = 1999 / 2"
  subgoal by (subst fl_at [of 3]) (simp_all add: rne_def Let_def floor_ratio power_int_minus)
  subgoal by (subst fl_at [of 6]) (simp_all add: rne_def Let_def floor_ratio power_int_minus)
  subgoal by (subst fl_at [of 6]) (simp_all add: rne_def Let_def floor_ratio power_int_minus)
  subgoal by (subst fl_at [of 9]) (simp_all add: rne_def Let_def floor_ratio power_int_minus)
  done

lemma SI_9995P:
  assumes "0 < s" "s < 9995000000000000"
  shows "length (fmt_f 2 (fl (fl (of_int s) / 1000000000000000))) \<le> 4"
proof (rule short_fmt_f)
  have s: "0 < (of_int s :: rat)" using assms(1) by simp
  have "fl (of_int s) \<le> fl (9995000000000000 :: rat)" using assms by (intro fl_mono [OF s]) simp
  then have "fl (of_int s) / 1000000000000000 \<le> (1999 / 200 :: rat)" by (simp add: large_values)
  moreover have "0 < fl (of_int s)" by (rule fl_positive [OF s])
  ultimately have "fl (fl (of_int s) / 1000000000000000) \<le> fl (1999 / 200)" by (intro fl_mono) simp_all
  with small_values(1) show "fl (fl (of_int s) / 1000000000000000) * 10 ^ 2 < 999 + 1 / 2" by simp
  show "0 \<le> fl (fl (of_int s) / 1000000000000000)" using s by (intro fl_nonneg divide_nonneg_nonneg) simp_all
qed simp

lemma SI_9995P':
  assumes "0 < s" "s < 99949999999999992"
  shows "length (fmt_f 1 (fl (fl (of_int s) / 1000000000000000))) \<le> 4"
proof (rule short_fmt_f)
  have s: "0 < (of_int s :: rat)" using assms(1) by simp
  have "fl (of_int s) \<le> fl (99949999999999991 :: rat)" using assms by (intro fl_mono [OF s]) simp
  then have "fl (of_int s) / 1000000000000000 \<le> (99949999999999984 / 1000000000000000 :: rat)" by (simp add: large_values)
  moreover have p: "0 < fl (of_int s)" by (rule fl_positive [OF s])
  ultimately have "fl (fl (of_int s) / 1000000000000000) \<le> fl (99949999999999984 / 1000000000000000)" by (intro fl_mono) simp_all
  with fl_upper [of "99949999999999984 / 1000000000000000"]
  show "fl (fl (of_int s) / 1000000000000000) * 10 ^ 1 < 999 + 1 / 2" by simp
  show "0 \<le> fl (fl (of_int s) / 1000000000000000)" using s by (intro fl_nonneg divide_nonneg_nonneg) simp_all
qed simp

lemma SI_six:
  assumes "99949999999999992 \<le> s" "s < 99950000000000000"
  shows "fl (of_int s) = 99950000000000000"
proof -
  have "fl 99949999999999992 \<le> fl (of_int s)" "fl (of_int s) \<le> fl (99950000000000000 :: rat)"
    using assms by (auto intro!: fl_mono)
  then show ?thesis by (simp add: large_values)
qed

lemma SI_six_text: "fmt_f 1 (fl (1999 / 20)) = ''100.0''"
proof -
  have "1000 \<le> rne (fl (1999 / 20) * 10)" using small_values(2) by (intro rne_above) simp
  moreover have "rne (fl (1999 / 20) * 10) \<le> 1000" using small_values(3) by (intro rne_le) simp
  ultimately have v: "rne (fl (1999 / 20) * 10) = 1000" by simp
  have "fmt_d 100 = ''100''" "fmt_0wd 1 0 = ''0''" by code_simp+
  with v show ?thesis by (simp add: fmt_f_def)
qed

lemma short_fmt_d: "0 \<le> s \<Longrightarrow> s < 10000 \<Longrightarrow> length (fmt_d s) \<le> 4"
  using length_fmt_d_nonneg [of s 3] by simp

lemma SI_999500P:
  assumes "0 < s" "s < 999500000000000000"
  shows "length (fmt_f 0 (fl (fl (of_int s) / 1000000000000000))) \<le> 4"
proof -
  have s: "0 < (of_int s :: rat)" using assms(1) by simp
  have "fl (of_int s) \<le> fl (999500000000000000 :: rat)" using assms by (intro fl_mono [OF s]) simp
  then have "fl (of_int s) / 1000000000000000 \<le> (1999 / 2 :: rat)" by (simp add: large_values)
  moreover have "0 < fl (of_int s)" by (rule fl_positive [OF s])
  ultimately have "fl (fl (of_int s) / 1000000000000000) \<le> fl (1999 / 2)" by (intro fl_mono) simp_all
  then have "rne (fl (fl (of_int s) / 1000000000000000)) \<le> 1000"
    using small_values(4) by (intro rne_le) simp
  moreover have "0 \<le> fl (fl (of_int s) / 1000000000000000)" using s by (intro fl_nonneg divide_nonneg_nonneg) simp_all
  ultimately show ?thesis using length_fmt_f [of _ 0 3] by simp
qed

lemma SI_rest:
  assumes "0 < s" "s < 9223372036854775808"
  shows "length (fmt_f 2 (fl (fl (of_int s) / 1000000000000000000))) \<le> 4"
proof (rule short_fmt_f)
  have s: "0 < (of_int s :: rat)" using assms(1) by simp
  have "fl (of_int s) \<le> fl (9223372036854775808 :: rat)" using assms by (intro fl_mono [OF s]) simp
  then have "fl (of_int s) / 1000000000000000000 \<le> (9223372036854775808 / 1000000000000000000 :: rat)"
    by (simp add: large_values)
  moreover have "0 < fl (of_int s)" by (rule fl_positive [OF s])
  ultimately have "fl (fl (of_int s) / 1000000000000000000) \<le> fl (9223372036854775808 / 1000000000000000000)"
    by (intro fl_mono) simp_all
  with fl_upper [of "9223372036854775808 / 1000000000000000000"]
  show "fl (fl (of_int s) / 1000000000000000000) * 10 ^ 2 < 999 + 1 / 2" by simp
  show "0 \<le> fl (fl (of_int s) / 1000000000000000000)" using s by (intro fl_nonneg divide_nonneg_nonneg) simp_all
qed simp

lemmas SI_exact =
  short_quotient [where U = 1000 and B = 9995 and k = 2, simplified]
  short_quotient [where U = 1000 and B = 99950 and k = 1, simplified]
  short_quotient [where U = 1000 and B = 999500 and k = 0, simplified]
  short_quotient [where U = 1000000 and B = 9995000 and k = 2, simplified]
  short_quotient [where U = 1000000 and B = 99950000 and k = 1, simplified]
  short_quotient [where U = 1000000 and B = 999500000 and k = 0, simplified]
  short_quotient [where U = 1000000000 and B = 9995000000 and k = 2, simplified]
  short_quotient [where U = 1000000000 and B = 99950000000 and k = 1, simplified]
  short_quotient [where U = 1000000000 and B = 999500000000 and k = 0, simplified]
  short_quotient [where U = 1000000000000 and B = 9995000000000 and k = 2, simplified]
  short_quotient [where U = 1000000000000 and B = 99950000000000 and k = 1, simplified]
  short_quotient [where U = 1000000000000 and B = 999500000000000 and k = 0, simplified]

lemma length_snprintf: "length (fst (snprintf n t)) \<le> length t"
  by (simp add: snprintf_def)

lemma length_if: "(b \<Longrightarrow> length x \<le> n) \<Longrightarrow> (\<not> b \<Longrightarrow> length y \<le> n) \<Longrightarrow> length (if b then x else y) \<le> n"
  by simp

lemma length_suffix: "length x \<le> 4 \<Longrightarrow> length (x @ [a]) \<le> 5" "length x \<le> 4 \<Longrightarrow> length (x @ [a, b]) \<le> 6"
  by simp_all

lemma formatSI_length:
  assumes "0 \<le> s" "s < 9223372036854775808" "\<not> (99949999999999992 \<le> s \<and> s < 99950000000000000)"
  shows "length (formatSI s) \<le> 5"
proof -
  have 1: "length (fmt_d s) \<le> 5" if "s < 1000" using short_fmt_d [of s] that assms(1) by simp
  show ?thesis
    unfolding formatSI_def Let_def
    by (rule order.trans [OF length_snprintf], (rule length_if length_suffix 1 | assumption)+)
      (use assms in \<open>auto intro!: SI_exact SI_9995P SI_9995P' [simplified] SI_999500P SI_rest\<close>)
qed

lemma IEC_units: "Ki = 2 powi 10" "Mi = 2 powi 20" "Gi = 2 powi 30" "Ti = 2 powi 40" "Pi = 2 powi 50" "Ei = 2 powi 60"
proof -
  have p: "2 powi k * 1024 = (2 powi (k + 10) :: rat)" for k using power_int_add [of "2 :: rat" k 10] by simp
  have k: "Ki = 2 powi 10" using fl_power [of 10] by (simp add: Ki_def)
  have m: "Mi = 2 powi 20" unfolding Mi_def k p fl_power by simp
  have g: "Gi = 2 powi 30" unfolding Gi_def m p fl_power by simp
  have t: "Ti = 2 powi 40" unfolding Ti_def g p fl_power by simp
  have u: "Pi = 2 powi 50" unfolding Pi_def t p fl_power by simp
  have e: "Ei = 2 powi 60" unfolding Ei_def u p fl_power by simp
  show "Ki = 2 powi 10" "Mi = 2 powi 20" "Gi = 2 powi 30" "Ti = 2 powi 40" "Pi = 2 powi 50" "Ei = 2 powi 60"
    by (fact k m g t u e)+
qed

lemma IEC_below:
  assumes "0 < n" "fl n = n" "n < fl (2 powi u * fl c)" "0 < c"
  shows "fl (n / 2 powi u) < c"
proof -
  have "fl (2 powi u * fl c) = fl c * 2 powi u"
    using fl_scale [OF fl_positive [OF assms(4)], of u] fl_idem [OF assms(4)] by (simp add: mult.commute)
  with assms(3) have "n / 2 powi u < fl c" by (simp add: pos_divide_less_eq)
  moreover have e: "fl (n / 2 powi u) = n / 2 powi u"
    using fl_scale [OF assms(1), of "- u"] assms(2) by (simp add: power_int_minus divide_inverse)
  ultimately show ?thesis using fl_below [of "n / 2 powi u" c] assms(1,4) by simp
qed

lemma IEC_branch:
  assumes "0 < n" "fl n = n" "n < fl (2 powi u * fl c)" "0 < c" "c * 10 ^ k \<le> 999 + 1 / 2" "k \<le> 2"
  shows "length (fmt_f k (fl (n / 2 powi u))) \<le> 4"
proof (rule short_fmt_f)
  have "fl (n / 2 powi u) * 10 ^ k < c * 10 ^ k"
    using IEC_below [OF assms(1-4)] by (intro mult_strict_right_mono) simp_all
  with assms(5) show "fl (n / 2 powi u) * 10 ^ k < 999 + 1 / 2" by linarith
  show "0 \<le> fl (n / 2 powi u)" using assms(1) by (intro fl_nonneg) simp
qed (rule assms(6))

lemma IEC_whole:
  assumes "0 < n" "fl n = n" "n < fl (2 powi u * fl (10235 / 10))"
  shows "length (fmt_f 0 (fl (n / 2 powi u))) \<le> 4"
proof -
  have "fl (n / 2 powi u) < of_int 1023 + 1 / 2" using IEC_below [OF assms] by simp
  then have "rne (fl (n / 2 powi u)) \<le> 1023" by (rule rne_below)
  moreover have "0 \<le> fl (n / 2 powi u)" using assms(1) by (intro fl_nonneg) simp
  ultimately show ?thesis using length_fmt_f [of _ 0 3] by simp
qed

lemma IEC_last:
  assumes "0 < n" "n \<le> 9223372036854775808"
  shows "length (fmt_f 1 (fl (n / 2 powi 60))) \<le> 4"
proof (rule short_fmt_f)
  have "n / 2 powi 60 \<le> 8" using assms(2) by simp
  then have "fl (n / 2 powi 60) \<le> fl 8" using assms(1) by (intro fl_mono) simp_all
  also have "fl 8 = 8" using fl_power [of 3] by simp
  finally show "fl (n / 2 powi 60) * 10 ^ 1 < 999 + 1 / 2" by simp
  show "0 \<le> fl (n / 2 powi 60)" using assms(1) by (intro fl_nonneg) simp
qed simp

lemma formatIEC_length:
  assumes "0 \<le> s" "s < 9223372036854775808"
  shows "length (formatIEC s) \<le> 6"
proof (cases "s = 0")
  case True
  have "fl (of_int s) < Ki" using True by (simp add: IEC_units)
  then have "formatIEC s = fst (snprintf 64 (fmt_d s))" by (simp only: formatIEC_def Let_def if_True)
  also have "fmt_d s = ''0''" unfolding True by code_simp
  finally show ?thesis by (simp add: snprintf_def)
next
  case False
  with assms(1) have s: "0 < (of_int s :: rat)" by simp
  define n :: rat where "n = fl (of_int s)"
  have n: "0 < n" "fl n = n" using s by (simp_all add: n_def fl_positive fl_idem)
  have "n \<le> fl 9223372036854775808" unfolding n_def using assms(2) by (intro fl_mono [OF s]) simp
  then have m: "n \<le> 9223372036854775808" by (simp add: large_values)
  have d: "length (fmt_d s) \<le> 6" if "n < 2 powi 10"
  proof (rule ccontr)
    assume "\<not> length (fmt_d s) \<le> 6"
    then have "1024 \<le> s" using short_fmt_d [of s] assms(1) by force
    then have "fl (2 powi 10) \<le> n" unfolding n_def by (intro fl_mono) simp_all
    with that show False by (simp only: fl_power)
  qed
  have b: "length (fmt_f 2 (fl (n / 2 powi u))) \<le> 4" if "n < fl (2 powi u * fl (9995 / 1000))" for u
    by (rule IEC_branch [OF n that]) simp_all
  have c: "length (fmt_f 1 (fl (n / 2 powi u))) \<le> 4" if "n < fl (2 powi u * fl (9995 / 100))" for u
    by (rule IEC_branch [OF n that]) simp_all
  show ?thesis
    unfolding formatIEC_def Let_def IEC_units n_def [symmetric]
    by (rule order.trans [OF length_snprintf],
        (rule length_if length_suffix d b c IEC_whole [OF n] IEC_last [OF n(1) m] | assumption)+)
qed

section \<open>Properties\<close>

text \<open>
  The texts of quantities keep the lengths their comments promise, but for eight numbers:
  \<open>formatIEC\<close> never gives more than 6 characters, and \<open>formatSI\<close> at most 5 except from
  99949999999999992 to 99949999999999999, where it gives the 6 characters of ''100.0P'': these
  integers round up to 99950000000000000 as a \<open>double\<close> after the comparison with the exact bound.
\<close>

theorem unit_texts_short:
  assumes "0 \<le> s" "s < 2 ^ 63"
  shows "length (formatIEC s) \<le> 6
    \<and> (if 99949999999999992 \<le> s \<and> s < 99950000000000000 then formatSI s = ''100.0P'' else length (formatSI s) \<le> 5)"
proof (cases "99949999999999992 \<le> s \<and> s < 99950000000000000")
  case True
  then have "formatSI s = ''100.0P''"
    by (simp add: formatSI_def Let_def SI_six SI_six_text [simplified] snprintf_def)
  with True formatIEC_length assms show ?thesis by simp
next
  case False
  have "length (formatIEC s) \<le> 6" using formatIEC_length assms by simp
  moreover have "length (formatSI s) \<le> 5" by (rule formatSI_length) (use assms False in simp_all)
  ultimately show ?thesis unfolding if_not_P [OF False] by (rule conjI)
qed

lemma unit_texts_short_witness:
  "formatSI 99949999999999999 = ''100.0P'' \<and> length (formatSI 9994) \<le> 5 \<and> length (formatIEC 1048575) \<le> 6"
  using unit_texts_short [of 99949999999999999] unit_texts_short [of 9994] unit_texts_short [of 1048575] by simp

end
