(* ===== verification/SecondsMath.thy ===== *)
theory SecondsMath
  imports TimeStamps Doubles
begin

text \<open>
  The two functions of \<open>src/src/base/TimeStamp.h\<close> that go through seconds as a \<open>double\<close>:
  \<open>timeDifference\<close> and \<open>addTime\<close>, which all delays of the timers pass through.
\<close>

section \<open>Translation\<close>

text \<open>The conversion to an integer cuts off towards zero.\<close>

definition trunc :: "rat \<Rightarrow> int" where
  "trunc x = (if 0 \<le> x then \<lfloor>x\<rfloor> else \<lceil>x\<rceil>)"

definition timeDifference :: "TimeStamp \<Rightarrow> TimeStamp \<Rightarrow> rat" where
  "timeDifference high low =
     (let diff = microSecondsSinceEpoch high - microSecondsSinceEpoch low
      in fl (fl (of_int diff) / of_int kMicroSecondsPerSecond))"

definition addSeconds :: "TimeStamp \<Rightarrow> rat \<Rightarrow> TimeStamp" where
  "addSeconds timeStamp seconds = addTime timeStamp (trunc (fl (seconds * of_int kMicroSecondsPerSecond)))"

section \<open>Lemmas\<close>

lemma fl_lower: "0 < x \<Longrightarrow> x * 9007199254740991 \<le> fl x * 9007199254740992"
proof -
  assume x: "0 < x"
  have "(x - fl x) * 9007199254740992 \<le> \<bar>fl x - x\<bar> * 9007199254740992" by (intro mult_right_mono) simp_all
  also have "\<dots> \<le> x" by (rule fl_error [OF x])
  finally show ?thesis unfolding left_diff_distrib by linarith
qed

lemma scaled_back:
  assumes "0 < d" "d < 1125899906842624"
  shows "fl (fl (fl (of_int d) / 1000000) * 1000000) < of_int d + 1"
    and "of_int d - 1 \<le> fl (fl (fl (of_int d) / 1000000) * 1000000)"
proof -
  define D :: rat where "D = of_int d"
  have D: "0 < D" "fl D = D" using assms by (simp_all add: D_def fl_int)
  have "D < of_int 1125899906842624" using assms(2) unfolding D_def by (simp only: of_int_less_iff)
  then have D50: "D < 1125899906842624" by simp
  define x where "x = fl (D / 1000000)"
  have "0 < D / 1000000" using D(1) by simp
  from fl_upper [OF this] fl_lower [OF this] fl_positive [OF this]
  have x: "x * 1000000 * 9007199254740992 \<le> D * 9007199254740993"
    "D * 9007199254740991 \<le> x * 1000000 * 9007199254740992" "0 < x * 1000000" by (simp_all add: x_def)
  define y where "y = fl (x * 1000000)"
  from fl_upper [OF x(3)] fl_lower [OF x(3)] have y: "y * 9007199254740992 \<le> x * 1000000 * 9007199254740993"
    "x * 1000000 * 9007199254740991 \<le> y * 9007199254740992" by (simp_all add: y_def)
  have "y < D + 1" using x y D50 by linarith
  then show "fl (fl (fl (of_int d) / 1000000) * 1000000) < of_int d + 1" unfolding D(2) x_def [symmetric] y_def [symmetric] D_def [symmetric] .
  have "D - 1 \<le> y" using x y D50 by linarith
  then show "of_int d - 1 \<le> fl (fl (fl (of_int d) / 1000000) * 1000000)" unfolding D(2) x_def [symmetric] y_def [symmetric] D_def [symmetric] .
qed

lemma difference_text: "timeDifference (ts_of (a + d)) (ts_of a) = fl (fl (of_int d) / 1000000)"
  by (simp add: timeDifference_def ts_of_def kMicroSecondsPerSecond_def)

lemma add_difference_eq: "addSeconds (ts_of a) (timeDifference (ts_of (a + d)) (ts_of a))
    = ts_of (a + trunc (fl (fl (fl (of_int d) / 1000000) * 1000000)))"
  unfolding difference_text by (simp add: addSeconds_def addTime_def ts_of_def kMicroSecondsPerSecond_def)

section \<open>Properties\<close>

text \<open>
  C27. Adding the difference of two times, in seconds as a \<open>double\<close>, to the earlier one gives the later
  one or the microsecond before it, for differences up to 35 years (\<open>2 ^ 50\<close> microseconds): the two
  roundings cannot lose more, but the conversion to an integer cuts off, so one can be lost.
\<close>

theorem add_difference_close:
  assumes "0 \<le> d" "d < 2 ^ 50"
  shows "addSeconds (ts_of a) (timeDifference (ts_of (a + d)) (ts_of a)) \<in> {ts_of (a + d - 1), ts_of (a + d)}"
proof (cases "d = 0")
  case True
  then show ?thesis unfolding add_difference_eq by (simp add: trunc_def)
next
  case False
  let ?y = "fl (fl (fl (of_int d) / 1000000) * 1000000)"
  have y: "?y < of_int d + 1" "of_int d - 1 \<le> ?y" using scaled_back [of d] False assms by simp_all
  moreover have "0 \<le> of_int d - (1 :: rat)" using False assms(1) by simp
  ultimately have "trunc ?y = \<lfloor>?y\<rfloor>" by (simp add: trunc_def)
  moreover have "\<lfloor>?y\<rfloor> = d - 1 \<or> \<lfloor>?y\<rfloor> = d" using y by linarith
  ultimately have "trunc ?y = d - 1 \<or> trunc ?y = d" by simp
  then show ?thesis unfolding add_difference_eq by (elim disjE) (simp_all add: add_diff_eq)
qed

lemma lost_microsecond:
  "addSeconds (ts_of a) (timeDifference (ts_of (a + 249)) (ts_of a)) = ts_of (a + 248)"
proof -
  have "fl 249 = (249 :: rat)" using fl_int [of 249] by simp
  moreover have x: "fl (249 / 1000000) = 4593239274353678 / 18446744073709551616"
    by (subst fl_at [of "- 12"]) (simp_all add: rne_def Let_def floor_ratio power_int_minus)
  moreover have y: "fl (4593239274353678 / 18446744073709551616 * 1000000) = 8760908650119167 / 35184372088832"
    by (subst fl_at [of 7]) (simp_all add: rne_def Let_def floor_ratio power_int_minus)
  have "trunc (8760908650119167 / 35184372088832) = 248" by (simp add: trunc_def floor_ratio)
  with x y have "trunc (fl (fl (249 / 1000000) * 1000000)) = 248" by (simp only:)
  ultimately show ?thesis unfolding add_difference_eq by simp
qed

lemma add_difference_close_witness:
  "addSeconds (ts_of 5) (timeDifference (ts_of 254) (ts_of 5)) \<in> {ts_of 253, ts_of 254}"
  using add_difference_close [of 249 5] by simp

end
