(* ===== verification/LoopLives.thy ===== *)
theory LoopLives
  imports EventLoops TimerQueues
begin

text \<open>
  The life of a loop: \<open>src/src/net/EventLoopThread.h\<close> and \<open>EventLoopThread.cc\<close>, and the
  constructors and destructors of \<open>EventLoop\<close> and \<open>TimerQueue\<close> with their channels. The thread
  that calls \<open>startLoop\<close> and the thread that runs the loop share \<open>m_loop\<close> under a mutex; the parts
  that hold it are one step each.
\<close>

section \<open>Constructing and destroying a loop\<close>

text \<open>The system call answers with a descriptor or a negative number.\<close>

definition createEventFd :: "int \<Rightarrow> int res" where
  "createEventFd answer = (if answer < 0 then Inl Fatal_log else Inr answer)"

definition createTimerFd :: "int \<Rightarrow> int res" where
  "createTimerFd answer = (if answer < 0 then Inl Fatal_log else Inr answer)"

text \<open>\<open>a\<close> is the address of \<open>m_timerFdChannel\<close>, \<open>p\<close> the poller of the loop.\<close>

definition construct_TimerQueue :: "int \<Rightarrow> nat \<Rightarrow> nat \<Rightarrow> int \<Rightarrow> poller \<Rightarrow> (timer_queue \<times> poller) res" where
  "construct_TimerQueue answer a read_cb now p =
     bindR (createTimerFd answer) (\<lambda>fd.
     bindR (enableRead a (put_channel a (setReadCb read_cb (new_channel fd)) p)) (\<lambda>p.
     Inr (new_timer_queue now, p)))"

text \<open>The members in the order of their declaration: channel, poller, timer queue; then the body.\<close>

definition construct_EventLoop ::
  "bool \<Rightarrow> int \<Rightarrow> int \<Rightarrow> nat \<Rightarrow> nat \<Rightarrow> nat \<Rightarrow> nat \<Rightarrow> int \<Rightarrow> (event_loop \<times> timer_queue) res" where
  "construct_EventLoop t_thisThreadOwnALoop event_answer timer_answer aw at wake_cb timer_cb now =
     bindR (createEventFd event_answer) (\<lambda>fd.
     let p = put_channel aw (new_channel fd) new_EpollPoller
     in bindR (construct_TimerQueue timer_answer at timer_cb now p) (\<lambda>(q, p).
        if t_thisThreadOwnALoop then Inl Fatal_log
        else
          bindR (get_channel aw p) (\<lambda>c.
          bindR (enableRead aw (put_channel aw (setReadCb wake_cb c) p)) (\<lambda>p.
          Inr (new_event_loop\<lparr>m_uPtrPoller := p\<rparr>, q)))))"

text \<open>\<open>disableAll\<close>, then \<open>remove\<close> through the loop, as all destructors that own a channel do.\<close>

definition channel_leave :: "bool \<Rightarrow> nat \<Rightarrow> event_loop \<Rightarrow> event_loop res" where
  "channel_leave inLoop a l =
     bindR (disableAll a (m_uPtrPoller l)) (\<lambda>p.
     bindR (get_channel a p) (\<lambda>c.
     assertR (isNoneEvent c)
       (el_removeChannel inLoop a (l\<lparr>m_uPtrPoller := put_channel a (c\<lparr>ch_addedToLoop := False\<rparr>) p\<rparr>))))"

definition delete_TimerQueue :: "bool \<Rightarrow> nat \<Rightarrow> timer_queue \<Rightarrow> event_loop \<Rightarrow> (timer_queue \<times> event_loop) res" where
  "delete_TimerQueue inLoop at q l =
     bindR (channel_leave inLoop at l) (\<lambda>l. Inr (fold free_timer (map snd (m_timeList q)) q, l))"

text \<open>The body of the destructor, then the member \<open>m_timeQueue\<close>.\<close>

definition delete_EventLoop :: "bool \<Rightarrow> nat \<Rightarrow> nat \<Rightarrow> timer_queue \<Rightarrow> event_loop \<Rightarrow> (timer_queue \<times> event_loop) res" where
  "delete_EventLoop inLoop aw at q l =
     bindR (channel_leave inLoop aw l) (delete_TimerQueue inLoop at q)"

section \<open>The thread of a loop\<close>

text \<open>Where the two threads are.\<close>

datatype caller =
    Not_called
  | Testing           \<comment> \<open>about to lock and test \<open>m_loop\<close>\<close>
  | Sleeping          \<comment> \<open>in \<open>m_cond.wait\<close>\<close>
  | Leaving           \<comment> \<open>the lock given back, about to read \<open>m_loop\<close> for the result\<close>
  | Returned "nat option"

datatype runner = No_thread | Starting | Looping | Ended

record loop_thread =
  lt_loop :: "nat option"
  lt_isExisting :: bool
  lt_loopThread :: bool
  lt_caller :: caller
  lt_runner :: runner

definition new_loop_thread :: loop_thread where
  "new_loop_thread = \<lparr>lt_loop = None, lt_isExisting = False, lt_loopThread = False, lt_caller = Not_called,
     lt_runner = No_thread\<rparr>"

text \<open>\<open>startLoop\<close>: make the thread, test under the lock, read the result.\<close>

definition startLoop_make :: "loop_thread \<Rightarrow> loop_thread" where
  "startLoop_make s = s\<lparr>lt_loopThread := True, lt_caller := Testing, lt_runner := Starting\<rparr>"

definition startLoop_test :: "loop_thread \<Rightarrow> loop_thread" where
  "startLoop_test s = (if lt_loop s = None then s\<lparr>lt_caller := Sleeping\<rparr> else s\<lparr>lt_caller := Leaving\<rparr>)"

definition startLoop_result :: "loop_thread \<Rightarrow> loop_thread" where
  "startLoop_result s = s\<lparr>lt_caller := Returned (lt_loop s)\<rparr>"

text \<open>\<open>threadFunc\<close>: publish the loop \<open>l\<close> of this thread, and clear the pointer after \<open>loop\<close> returns.
  After that the thread leaves the scope of its \<open>EventLoop\<close>, so \<open>delete_EventLoop\<close> runs, which fails.\<close>

definition threadFunc_publish :: "nat \<Rightarrow> loop_thread \<Rightarrow> loop_thread" where
  "threadFunc_publish l s =
     (let s = s\<lparr>lt_loop := Some l, lt_runner := Looping\<rparr>
      in if lt_caller s = Sleeping then s\<lparr>lt_caller := Testing\<rparr> else s)"

definition threadFunc_end :: "loop_thread \<Rightarrow> loop_thread" where
  "threadFunc_end s = s\<lparr>lt_loop := None, lt_runner := Ended\<rparr>"

inductive lt_step :: "nat \<Rightarrow> loop_thread \<Rightarrow> loop_thread \<Rightarrow> bool" for l where
  lt_make: "lt_caller s = Not_called \<Longrightarrow> lt_step l s (startLoop_make s)"
| lt_test: "lt_caller s = Testing \<Longrightarrow> lt_step l s (startLoop_test s)"
| lt_wake: "lt_caller s = Sleeping \<Longrightarrow> lt_step l s (s\<lparr>lt_caller := Testing\<rparr>)"
| lt_result: "lt_caller s = Leaving \<Longrightarrow> lt_step l s (startLoop_result s)"
| lt_publish: "lt_runner s = Starting \<Longrightarrow> lt_step l s (threadFunc_publish l s)"
| lt_end: "lt_runner s = Looping \<Longrightarrow> lt_step l s (threadFunc_end s)"

inductive_cases lt_stepE: "lt_step l s t"

text \<open>
  The destructor: it calls \<open>quit\<close> through a null pointer when there is no loop, and otherwise lets the
  member \<open>m_loopThread\<close> destroy a thread that nobody has joined.
\<close>

definition delete_EventLoopThread :: "loop_thread \<Rightarrow> loop_thread res" where
  "delete_EventLoopThread s =
     (let s = s\<lparr>lt_isExisting := True\<rparr>
      in if lt_loop s = None then Inl Null_deref
         else if lt_loopThread s then Inl Terminate else Inr s)"

text \<open>A pool destroys its threads.\<close>

definition delete_pool :: "loop_thread list \<Rightarrow> unit res" where
  "delete_pool ts = foldR (\<lambda>t _. bindR (delete_EventLoopThread t) (\<lambda>_. Inr ())) ts ()"

section \<open>The handshake\<close>

definition lt_inv :: "nat \<Rightarrow> loop_thread \<Rightarrow> bool" where
  "lt_inv l s \<longleftrightarrow> lt_loop s = (if lt_runner s = Looping then Some l else None)
     \<and> (lt_caller s = Not_called \<longleftrightarrow> lt_runner s = No_thread)
     \<and> (lt_loopThread s \<longleftrightarrow> lt_runner s \<noteq> No_thread)
     \<and> (lt_caller s = Sleeping \<longrightarrow> lt_runner s = Starting \<or> lt_runner s = Ended)
     \<and> (lt_caller s = Leaving \<longrightarrow> lt_runner s = Looping \<or> lt_runner s = Ended)
     \<and> (\<forall>r. lt_caller s = Returned r \<longrightarrow> (lt_runner s = Looping \<or> lt_runner s = Ended)
          \<and> (r = Some l \<or> r = None \<and> lt_runner s = Ended))"

lemma lt_inv_new: "lt_inv l new_loop_thread"
  by (simp add: lt_inv_def new_loop_thread_def)

lemma lt_inv_step: "lt_step l s t \<Longrightarrow> lt_inv l s \<Longrightarrow> lt_inv l t"
  by (cases "lt_runner s"; erule lt_stepE)
    (auto simp: lt_inv_def startLoop_make_def startLoop_test_def startLoop_result_def threadFunc_publish_def
      threadFunc_end_def Let_def split: if_splits)

interpretation handshake: state_invariant "\<lambda>s. s = new_loop_thread" "lt_step l" "lt_inv l" for l
  by unfold_locales (auto intro: lt_inv_new lt_inv_step)


definition lt_reachable :: "nat \<Rightarrow> loop_thread \<Rightarrow> bool" where
  "lt_reachable l = reachable (\<lambda>s. s = new_loop_thread) (lt_step l)"

lemma lt_reachable_inv: "lt_reachable l s \<Longrightarrow> lt_inv l s"
  unfolding lt_reachable_def by (rule handshake.inv_reachable)

text \<open>
  Two runs in which the loop ends before \<open>startLoop\<close> is through: it returns a null pointer, or it
  sleeps with nobody left to wake it.
\<close>

lemma start_loop_races:
  "\<exists>s. lt_reachable l s \<and> lt_caller s = Returned None"
  "\<exists>s. lt_reachable l s \<and> lt_caller s = Sleeping \<and> lt_runner s = Ended"
proof -
  define s0 where "s0 = startLoop_make new_loop_thread"
  define s1 where "s1 = threadFunc_publish l s0"
  note d = s0_def s1_def startLoop_make_def new_loop_thread_def threadFunc_publish_def threadFunc_end_def
    startLoop_test_def startLoop_result_def
  have b: "lt_step l new_loop_thread s0" "lt_step l s0 s1" unfolding s0_def s1_def
    by (rule lt_make lt_publish, simp add: d)+
  have n: "lt_reachable l s \<Longrightarrow> lt_step l s t \<Longrightarrow> lt_reachable l t" for s t
    unfolding lt_reachable_def by (rule reachable_step)
  have "lt_reachable l new_loop_thread" unfolding lt_reachable_def by (rule reachable_init) simp
  from n [OF n [OF this b(1)] b(2)] have r: "lt_reachable l s1" .
  have "lt_reachable l (startLoop_result (threadFunc_end (startLoop_test s1)))"
    by (intro n [OF n [OF n [OF r lt_test] lt_end] lt_result]) (simp_all add: d)
  moreover have "lt_caller (startLoop_result (threadFunc_end (startLoop_test s1))) = Returned None" by (simp add: d)
  ultimately show "\<exists>s. lt_reachable l s \<and> lt_caller s = Returned None" by blast
  have "lt_reachable l (startLoop_test (threadFunc_end s1))"
    by (intro n [OF n [OF r lt_end] lt_test]) (simp_all add: d)
  moreover have "lt_caller (startLoop_test (threadFunc_end s1)) = Sleeping"
    "lt_runner (startLoop_test (threadFunc_end s1)) = Ended" by (simp_all add: d)
  ultimately show "\<exists>s. lt_reachable l s \<and> lt_caller s = Sleeping \<and> lt_runner s = Ended" by blast
qed

section \<open>Taking a loop down\<close>

lemma disableAll_remembers:
  assumes "wf_poller p" "usable a p" "chans p a = Some c" "ch_idxs c = KADDED"
  obtains q where "disableAll a p = Inr q" "chans q a = Some (c\<lparr>ch_events := 0, ch_idxs := KDEL\<rparr>)"
  using set_events_eq [OF assms(1-3) refl, of "\<lambda>_. 0"] assms(4) that
  by (simp add: disableAll_def KNoneEvent_def)

lemma watched_added:
  assumes "wf_poller p" "watched_events p a \<noteq> 0"
  obtains c where "chans p a = Some c" "ch_idxs c = KADDED"
proof -
  from assms(2) obtain c e where c: "chans p a = Some c" "epoll_set p (ch_fd c) = Some (e, a)"
    by (auto simp: watched_events_def split: option.splits if_splits)
  from wf_poller_epoll [OF assms(1) c(2)] c(1) that show ?thesis by auto
qed

lemma channel_leave_fails:
  assumes "wf_poller (m_uPtrPoller l)" "usable a (m_uPtrPoller l)" "watched_events (m_uPtrPoller l) a \<noteq> 0"
  shows "channel_leave inLoop a l = Inl (if inLoop then Assert_failed else Fatal_log)"
proof -
  from watched_added [OF assms(1,3)] obtain c where c: "chans (m_uPtrPoller l) a = Some c" "ch_idxs c = KADDED" .
  from disableAll_remembers [OF assms(1,2) c] obtain q where
    "disableAll a (m_uPtrPoller l) = Inr q" "chans q a = Some (c\<lparr>ch_events := 0, ch_idxs := KDEL\<rparr>)" .
  then show ?thesis
    by (simp add: channel_leave_def get_channel_def isNoneEvent_def KNoneEvent_def el_removeChannel_def
        assertInLoopThread_def removeChannel_def put_channel_def assertR_def k_defs Let_def)
qed

lemma construct_EventLoop_ok:
  assumes "0 \<le> fd" "0 \<le> tfd" "fd \<noteq> tfd" "aw \<noteq> at"
  obtains l q where "construct_EventLoop False fd tfd aw at wake_cb timer_cb now = Inr (l, q)"
    "wf_poller (m_uPtrPoller l)" "usable aw (m_uPtrPoller l)" "usable at (m_uPtrPoller l)"
    "watched_events (m_uPtrPoller l) aw = 3" "watched_events (m_uPtrPoller l) at = 3"
proof -
  define P where "P = new_EpollPoller\<lparr>chans := [aw \<mapsto> (new_channel fd)\<lparr>ch_events := 3, ch_idxs := KADDED, ch_readCb := Some wake_cb\<rparr>,
      at \<mapsto> (new_channel tfd)\<lparr>ch_events := 3, ch_idxs := KADDED, ch_readCb := Some timer_cb\<rparr>],
    m_mapFdToChannel := [tfd \<mapsto> at, fd \<mapsto> aw], epoll_set := [tfd \<mapsto> (3, at), fd \<mapsto> (3, aw)]\<rparr>"
  have "construct_EventLoop False fd tfd aw at wake_cb timer_cb now =
      Inr (new_event_loop\<lparr>m_uPtrPoller := P\<rparr>, new_timer_queue now)"
    using assms by (simp add: construct_EventLoop_def construct_TimerQueue_def createEventFd_def createTimerFd_def
        put_channel_def get_channel_def enableRead_def set_events_def channel_update_def updateChannel_def new_channel_def
        new_EpollPoller_def setReadCb_def setIdxs_def epoll_update_def read_mask k_defs P_def Let_def fun_upd_twist)
  moreover have "wf_poller P" "usable aw P" "usable at P" "watched_events P aw = 3" "watched_events P at = 3"
    using assms by (auto simp: wf_poller_def P_def new_EpollPoller_def new_channel_def usable_def k_defs
        watched_events_def split: if_splits)
  ultimately show thesis using that by simp
qed

lemma delete_EventLoopThread_fails:
  "lt_inv l s \<Longrightarrow> delete_EventLoopThread s = Inl (if lt_runner s = Looping then Terminate else Null_deref)"
  by (auto simp: lt_inv_def delete_EventLoopThread_def Let_def)

section \<open>Properties\<close>

text \<open>
  C6. \<open>startLoop\<close> gives the loop of its thread, in every interleaving with that thread: while the loop
  runs the caller is never asleep (no notification is lost, also with spurious wake-ups) and its
  next two steps return the pointer to the loop; it sleeps only before the loop is published or
  after it ended; and it returns nothing but that pointer, or null when the loop has ended already.
\<close>

theorem start_loop_handshake:
  assumes "lt_reachable l s"
  shows "(lt_runner s = Looping \<longrightarrow> lt_caller s \<noteq> Sleeping
      \<and> (lt_caller s = Testing \<longrightarrow> lt_caller (startLoop_test s) = Leaving
           \<and> lt_caller (startLoop_result (startLoop_test s)) = Returned (Some l))
      \<and> (lt_caller s = Leaving \<longrightarrow> lt_caller (startLoop_result s) = Returned (Some l)))
    \<and> (lt_caller s = Sleeping \<longrightarrow> lt_runner s = Starting \<or> lt_runner s = Ended)
    \<and> (\<forall>r. lt_caller s = Returned r \<longrightarrow> r = Some l \<or> r = None \<and> lt_runner s = Ended)"
  using lt_reachable_inv [OF assms] by (auto simp: lt_inv_def startLoop_test_def startLoop_result_def)

lemma sleeping_run:
  "lt_reachable 7 (threadFunc_publish 7 (startLoop_test (startLoop_make new_loop_thread)))"
proof -
  have n: "lt_reachable 7 s \<Longrightarrow> lt_step 7 s t \<Longrightarrow> lt_reachable 7 t" for s t
    unfolding lt_reachable_def by (rule reachable_step)
  have "lt_reachable 7 new_loop_thread" unfolding lt_reachable_def by (rule reachable_init) simp
  then show ?thesis
    by (intro n [OF n [OF n [OF _ lt_make] lt_test] lt_publish])
      (simp_all add: new_loop_thread_def startLoop_make_def startLoop_test_def)
qed

lemma start_loop_handshake_witness:
  "let s = threadFunc_publish 7 (startLoop_test (startLoop_make new_loop_thread))
   in lt_caller s = Testing \<and> lt_caller (startLoop_result (startLoop_test s)) = Returned (Some 7)"
  using start_loop_handshake [OF sleeping_run]
  by (simp add: new_loop_thread_def startLoop_make_def startLoop_test_def threadFunc_publish_def startLoop_result_def)

text \<open>
  C12. A loop cannot be destroyed. The constructor leaves the wake-up and the timer channel watched for
  reading by the kernel, and as long as the wake-up channel is watched the destructor of the loop fails:
  \<open>disableAll\<close> marks the channel as deleted and \<open>removeChannel\<close> asserts that it is not (from another
  thread it is the fatal log of the thread check). Whatever the two threads of an
  \<open>EventLoopThread\<close> have done, its destructor fails too: it calls \<open>quit\<close> through a null pointer, or
  destroys a thread that is still joinable; so does that of a pool with at least one thread.
\<close>

theorem loop_destruction_fails:
  assumes "0 \<le> fd" "0 \<le> tfd" "fd \<noteq> tfd" "aw \<noteq> at"
  shows "(\<exists>l q. construct_EventLoop False fd tfd aw at wake_cb timer_cb now = Inr (l, q)
      \<and> watched_events (m_uPtrPoller l) aw = KReadEvent \<and> watched_events (m_uPtrPoller l) at = KReadEvent
      \<and> delete_EventLoop True aw at q l = Inl Assert_failed
      \<and> (\<forall>l'. wf_poller (m_uPtrPoller l') \<and> usable aw (m_uPtrPoller l') \<and> watched_events (m_uPtrPoller l') aw \<noteq> 0
           \<longrightarrow> delete_EventLoop inLoop aw at q l' = Inl (if inLoop then Assert_failed else Fatal_log)))
    \<and> (\<forall>l s. lt_reachable l s \<longrightarrow> delete_EventLoopThread s = Inl (if lt_runner s = Looping then Terminate else Null_deref)
         \<and> \<not> isOk (delete_pool (s # ss)))"
proof (intro conjI)
  obtain l q where l: "construct_EventLoop False fd tfd aw at wake_cb timer_cb now = Inr (l, q)"
    "wf_poller (m_uPtrPoller l)" "usable aw (m_uPtrPoller l)" "watched_events (m_uPtrPoller l) aw = 3"
    "watched_events (m_uPtrPoller l) at = 3"
    using construct_EventLoop_ok [OF assms] by metis
  have "delete_EventLoop b aw at q l' = Inl (if b then Assert_failed else Fatal_log)"
    if "wf_poller (m_uPtrPoller l')" "usable aw (m_uPtrPoller l')" "watched_events (m_uPtrPoller l') aw \<noteq> 0" for b l'
    using channel_leave_fails [OF that] by (simp add: delete_EventLoop_def)
  with l show "\<exists>l q. construct_EventLoop False fd tfd aw at wake_cb timer_cb now = Inr (l, q)
      \<and> watched_events (m_uPtrPoller l) aw = KReadEvent \<and> watched_events (m_uPtrPoller l) at = KReadEvent
      \<and> delete_EventLoop True aw at q l = Inl Assert_failed
      \<and> (\<forall>l'. wf_poller (m_uPtrPoller l') \<and> usable aw (m_uPtrPoller l') \<and> watched_events (m_uPtrPoller l') aw \<noteq> 0
           \<longrightarrow> delete_EventLoop inLoop aw at q l' = Inl (if inLoop then Assert_failed else Fatal_log))"
    by (intro exI [of _ l] exI [of _ q]) (simp add: read_mask)
  show "\<forall>l s. lt_reachable l s \<longrightarrow> delete_EventLoopThread s = Inl (if lt_runner s = Looping then Terminate else Null_deref)
         \<and> \<not> isOk (delete_pool (s # ss))"
    using delete_EventLoopThread_fails [OF lt_reachable_inv] by (auto simp: delete_pool_def)
qed

lemma loop_destruction_fails_witness:
  "(\<exists>l q. construct_EventLoop False 5 6 1 2 10 11 0 = Inr (l, q) \<and> delete_EventLoop True 1 2 q l = Inl Assert_failed)
    \<and> delete_EventLoopThread (threadFunc_publish 7 (startLoop_test (startLoop_make new_loop_thread))) = Inl Terminate"
  using loop_destruction_fails [of 5 6 1 2 10 11 0 True "[]"] sleeping_run
  by (auto simp: threadFunc_publish_def Let_def)

end
