(* ===== verification/Sockets.thy ===== *)
theory Sockets
  imports Servers
begin

text \<open>
  \<open>src/src/net/Sockets.h\<close> and \<open>Sockets.cc\<close>, and the functions of \<open>SocketOps.cc\<close> that only call the
  kernel: which calls they make, with which arguments. The kernel's table of socket options is what
  the calls that succeed make of it.
\<close>

section \<open>Calls\<close>

definition SOL_SOCKET :: int where "SOL_SOCKET = 1"
definition IPPROTO_TCP :: int where "IPPROTO_TCP = 6"
definition TCP_NODELAY :: int where "TCP_NODELAY = 1"
definition SO_REUSEADDR :: int where "SO_REUSEADDR = 2"
definition SO_KEEPALIVE :: int where "SO_KEEPALIVE = 9"
definition SO_REUSEPORT :: int where "SO_REUSEPORT = 15"
definition SHUT_WR :: int where "SHUT_WR = 1"

lemmas option_defs = SOL_SOCKET_def IPPROTO_TCP_def TCP_NODELAY_def SO_REUSEADDR_def SO_KEEPALIVE_def SO_REUSEPORT_def

datatype sys_call =
    Setsockopt int int int int        \<comment> \<open>descriptor, level, option, value\<close>
  | Shutdown int int
  | Close int
  | Bind int sockaddr nat
  | Connect int sockaddr nat
  | Listen int

section \<open>Functions that forward\<close>

definition sizeof_sockaddr_in6 :: nat where
  "sizeof_sockaddr_in6 = 28"

text \<open>\<open>answer\<close> is the kernel's; the second result says whether an error is logged.\<close>

definition sockets_connect :: "int \<Rightarrow> sockaddr \<Rightarrow> int \<Rightarrow> sys_call \<times> int" where
  "sockets_connect sockfd addr answer = (Connect sockfd addr sizeof_sockaddr_in6, answer)"

definition sockets_close :: "int \<Rightarrow> int \<Rightarrow> sys_call \<times> bool" where
  "sockets_close sockfd answer = (Close sockfd, answer < 0)"

definition sockets_shutdownWrite :: "int \<Rightarrow> int \<Rightarrow> sys_call \<times> bool" where
  "sockets_shutdownWrite sockfd answer = (Shutdown sockfd SHUT_WR, answer < 0)"

section \<open>The class Socket\<close>

record Socket =
  m_sockFd :: int

definition socket_dtor :: "int \<Rightarrow> Socket \<Rightarrow> sys_call \<times> bool" where
  "socket_dtor answer s = sockets_close (m_sockFd s) answer"

definition bindAddress :: "sockaddr \<Rightarrow> int \<Rightarrow> Socket \<Rightarrow> (sys_call \<times> unit) res" where
  "bindAddress addr answer s =
     bindR (bindOrDie answer) (\<lambda>u. Inr (Bind (m_sockFd s) addr sizeof_sockaddr_in6, u))"

definition socket_listen :: "int \<Rightarrow> Socket \<Rightarrow> (sys_call \<times> unit) res" where
  "socket_listen answer s = bindR (listenOrDie answer) (\<lambda>u. Inr (Listen (m_sockFd s), u))"

definition shutDownWrite :: "int \<Rightarrow> Socket \<Rightarrow> sys_call \<times> bool" where
  "shutDownWrite answer s = sockets_shutdownWrite (m_sockFd s) answer"

definition setTcpNoDelay :: "bool \<Rightarrow> Socket \<Rightarrow> sys_call" where
  "setTcpNoDelay on s = (let optval = (if on then 1 else 0) in Setsockopt (m_sockFd s) IPPROTO_TCP TCP_NODELAY optval)"

definition setReuseAddr :: "bool \<Rightarrow> Socket \<Rightarrow> sys_call" where
  "setReuseAddr on s = (let optval = (if on then 1 else 0) in Setsockopt (m_sockFd s) SOL_SOCKET SO_REUSEADDR optval)"

definition setReusePort :: "bool \<Rightarrow> int \<Rightarrow> Socket \<Rightarrow> sys_call \<times> bool" where
  "setReusePort on ret s =
     (let optval = (if on then 1 else 0)
      in (Setsockopt (m_sockFd s) SOL_SOCKET SO_REUSEPORT optval, ret < 0 \<and> on))"

definition setKeepAlive :: "bool \<Rightarrow> Socket \<Rightarrow> sys_call" where
  "setKeepAlive on s = (let optval = (if on then 1 else 0) in Setsockopt (m_sockFd s) SOL_SOCKET SO_KEEPALIVE optval)"

text \<open>What the constructors call: the acceptor's on its listening socket, the connection's on its own.\<close>

definition acceptor_options :: "bool \<Rightarrow> int \<Rightarrow> Socket \<Rightarrow> sys_call list" where
  "acceptor_options reusePort ret s = [fst (setReusePort reusePort ret s), setReuseAddr True s]"

definition connection_options :: "Socket \<Rightarrow> sys_call list" where
  "connection_options s = [setKeepAlive True s]"

definition connection_setTcpNoDelay :: "bool \<Rightarrow> Socket \<Rightarrow> sys_call" where
  "connection_setTcpNoDelay on s = setTcpNoDelay on s"

definition connection_getTcpInfo :: "tcp_info option \<Rightarrow> bool \<times> tcp_info" where
  "connection_getTcpInfo ans = getTcpInfo ans"

section \<open>The options of a socket\<close>

type_synonym socket_options = "int \<times> int \<times> int \<rightharpoonup> int"

fun apply_call :: "sys_call \<Rightarrow> socket_options \<Rightarrow> socket_options" where
  "apply_call (Setsockopt fd level optname optval) opts = opts((fd, level, optname) \<mapsto> optval)"
| "apply_call _ opts = opts"

datatype socket_switch = No_delay | Reuse_addr | Reuse_port | Keep_alive

fun switch_call :: "socket_switch \<times> bool \<Rightarrow> Socket \<Rightarrow> sys_call" where
  "switch_call (No_delay, on) s = setTcpNoDelay on s"
| "switch_call (Reuse_addr, on) s = setReuseAddr on s"
| "switch_call (Reuse_port, on) s = fst (setReusePort on 0 s)"
| "switch_call (Keep_alive, on) s = setKeepAlive on s"

fun switch_key :: "socket_switch \<Rightarrow> int \<times> int" where
  "switch_key No_delay = (IPPROTO_TCP, TCP_NODELAY)"
| "switch_key Reuse_addr = (SOL_SOCKET, SO_REUSEADDR)"
| "switch_key Reuse_port = (SOL_SOCKET, SO_REUSEPORT)"
| "switch_key Keep_alive = (SOL_SOCKET, SO_KEEPALIVE)"

lemma switch_call_text:
  "switch_call (k, on) s = Setsockopt (m_sockFd s) (fst (switch_key k)) (snd (switch_key k)) (if on then 1 else 0)"
  by (cases k) (simp_all add: setTcpNoDelay_def setReuseAddr_def setReusePort_def setKeepAlive_def)

lemma switch_key_inj: "switch_key k = switch_key j \<Longrightarrow> k = j"
  by (cases k; cases j) (simp_all add: option_defs)

text \<open>The four switches do not disturb each other: each option has the value it was last given.\<close>

lemma last_setting:
  "fold (\<lambda>c. apply_call (switch_call c s)) cs opts (m_sockFd s, fst (switch_key k), snd (switch_key k))
    = (case filter (\<lambda>c. fst c = k) (rev cs) of
         [] \<Rightarrow> opts (m_sockFd s, fst (switch_key k), snd (switch_key k))
       | (_, on) # _ \<Rightarrow> Some (if on then 1 else 0))"
proof (induction cs arbitrary: opts rule: rev_induct)
  case (snoc c cs)
  obtain j on where c: "c = (j, on)" by (cases c)
  have "(fst (switch_key k) = fst (switch_key j) \<and> snd (switch_key k) = snd (switch_key j)) \<longleftrightarrow> k = j"
    using switch_key_inj [of k j] by (auto simp: prod_eq_iff)
  with snoc show ?case by (auto simp: c switch_call_text)
qed simp

end
