(* ===== verification/StackTraces.thy ===== *)
theory StackTraces
  imports Prelude
begin

text \<open>
  \<open>stackTrace\<close> of \<open>src/src/base/CurrentThread.cc\<close>: one line for each frame but the first, with the
  name of the function demangled in place. The frames and the demangler are those of the C library.
\<close>

section \<open>Translation\<close>

text \<open>The loop over a line: the places of the last parenthesis and of the last plus sign.\<close>

fun scan :: "nat \<Rightarrow> string \<Rightarrow> nat option \<Rightarrow> nat option \<Rightarrow> nat option \<times> nat option" where
  "scan p [] left_par plus_at = (left_par, plus_at)"
| "scan p (c # cs) left_par plus_at =
     (if c = CHR ''('' then scan (p + 1) cs (Some p) plus_at
      else if c = CHR ''+'' then scan (p + 1) cs left_par (Some p)
      else scan (p + 1) cs left_par plus_at)"

text \<open>
  The mangled name is the C string after the parenthesis while the plus sign is overwritten by a
  terminator; \<open>demangler\<close> gives \<open>None\<close> when its status is not zero.
\<close>

definition mangled_name :: "string \<Rightarrow> nat \<Rightarrow> nat \<Rightarrow> string" where
  "mangled_name s left_par plus_at = takeWhile (\<lambda>c. c \<noteq> CHR 0x00) (drop (left_par + 1) (s[plus_at := CHR 0x00]))"

definition frame_line :: "(string \<Rightarrow> string option) \<Rightarrow> bool \<Rightarrow> string \<Rightarrow> string" where
  "frame_line demangler demangle s =
     (if demangle then
        (case scan 0 s None None of
           (Some left_par, Some plus_at) \<Rightarrow>
             (case demangler (mangled_name s left_par plus_at) of
                Some demangled \<Rightarrow> take (left_par + 1) s @ demangled @ drop plus_at s @ [CHR 0x0A]
              | None \<Rightarrow> s @ [CHR 0x0A])
         | _ \<Rightarrow> s @ [CHR 0x0A])
      else s @ [CHR 0x0A])"

text \<open>\<open>frames\<close>: what \<open>backtrace_symbols\<close> returned, \<open>None\<close> for a null pointer.\<close>

definition stackTrace :: "(string \<Rightarrow> string option) \<Rightarrow> string list option \<Rightarrow> bool \<Rightarrow> string" where
  "stackTrace demangler frames demangle =
     (case frames of
        None \<Rightarrow> []
      | Some strings \<Rightarrow> concat (map (frame_line demangler demangle) (drop 1 strings)))"

section \<open>Lemmas\<close>

lemma scan_append: "scan p (s @ t) l q = (let (l, q) = scan p s l q in scan (p + length s) t l q)"
  by (induction s arbitrary: p l q) (auto simp: Let_def split: prod.split)

lemma scan_plain: "CHR ''('' \<notin> set s \<Longrightarrow> CHR ''+'' \<notin> set s \<Longrightarrow> scan p s l q = (l, q)"
  by (induction s arbitrary: p) auto

text \<open>A line of the usual form keeps its file, offset and address; the name is replaced.\<close>

lemma frame_line_form:
  assumes "CHR ''('' \<notin> set (name @ off)" "CHR ''+'' \<notin> set (name @ off)" "CHR 0x00 \<notin> set name"
  shows "frame_line demangler True (path @ ''('' @ name @ ''+'' @ off)
    = path @ ''('' @ (case demangler name of Some d \<Rightarrow> d | None \<Rightarrow> name) @ ''+'' @ off @ [CHR 0x0A]"
proof -
  let ?s = "path @ ''('' @ name @ ''+'' @ off" and ?l = "length path" and ?q = "length path + 1 + length name"
  obtain l q where p: "scan 0 path None None = (l, q)" by force
  have "scan 0 ?s None None = (Some ?l, Some ?q)"
    using assms by (simp add: scan_append p scan_plain)
  moreover have "?s[?q := CHR 0x00] = path @ ''('' @ name @ [CHR 0x00] @ off"
    by (simp add: list_update_append)
  then have "mangled_name ?s ?l ?q = name"
    using assms(3) by (simp add: mangled_name_def takeWhile_append)
  ultimately show ?thesis
    by (simp add: frame_line_def split: option.split)
qed

text \<open>Every frame but the first gives one line that ends with a line feed, and a line is never lost.\<close>

lemma stackTrace_lines:
  "stackTrace demangler (Some (f # frames)) demangle = concat (map (frame_line demangler demangle) frames)"
  "stackTrace demangler None demangle = []"
  "List.last (frame_line demangler demangle s) = CHR 0x0A"
  by (simp_all add: stackTrace_def frame_line_def split: option.split prod.split)

lemma frame_line_sample:
  "frame_line (\<lambda>n. if n = ''_ZN3Bar4testEv'' then Some ''Bar::test()'' else None) True ''bin/t(_ZN3Bar4testEv+0x79) [0x401909]''
    = ''bin/t(Bar::test()+0x79) [0x401909]'' @ [CHR 0x0A]"
  using frame_line_form [of "''_ZN3Bar4testEv''" "''0x79) [0x401909]''" _ "''bin/t''"] by simp

end
