(* ===== verification/Callbacks.thy ===== *)
theory Callbacks
  imports TcpConnections
begin

text \<open>
  \<open>src/src/net/WeakCallBack.h\<close> and \<open>src/src/base/Singleton.h\<close>: a callback that does nothing once its
  object is gone, and an object that is made once.
\<close>

section \<open>Weak callbacks\<close>

text \<open>The number of \<open>shared_ptr\<close> to each object; an object without one is destroyed.\<close>

type_synonym owners = "nat \<rightharpoonup> nat"

definition weak_lock :: "nat \<Rightarrow> owners \<Rightarrow> bool \<times> owners" where
  "weak_lock obj h = (case h obj of Some n \<Rightarrow> (True, h(obj \<mapsto> n + 1)) | None \<Rightarrow> (False, h))"

definition release :: "nat \<Rightarrow> owners \<Rightarrow> owners" where
  "release obj h = (case h obj of Some n \<Rightarrow> if n \<le> 1 then h(obj := None) else h(obj \<mapsto> n - 1) | None \<Rightarrow> h)"

text \<open>The function gets the world and the owners; the lock is given back after it.\<close>

definition weak_call :: "(nat \<Rightarrow> 's \<times> owners \<Rightarrow> 's \<times> owners) \<Rightarrow> nat \<Rightarrow> 's \<times> owners \<Rightarrow> 's \<times> owners" where
  "weak_call function obj w =
     (let (s, h) = w; (ptr, h) = weak_lock obj h
      in if ptr then (let (s, h) = function obj (s, h) in (s, release obj h)) else (s, h))"

text \<open>The timer of \<open>forceCloseWithDelay\<close> calls \<open>forceClose\<close> this way; \<open>conns\<close> holds the connections.\<close>

definition delayed_forceClose :: "nat \<Rightarrow> (nat \<Rightarrow> connection) \<times> owners \<Rightarrow> (nat \<Rightarrow> connection) \<times> owners" where
  "delayed_forceClose = weak_call (\<lambda>obj (conns, h). (conns(obj := forceClose (conns obj)), h))"

section \<open>Singletons\<close>

text \<open>The flag and the pointer, and how many objects were made; \<open>i\<close>-th object has the address \<open>i\<close>.\<close>

record singleton =
  once :: bool
  sg_t :: "nat option"
  sg_made :: nat

definition new_singleton :: singleton where
  "new_singleton = \<lparr>once = False, sg_t = None, sg_made = 0\<rparr>"

definition initSingleton :: "singleton \<Rightarrow> singleton" where
  "initSingleton s = s\<lparr>sg_t := Some (sg_made s), sg_made := sg_made s + 1\<rparr>"

definition getInstance :: "singleton \<Rightarrow> (nat \<times> singleton) res" where
  "getInstance s =
     (let s = (if once s then s else (initSingleton s)\<lparr>once := True\<rparr>)
      in case sg_t s of Some t \<Rightarrow> Inr (t, s) | None \<Rightarrow> Inl Null_deref)"

section \<open>Lemmas\<close>

text \<open>
  While the function runs the object is alive, also when it gives up every other owner; it is destroyed
  right after the call in that case, and a destroyed object is not called.
\<close>

lemma release_many: "h obj = Some n \<Longrightarrow> k < n \<Longrightarrow> ((release obj) ^^ k) h obj = Some (n - k)"
  by (induction k) (simp_all add: release_def)

lemma weak_call_alive:
  assumes "h obj = Some n" "k \<le> n" "1 \<le> n"
    and f: "\<And>s h. function obj (s, h) = (g s, ((release obj) ^^ k) h)"
  shows "\<exists>h'. weak_call function obj (s, h) = (g s, h') \<and> h' obj = (if k < n then Some (n - k) else None)
    \<and> (\<forall>j \<le> k. ((release obj) ^^ j) (snd (weak_lock obj h)) obj \<noteq> None)"
proof -
  let ?h = "h(obj \<mapsto> n + 1)"
  have r: "((release obj) ^^ j) ?h obj = Some (n + 1 - j)" if "j \<le> k" for j
    using release_many [of ?h obj "n + 1" j] that assms(2) by simp
  have c: "weak_call function obj (s, h) = (g s, release obj (((release obj) ^^ k) ?h))"
    using assms(1) by (simp add: weak_call_def weak_lock_def f)
  have "release obj (((release obj) ^^ k) ?h) obj = (if k < n then Some (n - k) else None)"
    using r [of k] assms(2) by (auto simp: release_def)
  with c r assms(1) show ?thesis by (auto simp: weak_lock_def)
qed

lemma weak_call_dead: "h obj = None \<Longrightarrow> weak_call function obj (s, h) = (s, h)"
  by (simp add: weak_call_def weak_lock_def)

lemma delayed_forceClose_outcomes:
  "h obj = None \<Longrightarrow> delayed_forceClose obj (conns, h) = (conns, h)"
  "h obj = Some n \<Longrightarrow> 1 \<le> n \<Longrightarrow> \<exists>h'. delayed_forceClose obj (conns, h) = (conns(obj := forceClose (conns obj)), h')
    \<and> h' obj = Some n"
  by (auto simp: delayed_forceClose_def weak_call_def weak_lock_def release_def)

text \<open>Every call gives the one object.\<close>

lemma getInstance_once:
  "\<exists>s. getInstance new_singleton = Inr (0, s) \<and> getInstance s = Inr (0, s) \<and> sg_made s = 1"
  by (simp add: getInstance_def new_singleton_def initSingleton_def)

end
