(* ===== verification/Demos.thy ===== *)
theory Demos
  imports TcpConnections Servers Logs
begin

text \<open>
  \<open>src/src/main.cc\<close>: the server the program runs, with its message callback, and the pieces of the
  file that \<open>main\<close> does not call: \<open>daemon_init\<close> and the class \<open>Server\<close>, which reads and answers
  through one global buffer, and the set-up of the log. The other classes of the file are trials of the language.
\<close>

section \<open>The server of main\<close>

definition text_bytes :: "string \<Rightarrow> byte list" where
  "text_bytes s = map (\<lambda>c. of_nat (of_char c)) s"

text \<open>
  \<open>buffer->retrieveAllAsString()\<close> is an operand of \<open>LOG_INFO\<close>, so it is evaluated only when \<open>level\<close>, the
  level of the log, lets the statement through.
\<close>

definition msgcallback :: "LOG_LEVEL \<Rightarrow> bool \<Rightarrow> write_result \<Rightarrow> connection \<Rightarrow> connection res" where
  "msgcallback level inLoop w s =
     bindR (if macro_on level LOG_INFO
            then bindR (retrieveAllAsString (m_inputBuffer s)) (\<lambda>(_, b). Inr (s\<lparr>m_inputBuffer := b\<rparr>))
            else Inr s) (\<lambda>s.
     let msg = ''i be ''
     in send_mem inLoop w (text_bytes msg) (int (length msg)) s)"

text \<open>The callback a server has when none was set.\<close>

definition defaultMessageCallback :: "connection \<Rightarrow> connection" where
  "defaultMessageCallback s = s\<lparr>m_inputBuffer := retrieveAll (m_inputBuffer s)\<rparr>"

text \<open>The calls of \<open>main\<close> on the server; \<open>acc\<close> is the outcome of the constructor of its acceptor.\<close>

definition main_server :: "ntop \<Rightarrow> acceptor res \<Rightarrow> (nat \<Rightarrow> nat) \<Rightarrow> nat \<Rightarrow> server res" where
  "main_server ntop acc startLoop mainLoop =
     bindR (new_server ntop (address_of_port [] 12345 False False) mainLoop acc) (\<lambda>s.
     bindR (server_setThreadNum 1 s) (server_start True startLoop False))"

text \<open>The log of \<open>main\<close>: \<open>toAsync\<close> is the handle of the \<open>append\<close> of its asynchronous log.\<close>

definition main_logging :: "nat \<Rightarrow> log_globals \<Rightarrow> log_globals" where
  "main_logging toAsync g = setOutPutFunc toAsync (setLogLevel DEBUG g)"

section \<open>Becoming a daemon\<close>

text \<open>The table of descriptors: what \<open>open\<close> opened; it takes the least number that is free.\<close>

type_synonym fd_table = "nat \<rightharpoonup> string"

definition least_free :: "nat \<Rightarrow> fd_table \<Rightarrow> nat" where
  "least_free limit t = hd (filter (\<lambda>i. t i = None) [0..<limit] @ [limit])"

definition open_path :: "nat \<Rightarrow> string \<Rightarrow> fd_table \<Rightarrow> fd_table" where
  "open_path limit path t = (let fd = least_free limit t in if fd < limit then t(fd \<mapsto> path) else t)"

record process =
  pr_fds :: fd_table
  pr_sid :: bool              \<comment> \<open>\<open>setsid\<close> was called\<close>
  pr_ignores_hup :: bool

text \<open>
  The answers of the two \<open>fork\<close> decide which process goes on; \<open>None\<close> is \<open>exit(0)\<close>. A second \<open>fork\<close> that
  fails is not tested for.
\<close>

definition daemon_init :: "nat \<Rightarrow> int \<Rightarrow> int \<Rightarrow> process \<Rightarrow> process option" where
  "daemon_init limit pid1 pid2 p =
     (if pid1 < 0 then None
      else if pid1 > 0 then None
      else
        let p = p\<lparr>pr_sid := True, pr_ignores_hup := True\<rparr>
        in if pid2 > 0 then None
           else
             let t = fold (\<lambda>i t. t(i := None)) [0..<64] (pr_fds p)
             in Some (p\<lparr>pr_fds := open_path limit ''/dev/null''
                  (open_path limit ''/dev/null'' (open_path limit ''/dev/null'' t))\<rparr>))"

section \<open>The class Server\<close>

definition BUF_SIZE :: nat where
  "BUF_SIZE = 1024"

text \<open>\<open>recv\<close> stores what the kernel has at the beginning of the global buffer.\<close>

definition server_recv :: "byte list \<Rightarrow> byte list \<Rightarrow> byte list" where
  "server_recv bytes recvBuf = take BUF_SIZE bytes @ drop (length (take BUF_SIZE bytes)) recvBuf"

text \<open>\<open>send\<close> sends the C string in the buffer, to whichever client, and clears the buffer.\<close>

definition server_send :: "byte list \<Rightarrow> (byte list \<times> byte list) res" where
  "server_send recvBuf =
     (if 0 \<in> set recvBuf
      then Inr (takeWhile (\<lambda>b. b \<noteq> 0) recvBuf, replicate BUF_SIZE 0) else Inl Undefined)"

record demo_server =
  m_serverAddr :: sockaddr
  demo_listenFd :: int

text \<open>
  The constructor: \<open>fd\<close>, \<open>bound\<close> and \<open>listens\<close> are the answers of \<open>socket\<close>, \<open>bind\<close> and \<open>listen\<close>, and \<open>None\<close> is
  \<open>exit(1)\<close>. The port goes through a 16-bit parameter, the address through \<open>htons\<close>, which is harmless for
  \<open>INADDR_ANY\<close>.
\<close>

definition demo_address :: "sockaddr \<Rightarrow> int \<Rightarrow> sockaddr" where
  "demo_address mem portArg =
     (let a = put_bytes 0 (replicate 16 0) mem;
          a = put_field 2 0 AF_INET a;
          a = put_field 2 2 (hostToNetwork16 (word_of_int portArg)) a
      in put_field 4 4 (ucast (hostToNetwork16 (ucast kInaddrAny)) :: 32 word) a)"

definition construct_Server :: "sockaddr \<Rightarrow> int \<Rightarrow> int \<Rightarrow> int \<Rightarrow> int \<Rightarrow> demo_server option res" where
  "construct_Server mem portArg fd bound listens =
     (if fd < 0 then Inr None
      else assertR (0 \<le> bound) (assertR (0 \<le> listens)
        (Inr (Some \<lparr>m_serverAddr = demo_address mem portArg, demo_listenFd = fd\<rparr>))))"

text \<open>
  \<open>accept\<close>: \<open>ch\<close> is the new channel and \<open>newFd\<close> the answer of the kernel. The read callback is set after
  the channel was registered.
\<close>

definition server_accept :: "nat \<Rightarrow> nat \<Rightarrow> nat \<Rightarrow> int \<Rightarrow> poller \<Rightarrow> (int \<times> poller) res" where
  "server_accept recvCb sendCb ch newFd p =
     assertR (0 \<le> newFd)
      (bindR (enableRead ch (put_channel ch (setWriteCb sendCb (new_channel newFd)) p)) (\<lambda>p.
       bindR (get_channel ch p) (\<lambda>c.
       Inr (newFd, put_channel ch (setReadCb recvCb c) p))))"

section \<open>Lemmas\<close>

lemma DEBUG_le_INFO [simp]: "DEBUG \<le> INFO"
  by (simp add: less_eq_LOG_LEVEL_def)

text \<open>
  A message is taken from the input buffer and answered: what the kernel accepted and what waits grow by
  the reply.
\<close>

lemma msgcallback_replies:
  assumes "wf_conn s" "m_stat s = KCONNECT" "wf_buffer (m_inputBuffer s)" "n \<le> 5"
    and "writerIndex (m_outputBuffer s) + 5 \<le> max_size"
  shows "\<exists>t. msgcallback DEBUG True (Wr_ok n) s = Inr t \<and> contents (m_inputBuffer t) = []
    \<and> tc_wire t @ contents (m_outputBuffer t) = tc_wire s @ contents (m_outputBuffer s) @ text_bytes ''i be ''"
proof -
  let ?bs = "text_bytes ''i be ''" and ?m = "\<lambda>b. s\<lparr>m_inputBuffer := b\<rparr>"
  obtain b where b: "retrieveAllAsString (m_inputBuffer s) = Inr (contents (m_inputBuffer s), b)" "contents b = []"
    using retrieveAllAsString_ok [OF assms(3)] by blast
  have w: "wf_conn (?m b)" using assms(1) by (simp add: wf_conn_def writing_def)
  have l: "length ?bs = 5" by (simp add: text_bytes_def)
  let ?k = "if writing (?m b) then 0 else n"
  have "n \<le> length ?bs" "m_stat (?m b) \<noteq> KDISCONNECTED" "writerIndex (m_outputBuffer (?m b)) + length ?bs \<le> max_size"
    using assms(2,4,5) l by simp_all
  then obtain o' p where t: "sendInLoop (Wr_ok n) ?bs (length ?bs) (?m b) = Inr ((?m b)\<lparr>tc_wire := tc_wire (?m b) @ take ?k ?bs,
      tc_tasks := tc_tasks (?m b) @ (if \<not> writing (?m b) \<and> n = length ?bs then finish_task (?m b) else [])
       @ (if ?k < length ?bs then high_task (?m b) (length ?bs - ?k) else []),
      m_outputBuffer := o', tc_poller := p\<rparr>)"
    "contents o' = contents (m_outputBuffer (?m b)) @ drop ?k ?bs"
    using sendInLoop_ok [OF w, where n = n and bs = ?bs and k = ?k] by metis
  have e: "contents (m_outputBuffer s) = []" if "\<not> writing (?m b)" using w that by (simp add: wf_conn_def)
  have "msgcallback DEBUG True (Wr_ok n) s = sendInLoop (Wr_ok n) ?bs (length ?bs) (?m b)"
    using b(1) assms(2) l by (simp add: msgcallback_def send_mem_def send_piece_def sendInLoop_piece_def i32_to_size_def)
  with t b(2) e show ?thesis by (cases "writing (?m b)") auto
qed

text \<open>With the level above \<open>INFO\<close> the message stays where it is and is found again by the next call.\<close>

lemma msgcallback_keeps:
  assumes "\<not> level \<le> INFO"
  shows "msgcallback level inLoop w s = send_mem inLoop w (text_bytes ''i be '') 5 s"
  using assms by (simp add: msgcallback_def)

text \<open>
  The server of \<open>main\<close> makes one loop thread and asks for the listening socket to listen, unless the
  acceptor's flag, which nothing initialises, happens to be set.
\<close>

lemma main_server_starts:
  assumes "toIpPort ntop (address_of_port [] 12345 False False) = Inr ip"
  shows "main_server ntop (Inr acc) startLoop l =
    (if m_isListen acc then Inl Assert_failed
     else Inr \<lparr>sv_ipPort = ip, sv_name = [], sv_acceptor = setNewConnectionCallBack acc,
       sv_pool = \<lparr>m_threadNum = 1, m_baseLoop = l, m_nextIdx = 0, pool_started = True, m_vecLoops = [startLoop 0]\<rparr>,
       sv_started = 1, m_nextConnId = 1, m_connections = Map.empty, sv_conns = [], sv_tasks = [(l, False, Listen)]\<rparr>)"
  using assms by (simp add: main_server_def new_server_def server_setThreadNum_def setThreadNum_def new_loop_pool_def
    server_start_def pool_start_def add_server_task_def setNewConnectionCallBack_def assertInLoopThread_def Let_def)

text \<open>A daemon has its three standard descriptors on \<open>/dev/null\<close> and the others below 64 closed.\<close>

lemma closed_fds: "fold (\<lambda>i t. t(i := None)) [0..<n] t j = (if j < n then None else t j)"
  by (induction n) auto

lemma least_free_0: "t 0 = None \<Longrightarrow> 0 < limit \<Longrightarrow> least_free limit t = 0"
  by (simp add: least_free_def upt_conv_Cons)

lemma open_three:
  assumes "\<forall>j < 3. t j = None" "3 \<le> limit"
  shows "open_path limit f (open_path limit f (open_path limit f t)) = t(0 \<mapsto> f, 1 \<mapsto> f, 2 \<mapsto> f)"
proof -
  have u: "[0..<limit] = 0 # 1 # 2 # [3..<limit]" using assms(2)
    by (simp add: upt_conv_Cons numeral_2_eq_2 numeral_3_eq_3)
  have "t 0 = None" "t 1 = None" "t 2 = None" using assms(1) by simp_all
  then show ?thesis using assms(2) by (simp add: open_path_def least_free_def u)
qed

lemma daemon_fds:
  assumes "64 \<le> limit" "daemon_init limit pid1 pid2 p = Some q"
  shows "pid1 = 0 \<and> pid2 \<le> 0 \<and> pr_sid q \<and> pr_ignores_hup q
    \<and> pr_fds q j = (if j < 3 then Some ''/dev/null'' else if j < 64 then None else pr_fds p j)"
proof -
  let ?t = "\<lambda>j. if j < 64 then None else pr_fds p j"
  have t: "fold (\<lambda>i t. t(i := None)) [0..<64] (pr_fds p) = ?t" by (rule ext) (rule closed_fds)
  from open_three [of ?t limit "''/dev/null''"] assms show ?thesis
    by (auto simp: daemon_init_def Let_def t split: if_splits)
qed

text \<open>
  A short message after a longer one that was not answered yet is sent with the rest of that one, and a
  message that fills the buffer is read past its end.
\<close>

lemma server_mixes:
  "map_option fst (case server_send (server_recv (text_bytes ''xy'') (server_recv (text_bytes ''abcd'') (replicate BUF_SIZE 0)))
     of Inr r \<Rightarrow> Some r | Inl _ \<Rightarrow> None) = Some (text_bytes ''xycd'')"
proof -
  have r: "server_recv (text_bytes ''xy'') (server_recv (text_bytes ''abcd'') (replicate BUF_SIZE 0))
      = text_bytes ''xycd'' @ replicate 1020 0"
    by (simp add: server_recv_def text_bytes_def BUF_SIZE_def)
  have z: "0 \<notin> set (text_bytes ''xycd'')" by (simp add: text_bytes_def)
  then have "takeWhile (\<lambda>b. b \<noteq> 0) (text_bytes ''xycd'' @ replicate 1020 0) = text_bytes ''xycd''"
    by (subst takeWhile_append2) (auto simp: text_bytes_def)
  then show ?thesis unfolding r by (simp add: server_send_def)
qed

lemma server_overruns:
  assumes "length bytes = BUF_SIZE" "0 \<notin> set bytes" "length recvBuf = BUF_SIZE"
  shows "server_send (server_recv bytes recvBuf) = Inl Undefined"
  using assms by (simp add: server_send_def server_recv_def)

text \<open>The address the server binds is the one \<open>InetAddress\<close> makes of the port.\<close>

lemma demo_address_fields:
  assumes "16 \<le> length mem"
  shows "demo_address mem portArg = address_of_port mem (word_of_int portArg) False False"
proof -
  obtain xs ys where m: "mem = xs @ ys" "length xs = 16"
    using assms by (metis append_take_drop_id length_take min.absorb2)
  have z: "hostToNetwork16 0 = 0" "hostToNetwork32 0 = 0" by code_simp+
  have l: "length (le_bytes n w) = n" for n and w :: "'c::len word" by simp
  obtain a b where p: "le_bytes 2 (hostToNetwork16 (word_of_int portArg :: 16 word)) = [a, b]"
    using l [of 2 "hostToNetwork16 (word_of_int portArg :: 16 word)"] by (auto simp: numeral_2_eq_2 length_Suc_conv)
  have f: "le_bytes 2 AF_INET = [2, 0]" "le_bytes 4 (0 :: 32 word) = [0, 0, 0, 0]" by code_simp+
  show ?thesis using m(2)
    by (simp add: demo_address_def address_of_port_def put_field_def put_bytes_def kInaddrAny_def z m(1) p f Let_def)
qed

text \<open>
  An accepted client is watched for reading and for nothing else, with both callbacks in place; as nothing
  of the class watches for writing, \<open>send\<close> is never called and no client is answered.
\<close>

lemma server_accept_watches:
  assumes "0 \<le> newFd" "m_mapFdToChannel p newFd = None" "epoll_set p newFd = None"
  shows "\<exists>q c. server_accept recvCb sendCb ch newFd p = Inr (newFd, q) \<and> chans q ch = Some c
    \<and> ch_readCb c = Some recvCb \<and> ch_writeCb c = Some sendCb \<and> epoll_set q newFd = Some (KReadEvent, ch)"
  using assms
  by (simp add: server_accept_def enableRead_def set_events_def channel_update_def updateChannel_def get_channel_def
      put_channel_def new_channel_def setWriteCb_def setReadCb_def setIdxs_def epoll_update_def KNEW_def)

text \<open>With the log of \<open>main\<close> every statement above TRACE reaches the asynchronous log, and TRACE does nothing.\<close>

lemma main_logging_lines:
  "macro_on (g_logLevel (main_logging toAsync g)) macro \<longleftrightarrow> macro \<noteq> LOG_TRACE"
  "delete_Log (main_logging toAsync g) i = Inr effects \<Longrightarrow> \<exists>text. hd effects = Output toAsync text"
  by (cases macro) (auto simp: main_logging_def setOutPutFunc_def setLogLevel_def less_eq_LOG_LEVEL_def
      delete_Log_def Let_def res_simps split: if_splits)

end
