(* ===== verification/ClientLives.thy ===== *)
theory ClientLives
  imports TcpConnections Servers
begin

text \<open>
  The life of one client across \<open>src/src/net/TcpServer.cc\<close>, \<open>TcpConnection.cc\<close> and the poller of the
  loop: what \<open>newConnection\<close> sets up, the tasks the server gives to its loops, run in the order they
  were given, and the client closing its side.
\<close>

section \<open>A server and a connection\<close>

record client_system =
  cs_server :: server
  cs_conn :: connection

text \<open>
  \<open>newConnection\<close> with the connection it makes: its channel lives at \<open>a\<close>, its loop's poller is \<open>p\<close>, and
  \<open>reading\<close> is what \<open>m_reading\<close> happens to hold. The server has a connection and a message callback
  from its constructor on, and no callback for finished writes.
\<close>

definition setConnectionCbs :: "connection \<Rightarrow> connection" where
  "setConnectionCbs c =
     conn_setCloseCb True (conn_setWriteFinishCb False (conn_setMessageCb True (conn_setConnectionCb True c)))"

definition accept_client :: "bool \<Rightarrow> nat \<Rightarrow> int \<Rightarrow> poller \<Rightarrow> server \<Rightarrow> client_system res" where
  "accept_client reading a sockfd p s =
     bindR (newConnection True s) (\<lambda>s.
     bindR (new_connection reading a sockfd p) (\<lambda>c.
     Inr \<lparr>cs_server = s, cs_conn = setConnectionCbs c\<rparr>))"

definition run_task :: "nat \<Rightarrow> server_task \<Rightarrow> client_system \<Rightarrow> client_system res" where
  "run_task this t cs =
     (case t of
        Listen \<Rightarrow> bindR (acceptor_listen True 0 (sv_acceptor (cs_server cs))) (\<lambda>acc.
                    Inr (cs\<lparr>cs_server := (cs_server cs)\<lparr>sv_acceptor := acc\<rparr>\<rparr>))
      | Established i \<Rightarrow> bindR (connectionEstablished this (cs_conn cs)) (\<lambda>c. Inr (cs\<lparr>cs_conn := c\<rparr>))
      | Remove i \<Rightarrow> bindR (removeConnectionInLoop True i (cs_server cs)) (\<lambda>s. Inr (cs\<lparr>cs_server := s\<rparr>))
      | Destroyed i \<Rightarrow> bindR (connectionDestory (cs_conn cs)) (\<lambda>c. Inr (cs\<lparr>cs_conn := c\<rparr>)))"

definition run_next_task :: "nat \<Rightarrow> client_system \<Rightarrow> client_system res" where
  "run_next_task this cs =
     (case sv_tasks (cs_server cs) of
        [] \<Rightarrow> Inr cs
      | (_, _, t) # ts \<Rightarrow> run_task this t (cs\<lparr>cs_server := (cs_server cs)\<lparr>sv_tasks := ts\<rparr>\<rparr>))"

text \<open>\<open>handleRead\<close> on what \<open>readv\<close> gave, with the server's \<open>removeConnection\<close> as close callback.\<close>

definition client_event :: "nat \<Rightarrow> readv_result \<Rightarrow> client_system \<Rightarrow> client_system res" where
  "client_event i rv cs =
     bindR (conn_handleRead rv (cs_conn cs)) (\<lambda>c.
       let new = drop (length (tc_calls (cs_conn cs))) (tc_calls c);
           cs = cs\<lparr>cs_conn := c\<rparr>
       in Inr (if Call_close \<in> set new then cs\<lparr>cs_server := removeConnection i (cs_server cs)\<rparr> else cs))"

section \<open>Lemmas\<close>

text \<open>A server that is ready for the next client, and a place and a descriptor not in use.\<close>

definition ready :: "server \<Rightarrow> bool" where
  "ready s \<longleftrightarrow> pool_started (sv_pool s) \<and> m_vecLoops (sv_pool s) \<noteq> [] \<and> m_threadNum (sv_pool s) = int (length (m_vecLoops (sv_pool s)))
     \<and> 0 \<le> m_nextIdx (sv_pool s) \<and> m_nextIdx (sv_pool s) < m_threadNum (sv_pool s) \<and> m_threadNum (sv_pool s) < 2 ^ 31
     \<and> m_nextConnId s + 1 < 2 ^ 31 \<and> sv_tasks s = []"

definition unused :: "nat \<Rightarrow> int \<Rightarrow> poller \<Rightarrow> bool" where
  "unused a fd p \<longleftrightarrow> wf_poller p \<and> chans p a = None \<and> m_mapFdToChannel p fd = None
     \<and> (\<forall>b c. usable b p \<longrightarrow> chans p b = Some c \<longrightarrow> ch_fd c \<noteq> fd)"

lemma put_unused:
  assumes u: "unused a (ch_fd c) p" and k: "ch_idxs c = KNEW"
  shows "wf_poller (put_channel a c p)" "usable a (put_channel a c p)"
proof -
  have w: "wf_poller p" "chans p a = None" "m_mapFdToChannel p (ch_fd c) = None" using u by (simp_all add: unused_def)
  let ?q = "put_channel a c p"
  have q: "chans (put_channel a x p) = (chans p)(a \<mapsto> x)" "m_mapFdToChannel (put_channel a x p) = m_mapFdToChannel p"
    "epoll_set (put_channel a x p) = epoll_set p" for x
    by (simp_all add: put_channel_def)
  show ua: "usable a ?q" using w(3) k by (simp add: usable_def q)
  have other: "usable b ?q \<longleftrightarrow> usable b p" if "b \<noteq> a" for b using that by (simp add: usable_def q split: option.split)
  have n: "KNEW \<noteq> KADDED" "KNEW \<noteq> KDEL" by (simp_all add: k_defs)
  show "wf_poller ?q"
    unfolding wf_poller_def
  proof (intro conjI allI impI)
    fix b e assume "chans ?q b = Some e"
    then show "ch_idxs e = KNEW \<or> ch_idxs e = KDEL \<or> ch_idxs e = KADDED"
      using wf_poller_idx [OF w(1), of b e] k by (auto simp: q split: if_splits)
  next
    fix fd b assume "m_mapFdToChannel ?q fd = Some b"
    then have "m_mapFdToChannel p fd = Some b" by (simp add: q)
    from wf_poller_map [OF w(1) this] obtain e where "chans p b = Some e" "ch_fd e = fd" "ch_idxs e \<noteq> KNEW" .
    with w(2) show "\<exists>e. chans ?q b = Some e \<and> ch_fd e = fd \<and> ch_idxs e \<noteq> KNEW" by (auto simp: q)
  next
    fix b e assume "chans ?q b = Some e" "ch_idxs e = KADDED"
    then have "chans p b = Some e" "ch_idxs e = KADDED" using k n by (auto simp: q split: if_splits)
    from wf_poller_added [OF w(1) this]
    show "m_mapFdToChannel ?q (ch_fd e) = Some b" "epoll_set ?q (ch_fd e) = Some (ch_events e, b)" by (simp_all add: q)
  next
    fix fd ev b assume "epoll_set ?q fd = Some (ev, b)"
    then have "epoll_set p fd = Some (ev, b)" by (simp add: q)
    from wf_poller_epoll [OF w(1) this] obtain e where "chans p b = Some e" "ch_fd e = fd" "ch_idxs e = KADDED" .
    with w(2) show "\<exists>e. chans ?q b = Some e \<and> ch_fd e = fd \<and> ch_idxs e = KADDED" by (auto simp: q)
  next
    fix b b' e e' assume h: "usable b ?q" "usable b' ?q" "chans ?q b = Some e" "chans ?q b' = Some e'" "ch_fd e = ch_fd e'"
    have ne: "ch_fd x \<noteq> ch_fd c" if "usable y p" "chans p y = Some x" for x y using u that by (auto simp: unused_def)
    show "b = b'"
      using h other [of b] other [of b'] ne [of b e] ne [of b' e'] wf_poller_uniq [OF w(1), of b b' e e']
      by (cases "b = a"; cases "b' = a") (auto simp: q)
  qed
qed

lemma new_connection_ok:
  assumes "unused a sockfd p"
  obtains c ch where "new_connection reading a sockfd p = Inr c" "m_stat c = KCONNECTING" "tc_channel c = a"
    "tc_poller c = put_channel a ch p" "ch_fd ch = sockfd" "ch_idxs ch = KNEW" "ch_events ch = 0"
    "wf_buffer (m_inputBuffer c)" "writableBytes (m_inputBuffer c) = kInitialSize"
    "length (bufvec (m_inputBuffer c)) = 8 + kInitialSize" "tc_calls c = []"
proof -
  obtain b where b: "newBuffer kInitialSize = Inr b" "wf_buffer b" "writableBytes b = kInitialSize"
    using newBuffer_ok [of kInitialSize] by (auto simp: kInitialSize_def max_size_def kCheapPrepend_def)
  then have "length (bufvec b) = 8 + kInitialSize"
    by (auto simp: newBuffer_def res_simps Let_def kCheapPrepend_def)
  with b that show ?thesis
    by (simp add: new_connection_def Let_def setErrCb_def setCloseCb_def setWriteCb_def setReadCb_def new_channel_def k_defs)
qed

text \<open>Establishing: the connection callback runs, and the poller watches the channel for reading.\<close>

lemma established_ok:
  assumes u: "unused a (ch_fd ch) p" and ch: "ch_idxs ch = KNEW" "ch_events ch = 0"
    and c: "m_stat c = KCONNECTING" "tc_channel c = a" "tc_poller c = put_channel a ch p" "m_connectionCb c"
  obtains q d where "connectionEstablished this c = Inr (c\<lparr>m_stat := KCONNECT, tc_poller := q, tc_calls := tc_calls c @ [Call_connection]\<rparr>)"
    "chans q a = Some d" "ch_events d \<noteq> 0"
proof -
  let ?ch = "channel_tie this ch"
  have t: "ch_fd ?ch = ch_fd ch" "ch_idxs ?ch = KNEW" "ch_events ?ch = 0" using ch by (simp_all add: channel_tie_def)
  have p: "tie_channel this a (tc_poller c) = Inr (put_channel a ?ch p)"
    by (simp add: tie_channel_def get_channel_def c(3) put_channel_def)
  have w: "wf_poller (put_channel a ?ch p)" "usable a (put_channel a ?ch p)"
    using put_unused [of a ?ch p] u t by simp_all
  have ca: "chans (put_channel a ?ch p) a = Some ?ch" by (simp add: put_channel_def)
  obtain q where q: "enableRead a (put_channel a ?ch p) = Inr q" "chans q a = Some (?ch\<lparr>ch_events := 3, ch_idxs := KADDED\<rparr>)"
    using set_events_eq [OF w ca refl, of "\<lambda>e. e OR KReadEvent"] t by (simp add: enableRead_def k_defs read_mask)
  have "connectionEstablished this c = Inr (c\<lparr>m_stat := KCONNECT, tc_poller := q, tc_calls := tc_calls c @ [Call_connection]\<rparr>)"
    using c p q(1) by (simp add: connectionEstablished_def on_channel_def setState_def call_cb_def)
  with q(2) that show ?thesis by simp
qed

text \<open>The end of the stream takes the connection for closed and leaves its channel as it was.\<close>

lemma end_of_stream:
  assumes "wf_buffer (m_inputBuffer c)" "length (bufvec (m_inputBuffer c)) + extrabuf_size \<le> max_size"
    and "m_stat c = KCONNECT" "m_connectionCb c" "m_closeCb c"
  shows "\<exists>b. conn_handleRead (Rv_data []) c
    = Inr (c\<lparr>m_inputBuffer := b, m_stat := KDISCONNECTED, tc_calls := tc_calls c @ [Call_connection, Call_close]\<rparr>)"
  using readFd_ok [OF assms(1) _ assms(2), of "[]"] assms(3-5)
  by (auto simp: conn_handleRead_def call_cb_def handleClose_def setState_def Let_def)

lemma destroy_fails:
  assumes "m_stat c = KDISCONNECTED" "chans (tc_poller c) (tc_channel c) = Some d" "ch_events d \<noteq> 0"
  shows "connectionDestory c = Inl Assert_failed"
  using assms by (simp add: connectionDestory_def on_channel_def channel_remove_def get_channel_def isNoneEvent_def
      KNoneEvent_def assertR_def)

lemma newConnection_ok:
  assumes "ready s"
  obtains s' l where "newConnection True s = Inr s'" "sv_tasks s' = [(l, False, Established (length (sv_conns s)))]"
    "length (sv_conns s') = Suc (length (sv_conns s))"
    "m_connections s' (cn_name (sv_conns s' ! length (sv_conns s))) = Some (length (sv_conns s))"
proof -
  have "i32_to_size (m_nextIdx (sv_pool s)) = nat (m_nextIdx (sv_pool s))"
    using assms by (intro i32_to_size_nonneg) (simp_all add: ready_def)
  then obtain l p where "getNextLoop True (sv_pool s) = Inr (l, p)"
    using assms by (auto simp: ready_def getNextLoop_def assertInLoopThread_def Let_def nat_less_iff)
  with assms that show ?thesis
    by (auto simp: newConnection_def assertInLoopThread_def ready_def add_server_task_def Let_def)
qed

section \<open>The property\<close>

text \<open>
  C10. The first client that goes away ends the program. A ready server accepts a client, establishes
  the connection, and when the client closes its side takes it for closed and forgets it; the next task
  of the loop, \<open>connectionDestory\<close>, then fails an assertion, because nobody has told the poller.
\<close>

theorem first_client_ends_program:
  assumes "ready s" "unused a sockfd p"
  shows "\<exists>s1 s2 s3 s4. accept_client reading a sockfd p s = Inr s1 \<and> run_next_task this s1 = Inr s2
    \<and> connected (cs_conn s2) \<and> client_event (length (sv_conns s)) (Rv_data []) s2 = Inr s3
    \<and> isDisConnected (cs_conn s3) \<and> run_next_task this s3 = Inr s4
    \<and> m_connections (cs_server s4) (cn_name (sv_conns (cs_server s4) ! length (sv_conns s))) = None
    \<and> run_next_task this s4 = Inl Assert_failed"
proof -
  let ?i = "length (sv_conns s)"
  obtain sv l where sv: "newConnection True s = Inr sv" "sv_tasks sv = [(l, False, Established ?i)]"
    "length (sv_conns sv) = Suc ?i" "m_connections sv (cn_name (sv_conns sv ! ?i)) = Some ?i"
    by (rule newConnection_ok [OF assms(1)])
  obtain c0 ch where c0: "new_connection reading a sockfd p = Inr c0" "m_stat c0 = KCONNECTING" "tc_channel c0 = a"
    "tc_poller c0 = put_channel a ch p" "ch_fd ch = sockfd" "ch_idxs ch = KNEW" "ch_events ch = 0"
    "wf_buffer (m_inputBuffer c0)" "writableBytes (m_inputBuffer c0) = kInitialSize"
    "length (bufvec (m_inputBuffer c0)) = 8 + kInitialSize" "tc_calls c0 = []"
    by (rule new_connection_ok [OF assms(2)])
  define c1 where "c1 = setConnectionCbs c0"
  have c1: "m_stat c1 = KCONNECTING" "tc_channel c1 = a" "tc_poller c1 = put_channel a ch p" "m_connectionCb c1" "m_closeCb c1"
    "m_inputBuffer c1 = m_inputBuffer c0" "tc_calls c1 = []"
    using c0 by (simp_all add: c1_def setConnectionCbs_def conn_setters)
  have un: "unused a (ch_fd ch) p" using assms(2) c0(5) by simp
  obtain q d where e: "connectionEstablished this c1 = Inr (c1\<lparr>m_stat := KCONNECT, tc_poller := q, tc_calls := tc_calls c1 @ [Call_connection]\<rparr>)"
    "chans q a = Some d" "ch_events d \<noteq> 0"
    by (rule established_ok [OF un c0(6,7) c1(1-4)])
  define c2 where "c2 = c1\<lparr>m_stat := KCONNECT, tc_poller := q, tc_calls := [Call_connection]\<rparr>"
  have "length (bufvec (m_inputBuffer c2)) + extrabuf_size \<le> max_size"
    using c0(10) c1(6) by (simp add: c2_def kInitialSize_def extrabuf_size_def max_size_def)
  moreover have "wf_buffer (m_inputBuffer c2)" "m_stat c2 = KCONNECT" "m_connectionCb c2" "m_closeCb c2"
    using c0(8) c1 by (simp_all add: c2_def)
  ultimately obtain b where r: "conn_handleRead (Rv_data []) c2
      = Inr (c2\<lparr>m_inputBuffer := b, m_stat := KDISCONNECTED, tc_calls := tc_calls c2 @ [Call_connection, Call_close]\<rparr>)"
    using end_of_stream by blast
  define c3 where "c3 = c2\<lparr>m_inputBuffer := b, m_stat := KDISCONNECTED, tc_calls := [Call_connection, Call_connection, Call_close]\<rparr>"
  have fails: "connectionDestory c3 = Inl Assert_failed"
    by (rule destroy_fails [of _ d]) (use e(2,3) c1(2) in \<open>simp_all add: c3_def c2_def\<close>)
  let ?sv2 = "sv\<lparr>sv_tasks := []\<rparr>"
  let ?sv4 = "removeConnectionInLoop True ?i ?sv2"
  let ?s1 = "\<lparr>cs_server = sv, cs_conn = c1\<rparr>" and ?s2 = "\<lparr>cs_server = ?sv2, cs_conn = c2\<rparr>"
    and ?s3 = "\<lparr>cs_server = removeConnection ?i ?sv2, cs_conn = c3\<rparr>"
  obtain l' m where s4: "?sv4 = Inr (?sv2\<lparr>m_connections := m, sv_tasks := [(l', True, Destroyed ?i)]\<rparr>)"
    "m (cn_name (sv_conns sv ! ?i)) = None"
    using sv(4) by (simp add: removeConnectionInLoop_def assertInLoopThread_def add_server_task_def Let_def)
  let ?s4 = "\<lparr>cs_server = ?sv2\<lparr>m_connections := m, sv_tasks := [(l', True, Destroyed ?i)]\<rparr>, cs_conn = c3\<rparr>"
  show ?thesis
  proof (intro exI conjI)
    show "accept_client reading a sockfd p s = Inr ?s1" using sv(1) c0(1) by (simp add: accept_client_def c1_def)
    show "run_next_task this ?s1 = Inr ?s2"
      using sv(2) e(1) c1(7) by (simp add: run_next_task_def run_task_def c2_def)
    show "connected (cs_conn ?s2)" by (simp add: connected_def c2_def)
    show "client_event ?i (Rv_data []) ?s2 = Inr ?s3"
      using r by (simp add: client_event_def c2_def c3_def)
    show "isDisConnected (cs_conn ?s3)" by (simp add: isDisConnected_def c3_def)
    show "run_next_task this ?s3 = Inr ?s4"
      using s4(1) by (simp add: run_next_task_def run_task_def removeConnection_def add_server_task_def)
    show "m_connections (cs_server ?s4) (cn_name (sv_conns (cs_server ?s4) ! ?i)) = None" using s4(2) by simp
    show "run_next_task this ?s4 = Inl Assert_failed" using fails by (simp add: run_next_task_def run_task_def)
  qed
qed

lemma first_client_ends_program_witness:
  "\<exists>s1 s2 s3 s4. accept_client False 1 9 new_EpollPoller sample_server = Inr s1 \<and> run_next_task 5 s1 = Inr s2
    \<and> client_event 0 (Rv_data []) s2 = Inr s3 \<and> run_next_task 5 s3 = Inr s4 \<and> run_next_task 5 s4 = Inl Assert_failed"
proof -
  have "ready sample_server" "sv_conns sample_server = []" by (simp_all add: ready_def sample_server_def)
  moreover have "unused 1 9 new_EpollPoller"
    by (auto simp: unused_def wf_poller_def new_EpollPoller_def usable_def)
  ultimately show ?thesis using first_client_ends_program [of sample_server 1 9 new_EpollPoller False 5] by auto
qed

end
