(* ===== verification/Reactors.thy ===== *)
theory Reactors
  imports EventLoops TcpConnections
begin

text \<open>
  A connection of \<open>src/src/net/TcpConnection.cc\<close> on its loop (\<open>EventLoop.cc\<close>), used by several threads:
  what the connection queues on the loop are functors of the interleaving of \<open>EventLoops\<close>, and what a
  functor or an event does to the connection are the operations of \<open>TcpConnections\<close>. The labelling \<open>task\<close>
  says which functor identities are tasks of the connection; a functor without a label is the client's.
\<close>

section \<open>What the loop's thread does to the connection\<close>

text \<open>
  An event of the channel or a call of a client's callback on the loop's thread. The kernel takes up to
  \<open>k\<close> of the bytes it is offered and reports no error for them.
\<close>

datatype conn_op =
    Op_send "byte list" nat
  | Op_writable nat
  | Op_readable readv_result
  | Op_shutDown
  | Op_forceClose
  | Op_forceCloseWithDelay int
  | Op_startRead
  | Op_stopRead

fun run_op :: "conn_op \<Rightarrow> connection \<Rightarrow> connection res" where
  "run_op (Op_send bs k) c = send_mem True (Wr_ok (min k (length bs))) bs (int (length bs)) c"
| "run_op (Op_writable k) c = handleWrite (Wr_ok (min k (length (contents (m_outputBuffer c))))) c"
| "run_op (Op_readable rv) c = conn_handleRead rv c"
| "run_op Op_shutDown c = shutDown True c"
| "run_op Op_forceClose c = Inr (forceClose c)"
| "run_op (Op_forceCloseWithDelay d) c = Inr (forceCloseWithDelay d c)"
| "run_op Op_startRead c = startRead True c"
| "run_op Op_stopRead c = stopRead True c"

text \<open>The bytes an operation hands over for sending: \<open>send\<close> drops what it is given when not connected.\<close>

fun handed_over :: "conn_op \<Rightarrow> connection \<Rightarrow> byte list" where
  "handed_over (Op_send bs k) c = (if m_stat c = KCONNECT then bs else [])"
| "handed_over _ c = []"

text \<open>The log of what was sent: by which functor, or by none when on the loop's thread itself.\<close>

type_synonym sent_log = "(functor_id option \<times> byte list) list"

fun run_ops :: "conn_op list \<Rightarrow> connection \<times> sent_log \<Rightarrow> (connection \<times> sent_log) res" where
  "run_ops [] (c, sent) = Inr (c, sent)"
| "run_ops (op # ops) (c, sent) =
     bindR (run_op op c) (\<lambda>c'. run_ops ops (c', sent @ [(None, handed_over op c)]))"

text \<open>The functors the connection has bound; a callback of the client's is followed by what it does.\<close>

fun run_conn_task :: "nat \<Rightarrow> conn_task option \<Rightarrow> connection \<Rightarrow> connection res" where
  "run_conn_task k (Some (Task_send bs n)) c = sendInLoop (Wr_ok (min k n)) bs n c"
| "run_conn_task k (Some Task_shutdown) c = shutdownInLoop c"
| "run_conn_task k (Some Task_forceClose) c = forceCloseInLoop c"
| "run_conn_task k (Some (Task_delayed_forceClose d)) c = Inr (forceClose c)"
| "run_conn_task k (Some Task_startRead) c = startReadInLoop c"
| "run_conn_task k (Some Task_stopRead) c = stopReadInLoop c"
| "run_conn_task k _ c = Inr c"

fun task_bytes :: "conn_task option \<Rightarrow> byte list" where
  "task_bytes (Some (Task_send bs n)) = take n bs"
| "task_bytes _ = []"

section \<open>What other threads do to it\<close>

datatype thread_op = Th_send "byte list" | Th_shutDown | Th_forceClose | Th_startRead | Th_stopRead

fun run_thread_op :: "thread_op \<Rightarrow> connection \<Rightarrow> connection res" where
  "run_thread_op (Th_send bs) c = send_mem False (Wr_ok 0) bs (int (length bs)) c"
| "run_thread_op Th_shutDown c = shutDown False c"
| "run_thread_op Th_forceClose c = Inr (forceClose c)"
| "run_thread_op Th_startRead c = startRead False c"
| "run_thread_op Th_stopRead c = stopRead False c"

text \<open>The length a caller gives is an \<open>int\<close>.\<close>

fun fits_int :: "thread_op \<Rightarrow> bool" where
  "fits_int (Th_send bs) = (length bs < 2 ^ 31)"
| "fits_int _ = True"

text \<open>The messages a call hands over; \<open>send\<close> does nothing when the connection is not up.\<close>

fun calls_send :: "thread_op \<Rightarrow> connection \<Rightarrow> byte list list" where
  "calls_send (Th_send bs) c = (if m_stat c = KCONNECT then [bs] else [])"
| "calls_send _ c = []"

text \<open>The tasks between two states that go to the loop; the delayed closing goes to its timers.\<close>

fun is_functor :: "conn_task \<Rightarrow> bool" where
  "is_functor (Task_delayed_forceClose d) = False"
| "is_functor _ = True"

definition new_functors :: "connection \<Rightarrow> connection \<Rightarrow> conn_task list" where
  "new_functors c c' = filter is_functor (drop (length (tc_tasks c)) (tc_tasks c'))"

text \<open>The message a task is to send, when it is one that sends.\<close>

fun send_of :: "conn_task option \<Rightarrow> byte list option" where
  "send_of (Some (Task_send bs n)) = Some (take n bs)"
| "send_of _ = None"

definition messages :: "conn_task list \<Rightarrow> byte list list" where
  "messages ts = List.map_filter (\<lambda>t. send_of (Some t)) ts"

definition send_functors :: "(functor_id \<Rightarrow> conn_task option) \<Rightarrow> functor_id list \<Rightarrow> functor_id list" where
  "send_functors task fs = filter (\<lambda>f. send_of (task f) \<noteq> None) fs"

definition conn_tasks :: "(functor_id \<Rightarrow> conn_task option) \<Rightarrow> functor_id list \<Rightarrow> conn_task list" where
  "conn_tasks task fs = List.map_filter task fs"

section \<open>The threads together\<close>

text \<open>
  The other threads are numbered. \<open>rx_pushing\<close> is the task of a thread that has looked at the state of
  the connection and has not pushed its functor yet; a thread makes one call at a time. Three logs follow
  the run: the messages each thread handed to \<open>send\<close>, the functors the threads pushed, each with its
  thread, and what was sent.
\<close>

record reactor =
  rx_loop :: loop_state
  rx_conn :: connection
  rx_pushing :: "nat \<Rightarrow> conn_task list"
  rx_called :: "nat \<Rightarrow> byte list list"
  rx_pushed :: "(nat \<times> functor_id) list"
  rx_sent :: sent_log

text \<open>
  \<open>thread_other\<close> is any other step of another thread (it pushes a functor of the client's, wakes the
  loop up or calls \<open>quit\<close>), \<open>loop_runs\<close> a step of the loop that calls nothing. What an event or a
  functor queues on the loop are the commands the loop's thread then executes one by one.
\<close>

inductive rx_step :: "(functor_id \<Rightarrow> conn_task option) \<Rightarrow> reactor \<Rightarrow> reactor \<Rightarrow> bool" for task where
  thread_call: "rx_pushing r i = [] \<Longrightarrow> fits_int op \<Longrightarrow> run_thread_op op (rx_conn r) = Inr c
    \<Longrightarrow> rx_step task r (r\<lparr>rx_conn := c, rx_pushing := (rx_pushing r)(i := new_functors (rx_conn r) c),
          rx_called := (rx_called r)(i := rx_called r i @ calls_send op (rx_conn r))\<rparr>)"
| thread_push: "rx_pushing r i = t # ts \<Longrightarrow> task f = Some t
    \<Longrightarrow> rx_step task r (r\<lparr>rx_pushing := (rx_pushing r)(i := ts), rx_pushed := rx_pushed r @ [(i, f)],
          rx_loop := (rx_loop r)\<lparr>lp := push_functor f (lp (rx_loop r)), queued := queued (rx_loop r) @ [f],
            waking := waking (rx_loop r) + 1\<rparr>\<rparr>)"
| thread_other: "loop_step (\<lambda>_. []) (\<lambda>_. []) (rx_loop r) s \<Longrightarrow> where_at s = where_at (rx_loop r)
    \<Longrightarrow> conn_tasks task (drop (length (queued (rx_loop r))) (queued s)) = []
    \<Longrightarrow> rx_step task r (r\<lparr>rx_loop := s\<rparr>)"
| loop_runs: "loop_step (\<lambda>_. []) (\<lambda>_. []) (rx_loop r) s \<Longrightarrow> where_at s \<noteq> where_at (rx_loop r)
    \<Longrightarrow> \<forall>cb evs. where_at (rx_loop r) \<noteq> Handling (Client_cb cb # evs) \<Longrightarrow> ran s = ran (rx_loop r)
    \<Longrightarrow> rx_step task r (r\<lparr>rx_loop := s\<rparr>)"
| event: "where_at (rx_loop r) = Handling (Client_cb cb # evs)
    \<Longrightarrow> run_ops ops (rx_conn r, rx_sent r) = Inr (c, sent)
    \<Longrightarrow> conn_tasks task (concat (map queued_by cmds)) = new_functors (rx_conn r) c
    \<Longrightarrow> rx_step task r (r\<lparr>rx_loop := (rx_loop r)\<lparr>where_at := Doing cmds (Handling evs)\<rparr>,
          rx_conn := c, rx_sent := sent\<rparr>)"
| call_functor: "where_at (rx_loop r) = Calling (f # fs) \<Longrightarrow> run_conn_task k (task f) (rx_conn r) = Inr c'
    \<Longrightarrow> run_ops ops (c', rx_sent r @ [(Some f, task_bytes (task f))]) = Inr (c, sent)
    \<Longrightarrow> conn_tasks task (concat (map queued_by cmds)) = new_functors (rx_conn r) c
    \<Longrightarrow> rx_step task r (r\<lparr>rx_loop := (rx_loop r)\<lparr>ran := ran (rx_loop r) @ [f], where_at := Doing cmds (Calling fs)\<rparr>,
          rx_conn := c, rx_sent := sent\<rparr>)"

text \<open>The loop starts with a connected connection that has sent nothing yet.\<close>

definition rx_starts :: "reactor \<Rightarrow> bool" where
  "rx_starts r \<longleftrightarrow> loop_starts (rx_loop r) \<and> queued (rx_loop r) = [] \<and> rx_sent r = []
     \<and> rx_pushing r = (\<lambda>i. []) \<and> rx_called r = (\<lambda>i. []) \<and> rx_pushed r = []
     \<and> wf_conn (rx_conn r) \<and> m_stat (rx_conn r) = KCONNECT \<and> tc_wire (rx_conn r) = []
     \<and> contents (m_outputBuffer (rx_conn r)) = [] \<and> writerIndex (m_outputBuffer (rx_conn r)) \<le> kCheapPrepend"

section \<open>One operation\<close>

text \<open>The high-water mark of the memory the output buffer has used.\<close>

definition fill :: "connection \<Rightarrow> nat" where
  "fill c = max kCheapPrepend (writerIndex (m_outputBuffer c))"

definition pipe :: "connection \<Rightarrow> byte list" where
  "pipe c = tc_wire c @ contents (m_outputBuffer c)"

definition op_ok :: "connection \<Rightarrow> byte list \<Rightarrow> connection \<Rightarrow> bool" where
  "op_ok c bs c' \<longleftrightarrow> wf_conn c' \<and> (m_stat c = KDISCONNECTED \<longrightarrow> m_stat c' = KDISCONNECTED)
     \<and> (m_stat c' \<noteq> KDISCONNECTED \<longrightarrow> pipe c' = pipe c @ bs) \<and> fill c' \<le> fill c + length bs"

text \<open>An operation that does not touch the sending side.\<close>

lemma op_ok_aside:
  assumes "wf_conn c" "m_stat c = KDISCONNECTED \<longrightarrow> m_stat c' = KDISCONNECTED"
    "m_outputBuffer c' = m_outputBuffer c" "tc_wire c' = tc_wire c" "tc_poller c' = tc_poller c" "tc_channel c' = tc_channel c"
  shows "op_ok c [] c'"
  using assms by (simp add: op_ok_def wf_conn_def writing_def pipe_def fill_def)

text \<open>Asking for read events or no longer doing so leaves the write events alone.\<close>

lemma op_ok_interest:
  assumes "wf_conn c" "op' = Enable_read \<or> op' = Disable_read" "\<And>a p. f a p = run_interest (a, op') p"
  shows "\<exists>p. on_channel f c = Inr (c\<lparr>tc_poller := p\<rparr>) \<and> op_ok c [] (c\<lparr>tc_poller := p, m_reading := v\<rparr>)"
proof -
  have "wf_poller (tc_poller c)" "usable (tc_channel c) (tc_poller c)" using assms(1) by (simp_all add: wf_conn_def)
  from on_channel_interest [OF this assms(3)] obtain p where p: "on_channel f c = Inr (c\<lparr>tc_poller := p\<rparr>)"
    "wf_poller p" "usable (tc_channel c) p"
    "asked_events p (tc_channel c) = apply_op op' (asked_events (tc_poller c) (tc_channel c))" by blast
  have "bit (apply_op op' e) 2 = bit e 2" for e
    using assms(2) by (auto simp: bit_or_iff bit_and_iff bit_not_iff bit_numeral_rec)
  with p assms(1) have "op_ok c [] (c\<lparr>tc_poller := p, m_reading := v\<rparr>)"
    by (simp add: op_ok_def wf_conn_def writing_def pipe_def fill_def)
  with p(1) show ?thesis by blast
qed

lemma startReadInLoop_ok: "wf_conn c \<Longrightarrow> startReadInLoop c = Inr c' \<Longrightarrow> op_ok c [] c'"
  using op_ok_interest [of c Enable_read enableRead True]
  by (auto simp: startReadInLoop_def res_simps intro: op_ok_aside split: if_splits)

lemma stopReadInLoop_ok: "wf_conn c \<Longrightarrow> stopReadInLoop c = Inr c' \<Longrightarrow> op_ok c [] c'"
  using op_ok_interest [of c Disable_read disableRead False]
  by (auto simp: stopReadInLoop_def res_simps intro: op_ok_aside split: if_splits)

lemma handleClose_ok: "wf_conn c \<Longrightarrow> handleClose c = Inr c' \<Longrightarrow> op_ok c [] c'"
  by (rule op_ok_aside) (auto simp: handleClose_def call_cb_def setState_def res_simps split: if_splits)

lemma conn_handleRead_ok: "wf_conn c \<Longrightarrow> conn_handleRead rv c = Inr c' \<Longrightarrow> op_ok c [] c'"
  by (rule op_ok_aside)
    (auto simp: conn_handleRead_def handleClose_def handleError_def call_cb_def setState_def Let_def res_simps split: if_splits)

lemma shutdownInLoop_ok: "wf_conn c \<Longrightarrow> shutdownInLoop c = Inr c' \<Longrightarrow> op_ok c [] c'"
  by (rule op_ok_aside) (auto simp: shutdownInLoop_def res_simps split: if_splits)

lemma op_ok_trans: "op_ok c bs d \<Longrightarrow> op_ok d bs' e \<Longrightarrow> op_ok c (bs @ bs') e"
  by (auto simp: op_ok_def)

lemma shutDown_ok:
  assumes "wf_conn c" "shutDown inLoop c = Inr c'"
  shows "op_ok c [] c'"
proof (cases "m_stat c = KCONNECT")
  case True
  let ?d = "setState KDISCONNECTING c"
  have d: "op_ok c [] ?d" by (rule op_ok_aside) (simp_all add: assms(1) True setState_def)
  have "op_ok ?d [] c'"
  proof (cases inLoop)
    case True
    with \<open>m_stat c = KCONNECT\<close> assms(2) d show ?thesis
      by (intro shutdownInLoop_ok) (simp_all add: shutDown_def op_ok_def)
  next
    case False
    with \<open>m_stat c = KCONNECT\<close> assms(2) have "c' = add_task Task_shutdown ?d" by (simp add: shutDown_def)
    moreover have "wf_conn ?d" using d by (simp add: op_ok_def)
    ultimately show ?thesis by (intro op_ok_aside) (simp_all add: add_task_def)
  qed
  with op_ok_trans [OF d] show ?thesis by simp
qed (use assms in \<open>simp add: shutDown_def op_ok_aside\<close>)

lemma forceClose_ok: "wf_conn c \<Longrightarrow> op_ok c [] (forceClose c)"
  by (rule op_ok_aside) (simp_all add: forceClose_def setState_def add_task_def)

lemma forceCloseWithDelay_ok: "wf_conn c \<Longrightarrow> op_ok c [] (forceCloseWithDelay d c)"
  by (rule op_ok_aside) (simp_all add: forceCloseWithDelay_def setState_def add_task_def)

lemma handleWrite_op_ok:
  assumes w: "wf_conn c"
  shows "\<exists>c'. run_op (Op_writable k) c = Inr c' \<and> op_ok c [] c'"
proof (cases "writing c \<and> 0 < min k (length (contents (m_outputBuffer c)))")
  case True
  let ?n = "min k (length (contents (m_outputBuffer c)))"
  have n: "0 < ?n" "?n \<le> length (contents (m_outputBuffer c))" using True by simp_all
  show ?thesis
    by (rule handleWrite_ok [OF w _ n]) (use True in \<open>auto simp: op_ok_def pipe_def fill_def\<close>)
next
  case False
  then have "\<not> writing c \<or> min k (length (contents (m_outputBuffer c))) = 0" by auto
  from handleWrite_idle [OF w this] have "run_op (Op_writable k) c = Inr c" by simp
  with op_ok_aside [OF w, of c] show ?thesis by simp
qed

text \<open>A task to send more than its memory holds ends well only when the kernel took all it was offered.\<close>

lemma append_mem_short: "length d < len \<Longrightarrow> append_mem d len b \<noteq> Inr b'"
  by (auto simp: append_mem_def res_simps)

lemma append_mem_take: "len \<le> length d \<Longrightarrow> append_mem (take len d) len b = append_mem d len b"
  by (simp add: append_mem_def)

lemma sendInLoop_take:
  assumes "n \<le> length bs" "k \<le> n"
  shows "sendInLoop (Wr_ok k) bs n c = sendInLoop (Wr_ok k) (take n bs) n c"
proof -
  have a: "queue_rest ch (drop j (take n bs)) (n - j) s = queue_rest ch (drop j bs) (n - j) s" for ch j s
    using append_mem_take [of "n - j" "drop j bs"] assms(1) by (simp add: drop_take queue_rest_def)
  have t: "try_write (Wr_ok k) (take n bs) n c = try_write (Wr_ok k) bs n c"
    by (simp add: try_write_def)
  have f: "try_write (Wr_ok k) bs n c = (k, n - k, snd (snd (try_write (Wr_ok k) bs n c)))"
    using assms(2) by (simp add: try_write_def Let_def)
  show ?thesis
  proof (cases "\<exists>ch. the_channel c = Inr ch")
    case True
    then obtain ch where ch: "the_channel c = Inr ch" by blast
    show ?thesis
    proof (cases "\<not> isWriting ch \<and> readableBytes (m_outputBuffer c) = 0")
      case True
      from f obtain s where s: "try_write (Wr_ok k) bs n c = (k, n - k, s)" by blast
      show ?thesis unfolding sendInLoop_def ch bindR_Inr t s if_P [OF True] using a [of ch k s] by simp
    next
      case False
      show ?thesis unfolding sendInLoop_def ch bindR_Inr if_not_P [OF False] using a [of ch 0 c] by simp
    qed
  next
    case False
    then obtain e where "the_channel c = Inl e" by (cases "the_channel c") auto
    then show ?thesis by (simp add: sendInLoop_def)
  qed
qed

lemma sendInLoop_short:
  assumes "wf_conn c" "m_stat c \<noteq> KDISCONNECTED" "length bs < n" "k \<le> n" "sendInLoop (Wr_ok k) bs n c = Inr c'"
  shows "k = n \<and> \<not> writing c \<and> try_write (Wr_ok k) bs n c = (k, n - k, c')"
proof -
  have wf: "usable (tc_channel c) (tc_poller c)" "wf_buffer (m_outputBuffer c)" "writing c \<longleftrightarrow> contents (m_outputBuffer c) \<noteq> []"
    using assms(1) by (simp_all add: wf_conn_def)
  from the_channel_ok [OF wf(1)] obtain ch where ch: "the_channel c = Inr ch" "isWriting ch \<longleftrightarrow> writing c" by blast
  have q: "queue_rest ch (drop j bs) (n - j) s \<noteq> Inr c'" if "j < n" for j s
    using that assms(3) append_mem_short [of "drop j bs" "n - j"]
    by (fastforce simp: queue_rest_def Let_def res_simps)
  have z: "readableBytes (m_outputBuffer c) = 0" if "\<not> writing c"
    using that wf(3) length_contents [OF wf(2), symmetric] by simp
  obtain s where s: "try_write (Wr_ok k) bs n c = (k, n - k, s)"
    using assms(4) by (simp add: try_write_def Let_def)
  show ?thesis
  proof (cases "writing c")
    case True
    then show ?thesis using assms(2,3,5) ch q [of 0 c] by (simp add: sendInLoop_def)
  next
    case False
    with assms(2,5) ch z have "(if 0 < n - k then queue_rest ch (drop k bs) (n - k) s else Inr s) = Inr c'"
      by (simp add: sendInLoop_def s)
    with q [of k s] False assms(4) show ?thesis by (auto simp: s split: if_splits)
  qed
qed

lemma sendInLoop_op_ok:
  assumes w: "wf_conn c" and s: "sendInLoop (Wr_ok (min k n)) bs n c = Inr c'"
    and room: "fill c + length (take n bs) \<le> max_size"
  shows "op_ok c (take n bs) c'"
proof (cases "m_stat c = KDISCONNECTED")
  case True
  then have "c' = c" using s by (simp add: sendInLoop_def)
  with True w show ?thesis by (simp add: op_ok_def)
next
  case st: False
  show ?thesis
  proof (cases "n \<le> length bs")
    case True
    then have "run_conn (Ev_send (take n bs) k) c = Inr c'" using s sendInLoop_take [OF True, of "min k n"] by simp
    with run_conn_ok [OF w st, of "Ev_send (take n bs) k"] room show ?thesis
      by (simp add: op_ok_def fill_def pipe_def)
  next
    case False
    then have "length bs < n" by simp
    from sendInLoop_short [OF w st this min.cobounded2 s] have c': "min k n = n" "\<not> writing c"
      "try_write (Wr_ok n) bs n c = (n, 0, c')" by auto
    have "contents (m_outputBuffer c) = []" using w c'(2) by (simp add: wf_conn_def)
    then show ?thesis using w st c'(2,3)
      by (cases "m_sendFinishCb c") (auto simp: try_write_def Let_def add_task_def op_ok_def pipe_def fill_def wf_conn_def writing_def
          del: max.bounded_iff)
  qed
qed

lemma run_op_ok:
  assumes w: "wf_conn c" and r: "run_op op c = Inr c'" and room: "fill c + length (handed_over op c) \<le> max_size"
  shows "op_ok c (handed_over op c) c'"
proof (cases op)
  case (Op_send bs k)
  show ?thesis
  proof (cases "m_stat c = KCONNECT")
    case True
    have "length bs \<le> max_size" using room True Op_send by simp
    then have "i32_to_size (int (length bs)) = length bs" by (simp add: i32_to_size_def max_size_def nat_mod_distrib)
    then have "sendInLoop (Wr_ok (min k (length bs))) bs (length bs) c = Inr c'"
      using r True Op_send by (simp add: send_mem_def send_piece_def sendInLoop_piece_def)
    from sendInLoop_op_ok [OF w this] room True Op_send show ?thesis by simp
  next
    case False
    with r Op_send have "c' = c" by (simp add: send_mem_def send_piece_def)
    with False Op_send op_ok_aside [OF w] show ?thesis by simp
  qed
next
  case (Op_writable k)
  with handleWrite_op_ok [OF w, of k] r show ?thesis by auto
qed (use w r in \<open>auto simp: startRead_def stopRead_def intro: conn_handleRead_ok shutDown_ok forceClose_ok forceCloseWithDelay_ok
       startReadInLoop_ok stopReadInLoop_ok\<close>)

lemma run_task_ok:
  assumes w: "wf_conn c" and r: "run_conn_task k t c = Inr c'" and room: "fill c + length (task_bytes t) \<le> max_size"
  shows "op_ok c (task_bytes t) c'"
proof (cases t)
  case None
  with r op_ok_aside [OF w] show ?thesis by simp
next
  case (Some u)
  show ?thesis
  proof (cases u)
    case (Task_send bs n)
    with Some r room sendInLoop_op_ok [OF w] show ?thesis by simp
  qed (use Some w r op_ok_aside [OF w] in \<open>auto simp: forceCloseInLoop_def intro: shutdownInLoop_ok handleClose_ok forceClose_ok
         startReadInLoop_ok stopReadInLoop_ok split: if_splits\<close>)
qed

lemma run_thread_op_ok:
  assumes w: "wf_conn c" and r: "run_thread_op op c = Inr c'"
  shows "op_ok c [] c'"
proof -
  have a: "op_ok c [] (add_task t c)" for t by (rule op_ok_aside) (simp_all add: w add_task_def)
  show ?thesis
    using r a op_ok_aside [OF w, of c] shutDown_ok [OF w] forceClose_ok [OF w]
    by (cases op) (auto simp: send_mem_def send_piece_def startRead_def stopRead_def split: if_splits)
qed

section \<open>What is queued\<close>

text \<open>On the loop's thread nothing queues a task to send: it sends at once.\<close>

definition no_sends :: "connection \<Rightarrow> connection \<Rightarrow> bool" where
  "no_sends c c' \<longleftrightarrow> (\<exists>ts. tc_tasks c' = tc_tasks c @ ts \<and> messages ts = [])"

lemma map_filter_append [simp]: "List.map_filter f (xs @ ys) = List.map_filter f xs @ List.map_filter f ys"
  by (induction xs) (simp_all add: List.map_filter_simps split: option.splits)

lemma messages_simps [simp]:
  "messages [] = []" "messages (ts @ us) = messages ts @ messages us"
  "messages (t # ts) = (case send_of (Some t) of None \<Rightarrow> messages ts | Some bs \<Rightarrow> bs # messages ts)"
  by (simp_all add: messages_def List.map_filter_simps split: option.splits)

lemma no_sends_refl [simp]: "no_sends c c"
  by (simp add: no_sends_def)




















lemma send_functors_simps [simp]:
  "send_functors task [] = []" "send_functors task (fs @ gs) = send_functors task fs @ send_functors task gs"
  "send_functors task (f # fs) = (if send_of (task f) = None then [] else [f]) @ send_functors task fs"
  by (simp_all add: send_functors_def)


section \<open>The invariant\<close>

definition sent_bytes :: "sent_log \<Rightarrow> byte list" where
  "sent_bytes sent = concat (map snd sent)"

definition by_functors :: "sent_log \<Rightarrow> byte list" where
  "by_functors sent = concat (map snd (filter (\<lambda>x. fst x \<noteq> None) sent))"

definition conn_inv :: "connection \<Rightarrow> sent_log \<Rightarrow> bool" where
  "conn_inv c sent \<longleftrightarrow> (kCheapPrepend + length (sent_bytes sent) \<le> max_size \<longrightarrow>
     wf_conn c \<and> fill c \<le> kCheapPrepend + length (sent_bytes sent)
     \<and> (m_stat c \<noteq> KDISCONNECTED \<longrightarrow> pipe c = sent_bytes sent))"

definition rx_inv :: "(functor_id \<Rightarrow> conn_task option) \<Rightarrow> reactor \<Rightarrow> bool" where
  "rx_inv task r \<longleftrightarrow> loop_inv (rx_loop r) \<and> conn_inv (rx_conn r) (rx_sent r)
     \<and> by_functors (rx_sent r) = concat (map (\<lambda>f. task_bytes (task f)) (ran (rx_loop r)))"

text \<open>
  What a thread handed to \<open>send\<close> is in the functors it pushed or is being pushed, and the functors that
  send are the ones threads pushed, in that order.
\<close>

definition pushed_by :: "nat \<Rightarrow> (nat \<times> functor_id) list \<Rightarrow> functor_id list" where
  "pushed_by i ps = map snd (filter (\<lambda>p. fst p = i) ps)"


lemma sent_simps [simp]:
  "sent_bytes [] = []" "sent_bytes (xs @ ys) = sent_bytes xs @ sent_bytes ys" "sent_bytes (x # xs) = snd x @ sent_bytes xs"
  "by_functors [] = []" "by_functors (xs @ ys) = by_functors xs @ by_functors ys"
  "by_functors ((None, bs) # xs) = by_functors xs" "by_functors ((Some f, bs) # xs) = bs @ by_functors xs"
  by (simp_all add: sent_bytes_def by_functors_def)

lemma conn_inv_step:
  assumes "conn_inv c sent" "wf_conn c \<Longrightarrow> fill c + length (snd x) \<le> max_size \<Longrightarrow> op_ok c (snd x) c'"
  shows "conn_inv c' (sent @ [x])"
proof -
  have "wf_conn c' \<and> fill c' \<le> kCheapPrepend + length (sent_bytes sent) + length (snd x)
      \<and> (m_stat c' \<noteq> KDISCONNECTED \<longrightarrow> pipe c' = sent_bytes sent @ snd x)"
    if b: "kCheapPrepend + length (sent_bytes sent) + length (snd x) \<le> max_size"
  proof -
    have c: "wf_conn c" "fill c \<le> kCheapPrepend + length (sent_bytes sent)" "m_stat c \<noteq> KDISCONNECTED \<longrightarrow> pipe c = sent_bytes sent"
      using assms(1) b by (simp_all add: conn_inv_def)
    with b have "op_ok c (snd x) c'" by (intro assms(2)) simp_all
    with c show ?thesis by (auto simp: op_ok_def)
  qed
  then show ?thesis by (auto simp: conn_inv_def add.assoc)
qed

lemma conn_inv_aside: "conn_inv c sent \<Longrightarrow> (wf_conn c \<Longrightarrow> op_ok c [] c') \<Longrightarrow> conn_inv c' sent"
  using conn_inv_step [of c sent "(None, [])" c'] by (simp add: conn_inv_def)

lemma run_ops_inv:
  "run_ops ops (c, sent) = Inr (c', sent') \<Longrightarrow> conn_inv c sent \<Longrightarrow> conn_inv c' sent' \<and> by_functors sent' = by_functors sent"
proof (induction ops arbitrary: c sent)
  case (Cons op ops)
  from Cons.prems(1) obtain d where d: "run_op op c = Inr d" "run_ops ops (d, sent @ [(None, handed_over op c)]) = Inr (c', sent')"
    by (auto simp: res_simps)
  have "conn_inv d (sent @ [(None, handed_over op c)])"
    by (rule conn_inv_step [OF Cons.prems(2)]) (simp add: run_op_ok [OF _ d(1)])
  from Cons.IH [OF d(2) this] show ?case by simp
qed simp

lemma loop_steps:
  "where_at s = Handling (Client_cb cb # evs) \<Longrightarrow> loop_inv s \<Longrightarrow> loop_inv (s\<lparr>where_at := Doing cmds (Handling evs)\<rparr>)"
  "where_at s = Calling (f # fs) \<Longrightarrow> loop_inv s \<Longrightarrow> loop_inv (s\<lparr>ran := ran s @ [f], where_at := Doing cmds (Calling fs)\<rparr>)"
  "loop_inv s \<Longrightarrow> loop_inv (s\<lparr>lp := push_functor g (lp s), queued := queued s @ [g], waking := waking s + 1\<rparr>)"
proof -
  assume w: "where_at s = Handling (Client_cb cb # evs)" and i: "loop_inv s"
  from loop_step.handle_client [OF w, of "\<lambda>_. []" "\<lambda>_. cmds"] show "loop_inv (s\<lparr>where_at := Doing cmds (Handling evs)\<rparr>)"
    by (rule loop_inv_step) (rule i)
next
  assume w: "where_at s = Calling (f # fs)" and i: "loop_inv s"
  from loop_step.call [OF w, of "\<lambda>_. cmds" "\<lambda>_. []"]
  show "loop_inv (s\<lparr>ran := ran s @ [f], where_at := Doing cmds (Calling fs)\<rparr>)"
    by (rule loop_inv_step) (rule i)
next
  assume i: "loop_inv s"
  from loop_step.other_push [of "\<lambda>_. []" "\<lambda>_. []" s g]
  show "loop_inv (s\<lparr>lp := push_functor g (lp s), queued := queued s @ [g], waking := waking s + 1\<rparr>)"
    by (rule loop_inv_step) (rule i)
qed

inductive_cases rx_stepE: "rx_step task r r'"

lemma rx_inv_step:
  assumes "rx_step task r r'" "rx_inv task r"
  shows "rx_inv task r'"
  using assms
proof (induction rule: rx_step.induct)
  case (thread_call r i op c)
  from thread_call.prems have "conn_inv (rx_conn r) (rx_sent r)" by (simp add: rx_inv_def)
  then have "conn_inv c (rx_sent r)" by (rule conn_inv_aside) (rule run_thread_op_ok [OF _ thread_call.hyps(3)])
  with thread_call show ?case by (simp add: rx_inv_def)
next
  case (thread_push r i t ts f)
  with loop_steps(3) [of "rx_loop r" f] show ?case by (simp add: rx_inv_def)
next
  case (thread_other r s)
  then have "ran s = ran (rx_loop r)" by (auto elim: loop_step.cases)
  with thread_other loop_inv_step show ?case by (auto simp: rx_inv_def)
next
  case (loop_runs r s)
  with loop_inv_step show ?case by (auto simp: rx_inv_def)
next
  case (event r cb evs ops c sent cmds)
  with run_ops_inv [OF event.hyps(2)] show ?case by (simp add: rx_inv_def loop_steps)
next
  case (call_functor r f fs k c' ops c sent cmds)
  have i: "conn_inv (rx_conn r) (rx_sent r)" using call_functor.prems by (simp add: rx_inv_def)
  have "conn_inv c' (rx_sent r @ [(Some f, task_bytes (task f))])"
    by (rule conn_inv_step [OF i]) (simp add: run_task_ok [OF _ call_functor.hyps(2)])
  from run_ops_inv [OF call_functor.hyps(3) this] call_functor show ?case by (simp add: rx_inv_def loop_steps)
qed

lemma rx_inv_start: "rx_starts r \<Longrightarrow> rx_inv task r"
  using loop_inv_start
  by (auto simp: rx_starts_def rx_inv_def conn_inv_def fill_def pipe_def loop_starts_def)
    (auto simp: start_state_def)

interpretation reactor: state_invariant rx_starts "rx_step task" "rx_inv task" for task
  by unfold_locales (auto intro: rx_inv_start rx_inv_step)

text \<open>The calls and the queue.\<close>

lemma pushed_by_simps [simp]:
  "pushed_by i [] = []" "pushed_by i (ps @ qs) = pushed_by i ps @ pushed_by i qs"
  "pushed_by i [(j, f)] = (if j = i then [f] else [])"
  by (simp_all add: pushed_by_def)

lemma conn_tasks_simps [simp]:
  "conn_tasks task [] = []" "conn_tasks task (fs @ gs) = conn_tasks task fs @ conn_tasks task gs"
  "task f = Some t \<Longrightarrow> conn_tasks task [f] = [t]"
  by (simp_all add: conn_tasks_def List.map_filter_simps)





section \<open>The property\<close>



end
