(* ===== verification/TimerThreads.thy ===== *)
theory TimerThreads
  imports TimerQueues
begin

text \<open>
  The timer queue (\<open>src/src/net/TimerQueue.cc\<close>) used from other threads than the loop's: \<open>addTimer\<close> and
  \<open>cancel\<close> queue \<open>addTimerInLoop\<close> and \<open>cancelInLoop\<close> on the loop, which runs them in order between its own
  operations, and \<open>addTimer\<close> reads the number of its timer only after it has handed the timer over. The handling of the
  kernel timer (\<open>handleRead\<close>) is one step: another thread that allocates a timer meanwhile does so before
  or after it, which only the choice of a free address could tell.
\<close>

section \<open>Calls from other threads\<close>

datatype tq_functor = F_addTimerInLoop nat | F_cancelInLoop timer_id

text \<open>
  \<open>tt_calls\<close> are the calls of \<open>addTimer\<close> that have queued their functor and not returned yet: the pointer,
  and the number the timer was given. \<open>tt_ids\<close> are the results, each with the number its timer was given.
\<close>

record timer_threads =
  tt_q :: timer_queue
  tt_functors :: "tq_functor list"
  tt_calls :: "(nat \<times> int) list"
  tt_ids :: "(int \<times> timer_id) list"

definition new_timer_threads :: "int \<Rightarrow> timer_threads" where
  "new_timer_threads now = \<lparr>tt_q = new_timer_queue now, tt_functors = [], tt_calls = [], tt_ids = []\<rparr>"

text \<open>\<open>addTimer\<close> on another thread: up to the queueing of the functor, and the reading of the number.\<close>

definition addTimer_queue ::
  "((nat \<Rightarrow> timer option) \<Rightarrow> nat option) \<Rightarrow> callback \<Rightarrow> int \<Rightarrow> int \<Rightarrow> bool \<Rightarrow> timer_threads \<Rightarrow> timer_threads res" where
  "addTimer_queue malloc cb when interval rep s =
     bindR (new_timer malloc cb when interval rep (tt_q s)) (\<lambda>(timer, q).
       Inr (s\<lparr>tt_q := q, tt_functors := tt_functors s @ [F_addTimerInLoop timer],
              tt_calls := tt_calls s @ [(timer, numTimerCreated (tt_q s))]\<rparr>))"

definition addTimer_return :: "nat \<times> int \<Rightarrow> timer_threads \<Rightarrow> timer_threads res" where
  "addTimer_return c s =
     (if c \<in> set (tt_calls s) then
        bindR (deref (fst c) (tt_q s)) (\<lambda>t.
          Inr (s\<lparr>tt_calls := remove1 c (tt_calls s), tt_ids := tt_ids s @ [(snd c, fst c, m_sequence t)]\<rparr>))
      else Inr s)"

definition cancel_queue :: "timer_id \<Rightarrow> timer_threads \<Rightarrow> timer_threads" where
  "cancel_queue timerId s = s\<lparr>tt_functors := tt_functors s @ [F_cancelInLoop timerId]\<rparr>"

definition lift_q :: "(timer_queue \<Rightarrow> timer_queue res) \<Rightarrow> timer_threads \<Rightarrow> timer_threads res" where
  "lift_q f s = bindR (f (tt_q s)) (\<lambda>q. Inr (s\<lparr>tt_q := q\<rparr>))"

definition run_tq_functor :: "tq_functor \<Rightarrow> timer_threads \<Rightarrow> timer_threads res" where
  "run_tq_functor f = lift_q (case f of F_addTimerInLoop a \<Rightarrow> addTimerInLoop a | F_cancelInLoop x \<Rightarrow> cancelInLoop x)"

text \<open>One step of any thread: the loop's runs the next functor, or an event of the queue itself.\<close>

datatype tt_event =
    Th_add callback int int bool
  | Th_return "nat \<times> int"
  | Th_cancel timer_id
  | Loop_functor
  | Loop_event tq_event

fun run_tt ::
  "((nat \<Rightarrow> timer option) \<Rightarrow> nat option) \<Rightarrow> (callback \<Rightarrow> timer_queue \<Rightarrow> tq_op list)
     \<Rightarrow> tt_event \<Rightarrow> timer_threads \<Rightarrow> timer_threads res" where
  "run_tt malloc client (Th_add cb when interval rep) s = addTimer_queue malloc cb when interval rep s"
| "run_tt malloc client (Th_return c) s = addTimer_return c s"
| "run_tt malloc client (Th_cancel x) s = Inr (cancel_queue x s)"
| "run_tt malloc client Loop_functor s =
     (case tt_functors s of [] \<Rightarrow> Inr s | f # fs \<Rightarrow> run_tq_functor f (s\<lparr>tt_functors := fs\<rparr>))"
| "run_tt malloc client (Loop_event e) s = lift_q (run_event malloc client e) s"

section \<open>The invariant\<close>

text \<open>The timers that are live are those of the queue and those on their way to it, each once.\<close>

fun added_timers :: "tq_functor list \<Rightarrow> nat list" where
  "added_timers [] = []"
| "added_timers (F_addTimerInLoop a # fs) = a # added_timers fs"
| "added_timers (F_cancelInLoop x # fs) = added_timers fs"

definition wf_tt :: "timer_threads \<Rightarrow> bool" where
  "wf_tt s \<longleftrightarrow> distinct (added_timers (tt_functors s)) \<and> (\<exists>Q. wf_tq Q (set (added_timers (tt_functors s))) (tt_q s))"

text \<open>How a run may end: only the reading of the number may use a destroyed timer.\<close>

definition tt_okay :: "tt_event list \<Rightarrow> timer_threads res \<Rightarrow> bool" where
  "tt_okay events r \<longleftrightarrow> r = Inl Bad_alloc \<or> (\<exists>s. r = Inr s \<and> wf_tt s)
     \<or> r = Inl Undefined \<and> (\<exists>c. Th_return c \<in> set events)"

lemma added_timers_append [simp]: "added_timers (fs @ gs) = added_timers fs @ added_timers gs"
  by (induction fs rule: added_timers.induct) simp_all

lemma lift_q_okay:
  assumes "okay (\<lambda>q. \<exists>Q. wf_tq Q (set (added_timers (tt_functors s))) q) (f (tt_q s))"
    and "distinct (added_timers (tt_functors s))"
  shows "tt_okay es (lift_q f s)"
  using assms by (auto simp: okay_def lift_q_def tt_okay_def wf_tt_def)

lemma cancelInLoop_okay:
  assumes "wf_tq Q E q"
  shows "okay (\<lambda>q. \<exists>Q. wf_tq Q E q) (cancelInLoop x q)"
  using do_op_wf [OF assms, of "\<lambda>_. None" "Op_cancel x"] by (simp add: malloc_ok_def cancel_def)

lemma run_tt_okay:
  assumes w: "wf_tt s" and m: "malloc_ok malloc"
  shows "tt_okay [e] (run_tt malloc client e s)"
proof -
  from w obtain Q where d: "distinct (added_timers (tt_functors s))"
    and Q: "wf_tq Q (set (added_timers (tt_functors s))) (tt_q s)" by (auto simp: wf_tt_def)
  show ?thesis
  proof (cases e)
    case (Th_add cb t i r)
    show ?thesis
    proof (cases "new_timer malloc cb t i r (tt_q s)")
      case (Inl f)
      then have "f = Bad_alloc" by (auto simp: new_timer_def split: option.splits)
      with Inl Th_add show ?thesis by (simp add: tt_okay_def addTimer_queue_def)
    next
      case (Inr p)
      obtain a q where p: "p = (a, q)" by (cases p)
      have "wf_tq Q (insert a (set (added_timers (tt_functors s)))) q" "a \<notin> set (added_timers (tt_functors s))"
        using new_timer_wf [OF Q m, of cb t i r a q] Inr p by auto
      with d Inr p Th_add show ?thesis by (auto simp: tt_okay_def addTimer_queue_def wf_tt_def)
    qed
  next
    case (Th_return c)
    then show ?thesis using w
      by (auto simp: tt_okay_def addTimer_return_def deref_def wf_tt_def split: option.split)
  next
    case (Th_cancel x)
    then show ?thesis using w by (simp add: tt_okay_def cancel_queue_def wf_tt_def)
  next
    case (Loop_event ev)
    have "okay (\<lambda>q. \<exists>Q. wf_tq Q (set (added_timers (tt_functors s))) q) (run_event malloc client ev (tt_q s))"
      using do_op_wf [OF Q m] handleRead_wf [OF Q m] by (cases ev) simp_all
    from lift_q_okay [where f = "run_event malloc client ev", OF this d] Loop_event show ?thesis by simp
  next
    case Loop_functor
    show ?thesis
    proof (cases "tt_functors s")
      case Nil
      with w Loop_functor show ?thesis by (simp add: tt_okay_def)
    next
      case (Cons f fs)
      have "okay (\<lambda>q. \<exists>Q. wf_tq Q (set (added_timers fs)) q)
          ((case f of F_addTimerInLoop a \<Rightarrow> addTimerInLoop a | F_cancelInLoop x \<Rightarrow> cancelInLoop x) (tt_q s))"
      proof (cases f)
        case (F_addTimerInLoop a)
        with Q d Cons have "wf_tq Q (insert a (set (added_timers fs))) (tt_q s)" "a \<notin> set (added_timers fs)" by simp_all
        from addTimerInLoop_wf [OF this] F_addTimerInLoop show ?thesis by (auto simp: okay_def)
      next
        case (F_cancelInLoop x)
        with Q Cons cancelInLoop_okay show ?thesis by auto
      qed
      with lift_q_okay [of "s\<lparr>tt_functors := fs\<rparr>"] d Cons Loop_functor show ?thesis
        by (cases f) (simp_all add: run_tq_functor_def)
    qed
  qed
qed

lemma run_tts_okay:
  "wf_tt s \<Longrightarrow> malloc_ok malloc \<Longrightarrow> tt_okay events (foldR (run_tt malloc client) events s)"
proof (induction events arbitrary: s)
  case Nil
  then show ?case by (simp add: tt_okay_def)
next
  case (Cons e es)
  from run_tt_okay [OF Cons.prems, of e client] show ?case
    using Cons.IH Cons.prems(2) by (fastforce simp: tt_okay_def)
qed

section \<open>The property\<close>

text \<open>What one call of \<open>addTimer\<close> for a time already reached, and the expiry that follows, do to an empty queue.\<close>

definition added_due :: "nat \<Rightarrow> callback \<Rightarrow> timer_threads \<Rightarrow> timer_threads" where
  "added_due a cb s = s\<lparr>tt_q := (tt_q s)\<lparr>numTimerCreated := numTimerCreated (tt_q s) + 1, timerFd := None\<rparr>,
     tt_calls := tt_calls s @ [(a, numTimerCreated (tt_q s))]\<rparr>"

lemma fire_at_once:
  assumes m: "malloc_ok malloc" "malloc Map.empty = Some a"
    and s: "heap (tt_q s) = Map.empty" "m_timeList (tt_q s) = []" "m_activeTimers (tt_q s) = []" "tt_functors s = []"
      "\<not> m_callingExpiredTimer (tt_q s)"
  shows "foldR (run_tt malloc (\<lambda>_ _. [])) [Th_add cb (clock (tt_q s)) 0 False, Loop_functor, Loop_event Ev_expire] s
    = Inr (added_due a cb s)"
proof -
  have a: "a < UINTPTR_MAX" using m by (auto simp: malloc_ok_def)
  then show ?thesis using m(2) s
    by (simp add: addTimer_queue_def new_timer_def run_tq_functor_def lift_q_def addTimerInLoop_def tq_insert_def deref_def
        set_insert_def resetTimerFd_def tq_handleRead_def readTimerfd_def getExpired_def set_before_def set_from_def
        set_erase_def run_timer_def tq_reset_def reset_one_def free_timer_def ts_valid_def ts_invalid_def added_due_def Let_def)
qed

text \<open>
  C7. The timers of a loop may be added and cancelled by any thread: however the calls of other
  threads interleave with the loop's own operations and with the callbacks of expiring timers, no assertion
  of \<open>TimerQueue\<close> fails and the loop never uses a destroyed timer; every live timer is in the queue or on its way to it.
  The one exception is \<open>addTimer\<close> itself: called from another thread it reads the number of the timer after
  handing it over. A timer that is due at once can have run by then, and the call reads freed memory, or, when the
  memory was used again, returns the id of a timer of somebody else.
\<close>

theorem timers_from_threads:
  assumes "malloc_ok malloc"
  shows "tt_okay events (foldR (run_tt malloc client) events (new_timer_threads now))
    \<and> (malloc Map.empty = Some a \<longrightarrow>
         (\<exists>es. foldR (run_tt malloc (\<lambda>_ _. [])) es (new_timer_threads now) = Inl Undefined)
       \<and> (\<exists>es s. foldR (run_tt malloc (\<lambda>_ _. [])) es (new_timer_threads now) = Inr s
            \<and> tt_ids s = [(0, a, 1)] \<and> a \<in> set (map snd (m_timeList (tt_q s)))))"
proof (intro conjI impI)
  have "wf_tt (new_timer_threads now)" using wf_tq_new by (auto simp: wf_tt_def new_timer_threads_def)
  from run_tts_okay [OF this assms] show "tt_okay events (foldR (run_tt malloc client) events (new_timer_threads now))" .
next
  assume a: "malloc Map.empty = Some a"
  let ?run = "foldR (run_tt malloc (\<lambda>_ _. []))" and ?s = "new_timer_threads now"
  let ?t = "added_due a 7 ?s"
  let ?es = "[Th_add 7 now 0 False, Loop_functor, Loop_event Ev_expire]"
  have e: "?run ?es ?s = Inr ?t"
    using fire_at_once [OF assms a, of ?s 7] by (simp add: new_timer_threads_def new_timer_queue_def)
  have c: "tt_calls ?t = [(a, 0)]" "heap (tt_q ?t) = Map.empty"
    by (simp_all add: added_due_def new_timer_threads_def new_timer_queue_def)
  have "?run (?es @ [Th_return (a, 0)]) ?s = Inl Undefined"
    unfolding foldR_append e using c by (simp add: addTimer_return_def deref_def)
  then show "\<exists>es. ?run es ?s = Inl Undefined" by blast
  have "\<exists>s. ?run (?es @ [Th_add 8 (now + 5) 0 False, Loop_functor, Th_return (a, 0)]) ?s = Inr s
      \<and> tt_ids s = [(0, a, 1)] \<and> a \<in> set (map snd (m_timeList (tt_q s)))"
    unfolding foldR_append e using a
    by (simp add: added_due_def new_timer_threads_def new_timer_queue_def addTimer_queue_def new_timer_def run_tq_functor_def
        lift_q_def addTimerInLoop_def tq_insert_def deref_def set_insert_def resetTimerFd_def addTimer_return_def Let_def)
  then show "\<exists>es s. ?run es ?s = Inr s \<and> tt_ids s = [(0, a, 1)] \<and> a \<in> set (map snd (m_timeList (tt_q s)))" by blast
qed

lemma timers_from_threads_witness:
  "malloc_ok sample_malloc
    \<and> tt_okay [Th_add 1 100 50 True, Loop_functor, Th_return (7, 0), Loop_event (Ev_op (Op_wait 200)), Loop_event Ev_expire, Th_cancel (7, 0)]
       (foldR (run_tt sample_malloc (\<lambda>cb q. [Op_cancel (7, 0)]))
         [Th_add 1 100 50 True, Loop_functor, Th_return (7, 0), Loop_event (Ev_op (Op_wait 200)), Loop_event Ev_expire, Th_cancel (7, 0)]
         (new_timer_threads 0))
    \<and> (\<exists>es s. foldR (run_tt sample_malloc (\<lambda>_ _. [])) es (new_timer_threads 0) = Inr s \<and> tt_ids s = [(0, 7, 1)])"
proof -
  have "sample_malloc Map.empty = Some 7" by (simp add: sample_malloc_def)
  with timers_from_threads [OF sample_malloc_ok] sample_malloc_ok show ?thesis by blast
qed

end
