(* ===== verification/LogRoutes.thy ===== *)
theory LogRoutes
  imports Demos AsyncLives
begin

text \<open>
  The way of a log line through the program of \<open>src/src/main.cc\<close>: the statements of \<open>Log.h\<close>, made on any
  number of threads, call the output function of \<open>Log.cc\<close>, which is the \<open>append\<close> of the \<open>AsyncLog\<close> of
  \<open>main\<close>, whose thread writes the files of \<open>LogFile.cc\<close>. Every interleaving of the threads is a run of
  the step relation \<open>program_step\<close>.
\<close>

section \<open>The output functions\<close>

record stdio =
  io_buffered :: string
  io_written :: string

definition defaultOutput :: "string \<Rightarrow> stdio \<Rightarrow> stdio" where
  "defaultOutput msg out = out\<lparr>io_buffered := io_buffered out @ msg\<rparr>"

definition defaultFlush :: "stdio \<Rightarrow> stdio" where
  "defaultFlush out = out\<lparr>io_written := io_written out @ io_buffered out, io_buffered := []\<rparr>"

section \<open>The program\<close>

text \<open>What is fixed during a run; a thread has its id from the kernel.\<close>

record log_setting =
  lx_stamp :: "int \<Rightarrow> string"
  lx_pid :: int
  lx_base :: string
  lx_roll :: int
  lx_SIZE :: nat
  lx_toAsync :: nat       \<comment> \<open>the handle of \<open>append\<close>; every other one is \<open>defaultOutput\<close>\<close>
  lx_globals :: log_globals
  lx_tid :: "nat \<Rightarrow> int"

definition main_setting :: "(int \<Rightarrow> string) \<Rightarrow> int \<Rightarrow> nat \<Rightarrow> log_globals \<Rightarrow> (nat \<Rightarrow> int) \<Rightarrow> log_setting" where
  "main_setting stamp pid toAsync g tid =
     \<lparr>lx_stamp = stamp, lx_pid = pid, lx_base = ''myproc'', lx_roll = 1024 * 1024, lx_SIZE = KLargeBuffer,
      lx_toAsync = toAsync, lx_globals = main_logging toAsync g, lx_tid = tid\<rparr>"

text \<open>
  The caches of every thread and the calls it still has to make for the line it has finished, the
  asynchronous log and the standard output. \<open>lg_logged\<close> records the lines of the statements of a thread,
  \<open>lg_called\<close> the calls of the output function.
\<close>

record log_program =
  lg_threads :: "nat \<Rightarrow> log_thread"
  lg_todo :: "nat \<Rightarrow> log_effect list"
  lg_life :: al_life
  lg_stdout :: stdio
  lg_aborted :: bool
  lg_logged :: "nat \<Rightarrow> string list"
  lg_called :: "(nat \<times> string) list"

text \<open>The program when its log was made and nothing was logged yet.\<close>

definition main_program :: "nat \<Rightarrow> log_program res" where
  "main_program SIZE =
     bindR (construct_AsyncLog SIZE) (\<lambda>p.
     Inr \<lparr>lg_threads = (\<lambda>i. new_thread), lg_todo = (\<lambda>i. []), lg_life = p,
       lg_stdout = \<lparr>io_buffered = [], io_written = []\<rparr>, lg_aborted = False, lg_logged = (\<lambda>i. []), lg_called = []\<rparr>)"

definition lx_step :: "log_setting \<Rightarrow> life_event \<Rightarrow> al_life \<Rightarrow> al_life res option" where
  "lx_step x = life_step (lx_stamp x) (lx_pid x) (lx_base x) (lx_roll x) (lx_SIZE x)"

text \<open>One call of the destructor of a line.\<close>

fun call_effect :: "log_setting \<Rightarrow> log_effect \<Rightarrow> log_program \<Rightarrow> log_program res option" where
  "call_effect x (Output h msg) r =
     (if h = lx_toAsync x
      then map_option (\<lambda>res. bindR res (\<lambda>p. Inr (r\<lparr>lg_life := p\<rparr>))) (lx_step x (Line msg) (lg_life r))
      else Some (Inr (r\<lparr>lg_stdout := defaultOutput msg (lg_stdout r)\<rparr>)))"
| "call_effect x (Flush h) r = Some (Inr (r\<lparr>lg_stdout := defaultFlush (lg_stdout r)\<rparr>))"
| "call_effect x Abort r = Some (Inr (r\<lparr>lg_aborted := True\<rparr>))"

fun outputs :: "log_effect list \<Rightarrow> string list" where
  "outputs [] = []"
| "outputs (Output h msg # es) = msg # outputs es"
| "outputs (e # es) = outputs es"

text \<open>
  A statement is made by a thread that has finished the one before, in the circumstances of a good line;
  its calls follow one by one, other threads stepping in between; the asynchronous log takes any step of
  its life in which the files take every byte. Nothing happens any more after \<open>abort\<close>.
\<close>

inductive program_step :: "log_setting \<Rightarrow> log_program \<Rightarrow> log_program \<Rightarrow> bool" for x where
  statement: "\<not> lg_aborted r \<Longrightarrow> lg_todo r i = [] \<Longrightarrow> statement_ok (lx_globals x) w file line_no items
      \<Longrightarrow> w_gettid w = lx_tid x i
      \<Longrightarrow> log_statement macro (lx_globals x) w file line_no func items (lg_threads r i) = Inr (th, effects)
      \<Longrightarrow> program_step x r (r\<lparr>lg_threads := (lg_threads r)(i := th), lg_todo := (lg_todo r)(i := effects),
            lg_logged := (lg_logged r)(i := lg_logged r i @
              (if macro_on (g_logLevel (lx_globals x)) macro
               then [statement_text macro (lx_globals x) w file line_no func items] else []))\<rparr>)"
| call: "\<not> lg_aborted r \<Longrightarrow> lg_todo r i = e # es
      \<Longrightarrow> call_effect x e (r\<lparr>lg_todo := (lg_todo r)(i := es), lg_called := lg_called r @ map (Pair i) (outputs [e])\<rparr>)
            = Some (Inr q) \<Longrightarrow> program_step x r q"
| elsewhere: "\<not> lg_aborted r \<Longrightarrow> good_event (lx_SIZE x) ev \<Longrightarrow> \<forall>l. ev \<noteq> Line l
      \<Longrightarrow> lx_step x ev (lg_life r) = Some (Inr p) \<Longrightarrow> program_step x r (r\<lparr>lg_life := p\<rparr>)"

text \<open>The output function is the log's, and its buffers hold any line.\<close>

definition routed :: "log_setting \<Rightarrow> bool" where
  "routed x \<longleftrightarrow> g_output (lx_globals x) = lx_toAsync x \<and> 4000 \<le> lx_SIZE x \<and> lx_SIZE x < 2 ^ 31"

inductive_cases program_stepE: "program_step x r q"

definition program_starts :: "log_setting \<Rightarrow> log_program \<Rightarrow> bool" where
  "program_starts x r \<longleftrightarrow> routed x \<and> main_program (lx_SIZE x) = Inr r"

section \<open>The invariant\<close>

text \<open>The calls that wait go to the log with lines that fit; the log has made a run with the lines that were called.\<close>

fun effect_ok :: "log_setting \<Rightarrow> log_effect \<Rightarrow> bool" where
  "effect_ok x (Output h msg) \<longleftrightarrow> h = lx_toAsync x \<and> length msg < lx_SIZE x"
| "effect_ok x _ \<longleftrightarrow> True"

definition lx_run :: "log_setting \<Rightarrow> life_event list \<Rightarrow> al_life \<Rightarrow> bool" where
  "lx_run x evs p \<longleftrightarrow> life_run (lx_stamp x) (lx_pid x) (lx_base x) (lx_roll x) (lx_SIZE x) evs
       (construct_AsyncLog (lx_SIZE x)) = Some (Inr p) \<and> list_all (good_event (lx_SIZE x)) evs"

definition lines_by :: "nat \<Rightarrow> (nat \<times> string) list \<Rightarrow> string list" where
  "lines_by i cs = map snd (filter (\<lambda>c. fst c = i) cs)"

definition program_inv :: "log_setting \<Rightarrow> log_program \<Rightarrow> bool" where
  "program_inv x r \<longleftrightarrow>
     (\<forall>i. thread_ok (g_timeZone (lx_globals x)) (lx_tid x i) (lg_threads r i)
        \<and> list_all (effect_ok x) (lg_todo r i)
        \<and> lines_by i (lg_called r) @ outputs (lg_todo r i) = lg_logged r i)
     \<and> (\<exists>evs. lx_run x evs (lg_life r) \<and> concat (map life_line evs) = concat (map snd (lg_called r)))"

lemma life_run_snoc:
  "life_run st pid b rs S evs res = Some (Inr p) \<Longrightarrow> life_step st pid b rs S ev p = Some (Inr q) \<Longrightarrow>
    life_run st pid b rs S (evs @ [ev]) res = Some (Inr q)"
proof (induction evs arbitrary: res)
  case Nil
  then show ?case by (cases res) auto
next
  case (Cons e evs)
  then show ?case by (cases res) (auto split: option.splits)
qed

lemma lx_run_step:
  "lx_run x evs p \<Longrightarrow> lx_step x ev p = Some (Inr q) \<Longrightarrow> good_event (lx_SIZE x) ev \<Longrightarrow> lx_run x (evs @ [ev]) q"
  by (auto simp: lx_run_def lx_step_def intro: life_run_snoc)

lemma lines_by_snoc [simp]:
  "lines_by i (cs @ ds) = lines_by i cs @ lines_by i ds" "lines_by i [] = []"
  "lines_by i (map (Pair j) ls) = (if i = j then ls else [])"
  by (simp_all add: lines_by_def comp_def)

lemma outputs_Cons: "outputs (e # es) = outputs [e] @ outputs es"
  by (cases e) simp_all

lemma program_inv_start: "program_starts x r \<Longrightarrow> program_inv x r"
  using construct_ok [of "lx_SIZE x"]
  by (auto simp: program_starts_def main_program_def program_inv_def lx_run_def new_thread_ok intro!: exI [of _ "[]"])

lemma program_inv_statement:
  assumes big: "4000 \<le> lx_SIZE x" and out: "g_output (lx_globals x) = lx_toAsync x" and i: "program_inv x r"
    and todo: "lg_todo r i = []" and ok: "statement_ok (lx_globals x) w file line_no items" "w_gettid w = lx_tid x i"
    and s: "log_statement macro (lx_globals x) w file line_no func items (lg_threads r i) = Inr (th, effects)"
  shows "program_inv x (r\<lparr>lg_threads := (lg_threads r)(i := th), lg_todo := (lg_todo r)(i := effects),
    lg_logged := (lg_logged r)(i := lg_logged r i @ (if macro_on (g_logLevel (lx_globals x)) macro
      then [statement_text macro (lx_globals x) w file line_no func items] else []))\<rparr>)"
proof -
  have t: "thread_ok (g_timeZone (lx_globals x)) (w_gettid w) (lg_threads r i)" using i ok(2) by (simp add: program_inv_def)
  note l = log_statement_ok(2) [OF t ok(1), of macro func]
  from log_statement_ok(1) [OF t ok(1), of macro func] s have th: "thread_ok (g_timeZone (lx_globals x)) (lx_tid x i) th"
    and e: "effects = (if macro_on (g_logLevel (lx_globals x)) macro
      then Output (lx_toAsync x) (statement_text macro (lx_globals x) w file line_no func items)
        # (if macro_level macro = FATAL then [Flush (g_flush (lx_globals x)), Abort] else []) else [])"
    by (auto simp: out ok(2))
  have "lines_by i (lg_called r) = lg_logged r i" using i todo by (auto simp: program_inv_def dest: spec [of _ i])
  with i th l big show ?thesis by (auto simp: program_inv_def e)
qed

lemma program_inv_call:
  assumes i: "program_inv x r" and todo: "lg_todo r i = e # es"
    and c: "call_effect x e (r\<lparr>lg_todo := (lg_todo r)(i := es), lg_called := lg_called r @ map (Pair i) (outputs [e])\<rparr>)
      = Some (Inr q)"
  shows "program_inv x q"
proof -
  from i todo have e: "effect_ok x e" "list_all (effect_ok x) es" and
    l: "lines_by i (lg_called r) @ outputs [e] @ outputs es = lg_logged r i"
    using outputs_Cons [of e es] by (auto simp: program_inv_def dest: spec [of _ i])
  from i obtain evs where evs: "lx_run x evs (lg_life r)" "concat (map life_line evs) = concat (map snd (lg_called r))"
    by (auto simp: program_inv_def)
  have q: "lg_threads q = lg_threads r" "lg_todo q = (lg_todo r)(i := es)" "lg_logged q = lg_logged r"
    "lg_called q = lg_called r @ map (Pair i) (outputs [e])"
    using c by (cases e; auto simp: res_simps split: if_splits)+
  have "\<exists>evs. lx_run x evs (lg_life q) \<and> concat (map life_line evs) = concat (map snd (lg_called q))"
  proof (cases e)
    case (Output h msg)
    with c e(1) have "lx_step x (Line msg) (lg_life r) = Some (Inr (lg_life q))" by (auto simp: res_simps)
    from lx_run_step [OF evs(1) this] e(1) evs(2) Output q(4) show ?thesis by (intro exI [of _ "evs @ [Line msg]"]) simp
  qed (use c evs q in auto)
  with i e(2) l q show ?thesis by (auto simp: program_inv_def)
qed

lemma program_inv_elsewhere:
  assumes i: "program_inv x r" and ev: "good_event (lx_SIZE x) ev" "\<forall>l. ev \<noteq> Line l" "lx_step x ev (lg_life r) = Some (Inr p)"
  shows "program_inv x (r\<lparr>lg_life := p\<rparr>)"
proof -
  from i obtain evs where evs: "lx_run x evs (lg_life r)" "concat (map life_line evs) = concat (map snd (lg_called r))"
    by (auto simp: program_inv_def)
  have "life_line ev = []" using ev(2) by (cases ev) auto
  with lx_run_step [OF evs(1) ev(3,1)] evs(2) have "\<exists>evs. lx_run x evs p \<and> concat (map life_line evs) = concat (map snd (lg_called r))"
    by (intro exI [of _ "evs @ [ev]"]) simp
  with i show ?thesis by (simp add: program_inv_def)
qed

interpretation log_route: state_invariant "program_starts x" "program_step x" "\<lambda>r. routed x \<and> program_inv x r" for x
proof
  show "program_step x r q \<Longrightarrow> routed x \<and> program_inv x r \<Longrightarrow> routed x \<and> program_inv x q" for r q
    by (auto simp: routed_def elim!: program_stepE
      intro: program_inv_statement program_inv_call program_inv_elsewhere)
qed (auto simp: program_starts_def intro: program_inv_start)

lemma main_routed: "routed (main_setting stamp pid toAsync g tid)"
  by (simp add: routed_def main_setting_def main_logging_def setOutPutFunc_def setLogLevel_def KLargeBuffer_def)

section \<open>Properties\<close>

text \<open>
  C29. What the program logs reaches the log files whole and in order. In every interleaving of the
  threads that log, of the thread of the asynchronous log and of whoever starts or stops it, as long as
  no overflow was reported, the files open and take every byte, and the flag \<open>m_threadSafe\<close> of the log file,
  which nothing initialises, happens to be false (with it set, a flush locks its mutex twice): what the files hold, then what is being written,
  then what waits in the buffers are the lines in the order in which the threads called the output
  function, no line torn apart by another; and the lines of every thread are those of its statements,
  each with the text a statement should have, in their order, none missing but the one it is about
  to output. The witness is a run in which the line of a \<open>LOG_FATAL\<close> is only in the buffer when
  the program aborts: \<open>main\<close> sets the output function and not the flush function, so \<open>~Log\<close>
  flushes the standard output and the line never gets to the file.
\<close>

theorem statements_reach_files:
  assumes "reachable (program_starts x) (program_step x) r" and "al_stderr (lg_life r) = []"
  shows "(case al_outPut (lg_life r) of None \<Rightarrow> [] | Some f \<Rightarrow> all_text f)
      @ concat (map text_of (buffersToWrite (al_log (lg_life r)) @ m_vecBuffer (al_log (lg_life r))
          @ [m_currentBuffer (al_log (lg_life r))]))
      = concat (map snd (lg_called r))
    \<and> (\<forall>i. lines_by i (lg_called r) @ outputs (lg_todo r i) = lg_logged r i)"
proof -
  from log_route.inv_reachable [OF assms(1)] obtain evs where
    S: "4000 \<le> lx_SIZE x" "lx_SIZE x < 2 ^ 31" and i: "program_inv x r" and
    evs: "lx_run x evs (lg_life r)" "concat (map life_line evs) = concat (map snd (lg_called r))"
    by (auto simp: routed_def program_inv_def)
  from S(1) have "0 < lx_SIZE x" by simp
  from log_lines_reach_files [OF _ this S(2) _ assms(2), of "lx_stamp x" "lx_pid x" "lx_base x" "lx_roll x" evs] evs i
  show ?thesis unfolding lx_run_def program_inv_def by simp
qed

text \<open>A statement of a thread as a run of the step relation, down to its first call.\<close>

lemma statement_and_output:
  assumes r: "reachable (program_starts x) (program_step x) r" and x: "routed x" and s: "\<not> lg_aborted r" "lg_todo r i = []"
    and ok: "statement_ok (lx_globals x) w file line_no items" "w_gettid w = lx_tid x i"
    and on: "macro_on (g_logLevel (lx_globals x)) macro"
  shows "\<exists>q. reachable (program_starts x) (program_step x) q \<and> al_outPut (lg_life q) = al_outPut (lg_life r)
    \<and> al_stderr (lg_life q) = al_stderr (lg_life r) \<and> \<not> lg_aborted q
    \<and> lg_called q = lg_called r @ [(i, statement_text macro (lx_globals x) w file line_no func items)]
    \<and> lg_todo q i = (if macro_level macro = FATAL then [Flush (g_flush (lx_globals x)), Abort] else [])"
proof -
  let ?t = "statement_text macro (lx_globals x) w file line_no func items"
  let ?fin = "if macro_level macro = FATAL then [Flush (g_flush (lx_globals x)), Abort] else []"
  from log_route.inv_reachable [OF r] have i: "program_inv x r" by simp
  then have "thread_ok (g_timeZone (lx_globals x)) (w_gettid w) (lg_threads r i)" using ok(2) by (simp add: program_inv_def)
  from log_statement_ok(1) [OF this ok(1), of macro func] on x obtain th where
    l: "log_statement macro (lx_globals x) w file line_no func items (lg_threads r i) = Inr (th, Output (lx_toAsync x) ?t # ?fin)"
    by (auto simp: routed_def)
  define r1 where "r1 = r\<lparr>lg_threads := (lg_threads r)(i := th), lg_todo := (lg_todo r)(i := Output (lx_toAsync x) ?t # ?fin),
    lg_logged := (lg_logged r)(i := lg_logged r i @ (if macro_on (g_logLevel (lx_globals x)) macro then [?t] else []))\<rparr>"
  have "reachable (program_starts x) (program_step x) r1" unfolding r1_def
    by (rule reachable_step [OF r program_step.statement [OF s ok l]])
  then have r1: "reachable (program_starts x) (program_step x) r1" "lg_todo r1 i = Output (lx_toAsync x) ?t # ?fin"
    "\<not> lg_aborted r1" "lg_life r1 = lg_life r" "lg_called r1 = lg_called r"
    using s(1) by (simp_all add: r1_def)
  from i obtain evs where evs: "lx_run x evs (lg_life r)" by (auto simp: program_inv_def)
  from life_run_keeps [of "lx_stamp x" "lx_pid x" "lx_base x" "lx_roll x" "lx_SIZE x" evs "lg_life r"] evs x
  have "al_inv (lx_SIZE x) (al_log (lg_life r))" by (auto simp: lx_run_def routed_def log_inv_def)
  with x al_append_ok [of "lx_SIZE x" "al_log (lg_life r)" ?t "[]"] obtain st
    where "al_append (lx_SIZE x) ?t (al_log (lg_life r)) = Inr st" by (auto simp: routed_def)
  then have "call_effect x (Output (lx_toAsync x) ?t)
      (r1\<lparr>lg_todo := (lg_todo r1)(i := ?fin), lg_called := lg_called r1 @ map (Pair i) (outputs [Output (lx_toAsync x) ?t])\<rparr>)
    = Some (Inr (r1\<lparr>lg_todo := (lg_todo r1)(i := ?fin), lg_called := lg_called r @ [(i, ?t)],
        lg_life := (lg_life r)\<lparr>al_log := st\<rparr>\<rparr>))"
    by (simp add: lx_step_def al_step_def r1(4,5))
  from reachable_step [OF r1(1) program_step.call [OF r1(3,2) this]] show ?thesis
    by - (rule exI, rule conjI, assumption, simp add: r1(3))
qed

text \<open>The two calls that follow a fatal line.\<close>

lemma fatal_aborts:
  assumes r: "reachable (program_starts x) (program_step x) r" "\<not> lg_aborted r" "lg_todo r i = [Flush h, Abort]"
  shows "\<exists>q. reachable (program_starts x) (program_step x) q \<and> lg_aborted q \<and> lg_life q = lg_life r
    \<and> lg_called q = lg_called r"
proof -
  let ?q = "r\<lparr>lg_todo := (lg_todo r)(i := [Abort]), lg_stdout := defaultFlush (lg_stdout r)\<rparr>"
  have "program_step x r ?q" using program_step.call [OF r(2,3), of x ?q] by simp
  with r(1) have q: "reachable (program_starts x) (program_step x) ?q" by (rule reachable_step)
  have "program_step x ?q (?q\<lparr>lg_todo := (lg_todo r)(i := []), lg_aborted := True\<rparr>)"
    using program_step.call [of ?q i Abort "[]" x "?q\<lparr>lg_todo := (lg_todo r)(i := []), lg_aborted := True\<rparr>"] r(2) by simp
  from reachable_step [OF q this] show ?thesis by - (rule exI, rule conjI, assumption, simp)
qed

lemma statements_reach_files_witness:
  "\<exists>r. reachable (program_starts (main_setting (\<lambda>_. []) 1 7 sample_globals (\<lambda>_. 42)))
        (program_step (main_setting (\<lambda>_. []) 1 7 sample_globals (\<lambda>_. 42))) r
    \<and> lg_aborted r \<and> al_outPut (lg_life r) = None
    \<and> concat (map text_of (buffersToWrite (al_log (lg_life r)) @ m_vecBuffer (al_log (lg_life r))
        @ [m_currentBuffer (al_log (lg_life r))]))
      = statement_text LOG_FATAL (main_logging 7 sample_globals) sample_world ''src/a.cc'' 7 [] [Put_int 5]"
proof -
  let ?x = "main_setting (\<lambda>_. []) 1 7 sample_globals (\<lambda>_. 42)" and ?R = "\<lambda>x. reachable (program_starts x) (program_step x)"
  obtain p where p: "construct_AsyncLog (lx_SIZE ?x) = Inr p" "al_outPut p = None" "al_stderr p = []"
    using construct_ok by blast
  define r0 where "r0 = \<lparr>lg_threads = (\<lambda>i. new_thread), lg_todo = (\<lambda>i. []), lg_life = p,
    lg_stdout = \<lparr>io_buffered = [], io_written = []\<rparr>, lg_aborted = False, lg_logged = (\<lambda>i. []), lg_called = []\<rparr>"
  have r0: "?R ?x r0" "\<not> lg_aborted r0" "lg_todo r0 3 = []"
    by (auto simp: r0_def program_starts_def main_routed main_program_def p(1) intro!: reachable_init)
  have g: "lx_globals ?x = main_logging 7 sample_globals" "g_timeZone (main_logging 7 sample_globals) = None" "lx_tid ?x = (\<lambda>_. 42)"
    by (simp_all add: main_setting_def main_logging_def setOutPutFunc_def setLogLevel_def sample_globals_def)
  have ok: "statement_ok (lx_globals ?x) sample_world ''src/a.cc'' 7 [Put_int 5]" "w_gettid sample_world = lx_tid ?x 3"
    by (simp_all add: statement_ok_def g zone_ok_def second_ok_def zone_offset_def in_break_range_def kSecondsPerDay_def
      toUtc_sample i32_ok_def sample_world_fields ts_of_def)
  from statement_and_output [OF r0(1) main_routed r0(2,3) ok, of LOG_FATAL "[]"] obtain r1 where
    r1: "?R ?x r1" "al_outPut (lg_life r1) = None" "al_stderr (lg_life r1) = []" "\<not> lg_aborted r1"
      "map snd (lg_called r1) = [statement_text LOG_FATAL (lx_globals ?x) sample_world ''src/a.cc'' 7 [] [Put_int 5]]"
      "lg_todo r1 3 = [Flush (g_flush (lx_globals ?x)), Abort]"
    by (auto simp: r0_def p(2,3))
  from fatal_aborts [OF r1(1,4,6)] obtain r2 where
    r2: "?R ?x r2" "lg_aborted r2" "lg_life r2 = lg_life r1" "lg_called r2 = lg_called r1" by auto
  from statements_reach_files [OF r2(1)] r2 r1(2,3,5) g(1) show ?thesis by (intro exI [of _ r2]) simp
qed

end
