(* ===== verification/SmallFiles.thy ===== *)
theory SmallFiles
  imports LogFiles
begin

text \<open>
  The templates \<open>readToString\<close> and \<open>readFile\<close> of \<open>src/src/base/FileUnit.h\<close>. As written the first
  does not compile once it is used, because it says \<open>content.reserve\<close> and \<open>content.size\<close> of a pointer;
  it is translated with \<open>content->\<close> there, and otherwise as it stands; \<open>reserve\<close> does not change a string.
\<close>

section \<open>Operations\<close>

datatype file_kind = Regular_file | Directory | Other_file

record file_stat =
  st_kind :: file_kind
  st_size :: int
  st_mtime :: int
  st_ctime :: int

definition EISDIR :: int where
  "EISDIR = 21"

text \<open>
  What a call leaves behind: its result, the string, and what it stored through the three pointers
  (\<open>None\<close> where it stored nothing).
\<close>

record read_result =
  rr_err :: int
  rr_content :: string
  rr_fileSize :: "int option"
  rr_modifyTime :: "int option"
  rr_createTime :: "int option"

text \<open>
  The loop: an answer of \<open>read\<close> is \<open>Inr\<close> of bytes, of which at most \<open>toRead\<close> are stored, or \<open>Inl\<close> of an
  \<open>errno\<close>. The result of \<open>read\<close> goes to a \<open>size_t\<close>, so a failure is the size \<open>2 ^ 64 - 1\<close>, which
  \<open>append\<close> refuses. \<open>None\<close> while the answers do not end the loop.
\<close>

primrec read_loop :: "nat \<Rightarrow> (int + string) list \<Rightarrow> string \<Rightarrow> string \<Rightarrow> (string \<times> string) res option" where
  "read_loop maxSize [] buf content = (if length content < maxSize then None else Some (Inr (buf, content)))"
| "read_loop maxSize (a # ans) buf content =
     (if length content < maxSize then
        (case a of
           Inl errno \<Rightarrow> Some (Inl Length_error)
         | Inr bytes \<Rightarrow>
             let toRead = min (maxSize - length content) KSmallBufferSize;
                 got = take toRead bytes;
                 buf = got @ drop (length got) buf
             in if length got > 0 then read_loop maxSize ans buf (content @ got) else Some (Inr (buf, content)))
      else Some (Inr (buf, content)))"

text \<open>
  \<open>content\<close> is the string the pointer points to; \<open>fileSize\<close>, \<open>modifyTime\<close> and \<open>createTime\<close> say which of the
  other pointers are not null; \<open>errno\<close> is its value before the call, \<open>stat\<close> the answer of \<open>fstat\<close>.
\<close>

definition readToString ::
  "int \<Rightarrow> string option \<Rightarrow> bool \<Rightarrow> bool \<Rightarrow> bool \<Rightarrow> int \<Rightarrow> file_stat option \<Rightarrow> (int + string) list \<Rightarrow> ReadSmallFile
     \<Rightarrow> (ReadSmallFile \<times> read_result) res option" where
  "readToString maxSize content fileSize modifyTime createTime errno stat ans f =
     (case content of
        None \<Rightarrow> Some (Inl Assert_failed)
      | Some content \<Rightarrow>
          let r = \<lparr>rr_err = m_err f, rr_content = content, rr_fileSize = None, rr_modifyTime = None, rr_createTime = None\<rparr>
          in if m_fd f \<ge> 0 then
               let r = r\<lparr>rr_content := []\<rparr>;
                   r = (if fileSize then
                          (case stat of
                             Some s \<Rightarrow>
                               let r = (if st_kind s = Regular_file then r\<lparr>rr_fileSize := Some (st_size s)\<rparr>
                                        else if st_kind s = Directory then r\<lparr>rr_err := EISDIR\<rparr> else r);
                                   r = (if modifyTime then r\<lparr>rr_modifyTime := Some (st_mtime s)\<rparr> else r)
                               in if createTime then r\<lparr>rr_createTime := Some (st_ctime s)\<rparr> else r
                           | None \<Rightarrow> r)
                        else r\<lparr>rr_err := errno\<rparr>)
               in map_option (\<lambda>res. bindR res (\<lambda>(b, content). Inr (f\<lparr>m_buffer := b\<rparr>, r\<lparr>rr_content := content\<rparr>)))
                    (read_loop (i32_to_size maxSize) ans (m_buffer f) (rr_content r))
             else Some (Inr (f, r\<lparr>rr_err := 0\<rparr>)))"

text \<open>\<open>readFile\<close>, with what the constructor and the destructor do to the open descriptors.\<close>

definition readFile ::
  "int + int \<Rightarrow> string \<Rightarrow> int \<Rightarrow> string option \<Rightarrow> bool \<Rightarrow> bool \<Rightarrow> bool \<Rightarrow> int \<Rightarrow> file_stat option \<Rightarrow> (int + string) list
     \<Rightarrow> int list \<Rightarrow> (int list \<times> read_result) res option" where
  "readFile opened garbage maxSize content fileSize modifyTime createTime errno stat ans fds =
     (let (f, fds) = construct_ReadSmallFile opened garbage fds
      in map_option (\<lambda>res. bindR res (\<lambda>(f, r). Inr (delete_ReadSmallFile f fds, r)))
           (readToString maxSize content fileSize modifyTime createTime errno stat ans f))"

section \<open>What is read\<close>

text \<open>
  From a kernel that gives the text of a file in parts and then the end, the string is the beginning of
  the text, as long as \<open>maxSize\<close> allows.
\<close>

lemma read_loop_text:
  "\<forall>p \<in> set parts. p \<noteq> [] \<and> length p \<le> KSmallBufferSize \<Longrightarrow> length content \<le> maxSize \<Longrightarrow>
    \<exists>b. read_loop maxSize (map Inr parts @ [Inr []]) m content
      = Some (Inr (b, content @ take (maxSize - length content) (concat parts)))"
proof (induction parts arbitrary: m content)
  case Nil
  then show ?case by simp
next
  case (Cons p ps)
  show ?case
  proof (cases "length content < maxSize")
    case False
    with Cons.prems(2) show ?thesis by auto
  next
    case True
    let ?got = "take (maxSize - length content) p"
    have p: "p \<noteq> []" "length p \<le> KSmallBufferSize" "\<forall>p \<in> set ps. p \<noteq> [] \<and> length p \<le> KSmallBufferSize"
      using Cons.prems(1) by auto
    have got: "take (min (maxSize - length content) KSmallBufferSize) p = ?got" "?got \<noteq> []"
      using p(1,2) True by (auto simp: min_def)
    have "length (content @ ?got) \<le> maxSize" using Cons.prems(2) by simp
    from Cons.IH [OF p(3) this] obtain b where
      "read_loop maxSize (map Inr ps @ [Inr []]) (?got @ drop (length ?got) m) (content @ ?got)
        = Some (Inr (b, (content @ ?got) @ take (maxSize - length (content @ ?got)) (concat ps)))" by blast
    moreover have "maxSize - length (content @ ?got) = maxSize - length content - length p"
      using True by (simp add: min_def)
    moreover have "read_loop maxSize (map Inr (p # ps) @ [Inr []]) m content
        = read_loop maxSize (map Inr ps @ [Inr []]) (?got @ drop (length ?got) m) (content @ ?got)"
      using True got by (simp add: Let_def KSmallBufferSize_def)
    ultimately show ?thesis by simp
  qed
qed

lemma readToString_text:
  assumes "\<forall>p \<in> set parts. p \<noteq> [] \<and> length p \<le> KSmallBufferSize" "0 \<le> m_fd f" "st_kind s = Regular_file"
  shows "\<exists>b. readToString maxSize (Some old) True modifyTime createTime errno (Some s) (map Inr parts @ [Inr []]) f
    = Some (Inr (f\<lparr>m_buffer := b\<rparr>,
        \<lparr>rr_err = m_err f, rr_content = take (i32_to_size maxSize) (concat parts), rr_fileSize = Some (st_size s),
         rr_modifyTime = (if modifyTime then Some (st_mtime s) else None),
         rr_createTime = (if createTime then Some (st_ctime s) else None)\<rparr>))"
  using read_loop_text [OF assms(1), of "[]" "i32_to_size maxSize" "m_buffer f"] assms(2,3)
  by (auto simp: readToString_def Let_def)

section \<open>What goes wrong\<close>

text \<open>A file that could not be opened is reported as read: the result is 0 and the string is left as it was.\<close>

lemma readFile_not_opened:
  "readFile (Inl e) garbage maxSize (Some old) fileSize modifyTime createTime errno stat ans fds
    = Some (Inr (fds, \<lparr>rr_err = 0, rr_content = old, rr_fileSize = None, rr_modifyTime = None, rr_createTime = None\<rparr>))"
  by (simp add: readFile_def construct_ReadSmallFile_def readToString_def delete_ReadSmallFile_def)

text \<open>Without a pointer for the size, which is the default, a whole read reports whatever \<open>errno\<close> was before.\<close>

lemma readFile_stale_errno:
  assumes "\<forall>p \<in> set parts. p \<noteq> [] \<and> length p \<le> KSmallBufferSize" "0 \<le> fd"
  shows "readFile (Inr fd) garbage maxSize (Some old) False False False errno stat (map Inr parts @ [Inr []]) fds
    = Some (Inr (fds @ [fd], \<lparr>rr_err = errno, rr_content = take (i32_to_size maxSize) (concat parts), rr_fileSize = None,
        rr_modifyTime = None, rr_createTime = None\<rparr>))"
  using read_loop_text [OF assms(1), of "[]" "i32_to_size maxSize" "garbage[0 := CHR 0x00]"] assms(2)
  by (auto simp: readFile_def construct_ReadSmallFile_def readToString_def delete_ReadSmallFile_def Let_def)

text \<open>A \<open>read\<close> that fails, as it does on a directory, throws instead of returning its error.\<close>

lemma readFile_read_fails:
  "0 \<le> fd \<Longrightarrow> 0 < i32_to_size maxSize \<Longrightarrow>
    readFile (Inr fd) garbage maxSize (Some old) fileSize modifyTime createTime errno stat (Inl e # ans) fds
      = Some (Inl Length_error)"
  by (simp add: readFile_def construct_ReadSmallFile_def readToString_def Let_def split: option.splits)

end
