(* ===== verification/Conversations.thy ===== *)
theory Conversations
  imports Demos ClientLives
begin

text \<open>
  A client and the server of \<open>src/src/main.cc\<close>: the server accepts it and establishes the connection, what
  arrives then goes through \<open>handleRead\<close> and the input buffer to \<open>msgcallback\<close>, and its answer goes out
  through the output buffer and \<open>handleWrite\<close>. The log lines of \<open>msgcallback\<close> are left out.
\<close>

section \<open>The turns of a conversation\<close>

text \<open>
  The connection, the bytes that have reached the server's socket and were not read yet, and a log of
  what each call of \<open>msgcallback\<close> found in the input buffer.
\<close>

record talk =
  tk_conn :: connection
  tk_socket :: "byte list"
  tk_seen :: "byte list list"

text \<open>
  What happens: bytes of the client arrive; the descriptor is readable, and \<open>readv\<close> stores some of what
  is there, at most \<open>n\<close> bytes and never more than it has room for, the rest staying in the socket;
  \<open>readv\<close> fails; or there is room for output. \<open>k\<close> is how much of the output the kernel takes.
\<close>

datatype turn_event = Client_sends "byte list" | Readable nat nat | Read_fails int nat | Client_takes nat

text \<open>
  The message callback runs inside \<open>handleRead\<close> as its last act, so it is run here after it. The level of
  the log is \<open>DEBUG\<close>, which \<open>main\<close> sets.
\<close>

definition serve_read :: "readv_result \<Rightarrow> nat \<Rightarrow> connection \<Rightarrow> (byte list list \<times> connection) res" where
  "serve_read rv k s =
     bindR (conn_handleRead rv s) (\<lambda>t.
     if Call_message \<in> set (drop (length (tc_calls s)) (tc_calls t))
     then bindR (msgcallback DEBUG True (Wr_ok (min k (length ''i be ''))) t) (\<lambda>u.
          Inr ([contents (m_inputBuffer t)], u))
     else Inr ([], t))"

text \<open>How much a call of \<open>readv\<close> stores.\<close>

definition read_size :: "nat \<Rightarrow> talk \<Rightarrow> nat" where
  "read_size n x = min n (readv_capacity (m_inputBuffer (tk_conn x)))"

fun converse :: "turn_event \<Rightarrow> talk \<Rightarrow> talk res" where
  "converse (Client_sends bytes) x = Inr (x\<lparr>tk_socket := tk_socket x @ bytes\<rparr>)"
| "converse (Readable n k) x =
     (if tk_socket x = [] then Inr x
      else bindR (serve_read (Rv_data (take (read_size n x) (tk_socket x))) k (tk_conn x)) (\<lambda>(seen, s).
           Inr \<lparr>tk_conn = s, tk_socket = drop (read_size n x) (tk_socket x), tk_seen = tk_seen x @ seen\<rparr>))"
| "converse (Read_fails e k) x =
     bindR (serve_read (Rv_error e) k (tk_conn x)) (\<lambda>(seen, s).
     Inr (x\<lparr>tk_conn := s, tk_seen := tk_seen x @ seen\<rparr>))"
| "converse (Client_takes k) x =
     bindR (handleWrite (Wr_ok (min k (length (contents (m_outputBuffer (tk_conn x)))))) (tk_conn x)) (\<lambda>s.
     Inr (x\<lparr>tk_conn := s\<rparr>))"

fun client_bytes :: "turn_event \<Rightarrow> byte list" where
  "client_bytes (Client_sends bytes) = bytes"
| "client_bytes _ = []"

text \<open>A read that succeeds stores something.\<close>

fun event_fine :: "turn_event \<Rightarrow> bool" where
  "event_fine (Readable n k) \<longleftrightarrow> 0 < n"
| "event_fine _ \<longleftrightarrow> True"

definition answers :: "byte list list \<Rightarrow> byte list" where
  "answers seen = concat (map (\<lambda>_. text_bytes ''i be '') seen)"

section \<open>The input buffer stays small\<close>

lemma copy_into_length: "copy_into v i xs = Inr w \<Longrightarrow> length w = length v"
  by (auto simp: copy_into_def split: if_splits)

lemma vec_resize_length: "vec_resize v n = Inr w \<Longrightarrow> length w = n"
  by (auto simp: vec_resize_def split: if_splits)

lemma makeSpace_length:
  assumes "wf_buffer b" "writerIndex b + len \<le> max_size" "makeSpace len b = Inr c"
  shows "length (bufvec c) \<le> max (length (bufvec b)) (writerIndex b + len)"
proof (cases "sz_add (writableBytes b) (prependableBytes b) < sz_add len kCheapPrepend")
  case True
  with assms(3) obtain v where v: "vec_resize (bufvec b) (sz_add (writerIndex b) len) = Inr v" "c = b\<lparr>bufvec := v\<rparr>"
    unfolding makeSpace_def by (simp only: if_True bindR_eq_Inr sum.inject) blast
  have "sz_add (writerIndex b) len = writerIndex b + len" using wf_sums [OF assms(1), of len] assms(2) by simp
  with v vec_resize_length [OF v(1)] show ?thesis by simp
next
  case False
  with assms(3) obtain v where v: "copy_into (bufvec b) kCheapPrepend
      (take (writerIndex b - readerIndex b) (drop (readerIndex b) (bufvec b))) = Inr v" "bufvec c = v"
    unfolding makeSpace_def Let_def by (simp only: if_False bindR_eq_Inr assertR_eq_Inr sum.inject) auto
  from copy_into_length [OF v(1)] v(2) show ?thesis by simp
qed

lemma append_mem_length:
  assumes "wf_buffer b" "writerIndex b + len \<le> max_size" "append_mem data len b = Inr b'"
  shows "length (bufvec b') \<le> max (length (bufvec b)) (writerIndex b + len)"
proof -
  from assms(3) obtain c where c: "ensureWritableBytes len b = Inr c"
    and a: "(if length data < len then Inl Undefined else bindR (copy_into (bufvec c) (beginWrite c) (take len data))
      (\<lambda>v. hasWritten len (c\<lparr>bufvec := v\<rparr>))) = Inr b'"
    unfolding append_mem_def bindR_eq_Inr by blast
  from a obtain v where "copy_into (bufvec c) (beginWrite c) (take len data) = Inr v" "hasWritten len (c\<lparr>bufvec := v\<rparr>) = Inr b'"
    by (auto simp: bindR_eq_Inr split: if_splits)
  then have l: "length (bufvec b') = length (bufvec c)"
    using copy_into_length by (auto simp: hasWritten_def assertR_eq_Inr)
  show ?thesis
  proof (cases "writableBytes b < len")
    case True
    with c have "makeSpace len b = Inr c" by (auto simp: ensureWritableBytes_def bindR_eq_Inr assertR_eq_Inr)
    from makeSpace_length [OF assms(1,2) this] l show ?thesis by simp
  next
    case False
    with c l show ?thesis by (auto simp: ensureWritableBytes_def)
  qed
qed

definition input_limit :: nat where
  "input_limit = 2 * extrabuf_size + kCheapPrepend"

text \<open>A buffer that is empty and at its beginning grows only while less than 64 KB are free.\<close>

lemma readFd_length:
  assumes wf: "wf_buffer b" and e: "writerIndex b = kCheapPrepend" and l: "length (bufvec b) \<le> input_limit"
    and c: "length bytes \<le> readv_capacity b" and r: "readFd (Rv_data bytes) b = Inr (n, err, b')"
  shows "length (bufvec b') \<le> input_limit"
proof -
  let ?w = "writableBytes b"
  note d = wf_bufferD [OF wf]
  have w: "?w = length (bufvec b) - kCheapPrepend" by (simp add: wf_observers [OF wf] e)
  let ?v = "take (writerIndex b) (bufvec b) @ take ?w bytes @ drop (writerIndex b + length (take ?w bytes)) (bufvec b)"
  have fit: "writerIndex b + length (take ?w bytes) \<le> length (bufvec b)" using d w e by simp
  then have v: "length ?v = length (bufvec b)" by simp
  show ?thesis
  proof (cases "length bytes \<le> ?w")
    case True
    with r c fit v l show ?thesis by (auto simp: readFd_def Let_def)
  next
    case False
    let ?b = "b\<lparr>bufvec := ?v, writerIndex := length ?v\<rparr>"
    from False c have s: "?w < extrabuf_size" "length bytes - ?w \<le> extrabuf_size"
      by (auto simp: readv_capacity_def Let_def split: if_splits)
    have a: "append_mem (drop ?w bytes) (length bytes - ?w) ?b = Inr b'"
      using r c fit False by (auto simp: readFd_def Let_def res_simps)
    have "wf_buffer ?b" using d v by (simp add: wf_buffer_def)
    moreover have "writerIndex ?b + (length bytes - ?w) \<le> max_size"
      using v l s by (simp add: input_limit_def extrabuf_size_def kCheapPrepend_def max_size_def)
    ultimately have "length (bufvec b') \<le> max (length (bufvec ?b)) (writerIndex ?b + (length bytes - ?w))"
      using a by (rule append_mem_length)
    then have "length (bufvec b') \<le> length (bufvec b) + (length bytes - ?w)" using v by simp
    moreover have "length (bufvec b) - kCheapPrepend < extrabuf_size" using s(1) w by simp
    ultimately show ?thesis using s(2) d(4) unfolding input_limit_def by linarith
  qed
qed

section \<open>One turn\<close>

text \<open>Between the turns: connected, a message callback, and an input buffer that is empty and small.\<close>

definition conversing :: "connection \<Rightarrow> bool" where
  "conversing s \<longleftrightarrow> wf_conn s \<and> m_stat s = KCONNECT \<and> m_msgCb s \<and> wf_buffer (m_inputBuffer s)
     \<and> readerIndex (m_inputBuffer s) = kCheapPrepend \<and> writerIndex (m_inputBuffer s) = kCheapPrepend
     \<and> length (bufvec (m_inputBuffer s)) \<le> input_limit"

definition output_reach :: "connection \<Rightarrow> nat" where
  "output_reach s = max kCheapPrepend (writerIndex (m_outputBuffer s))"

text \<open>The answer is sent as \<open>sendInLoop\<close> sends it, with the input buffer emptied.\<close>

lemma msgcallback_sends:
  assumes "m_stat s = KCONNECT" "wf_buffer (m_inputBuffer s)"
  shows "msgcallback DEBUG True w s = sendInLoop w (text_bytes ''i be '') 5
    (s\<lparr>m_inputBuffer := retrieveAll (m_inputBuffer s)\<rparr>)"
proof -
  have "readableBytes (m_inputBuffer s) = length (contents (m_inputBuffer s))" by (simp add: length_contents [OF assms(2)])
  then have "retrieveAllAsString (m_inputBuffer s)
      = Inr (take (readableBytes (m_inputBuffer s)) (drop (peek (m_inputBuffer s)) (bufvec (m_inputBuffer s))),
          retrieveAll (m_inputBuffer s))"
    by (simp add: retrieveAllAsString_def retrieveAsString_def retrieve_def)
  with assms(1) show ?thesis
    by (simp add: msgcallback_def send_mem_def send_piece_def sendInLoop_piece_def i32_to_size_def text_bytes_def)
qed

lemma answer_ok:
  assumes s: "wf_conn s" "m_stat s = KCONNECT" "m_msgCb s" "wf_buffer (m_inputBuffer s)"
    "length (bufvec (m_inputBuffer s)) \<le> input_limit" and room: "output_reach s + 5 \<le> max_size" and n: "n \<le> 5"
  shows "\<exists>t. msgcallback DEBUG True (Wr_ok n) s = Inr t \<and> conversing t \<and> tc_calls t = tc_calls s \<and> output_reach t \<le> output_reach s + 5
    \<and> tc_wire t @ contents (m_outputBuffer t) = tc_wire s @ contents (m_outputBuffer s) @ text_bytes ''i be ''"
proof -
  let ?bs = "text_bytes ''i be ''" and ?s = "s\<lparr>m_inputBuffer := retrieveAll (m_inputBuffer s)\<rparr>"
  have w: "wf_conn ?s" "m_stat ?s \<noteq> KDISCONNECTED" using s(1,2) by (simp_all add: wf_conn_def writing_def)
  have l: "length ?bs = 5" by (simp add: text_bytes_def)
  let ?k = "if writing ?s then 0 else n"
  have "n \<le> length ?bs" "writerIndex (m_outputBuffer ?s) + length ?bs \<le> max_size"
    using n room l by (simp_all add: output_reach_def)
  then obtain b p where t: "sendInLoop (Wr_ok n) ?bs (length ?bs) ?s = Inr (?s\<lparr>tc_wire := tc_wire ?s @ take ?k ?bs,
      tc_tasks := tc_tasks ?s @ (if \<not> writing ?s \<and> n = length ?bs then finish_task ?s else [])
       @ (if ?k < length ?bs then high_task ?s (length ?bs - ?k) else []), m_outputBuffer := b, tc_poller := p\<rparr>)"
    "wf_conn (?s\<lparr>tc_wire := tc_wire ?s @ take ?k ?bs,
      tc_tasks := tc_tasks ?s @ (if \<not> writing ?s \<and> n = length ?bs then finish_task ?s else [])
       @ (if ?k < length ?bs then high_task ?s (length ?bs - ?k) else []), m_outputBuffer := b, tc_poller := p\<rparr>)"
    "contents b = contents (m_outputBuffer ?s) @ drop ?k ?bs" "writerIndex b \<le> writerIndex (m_outputBuffer ?s) + length ?bs"
    using sendInLoop_ok [OF w, where n = n and bs = ?bs and k = ?k] by metis
  have e: "contents (m_outputBuffer s) = []" if "\<not> writing ?s" using w(1) that by (simp add: wf_conn_def)
  have "msgcallback DEBUG True (Wr_ok n) s = sendInLoop (Wr_ok n) ?bs (length ?bs) ?s"
    using msgcallback_sends [OF s(2,4)] l by simp
  with t(1) have r: "msgcallback DEBUG True (Wr_ok n) s = Inr (?s\<lparr>tc_wire := tc_wire ?s @ take ?k ?bs,
      tc_tasks := tc_tasks ?s @ (if \<not> writing ?s \<and> n = length ?bs then finish_task ?s else [])
       @ (if ?k < length ?bs then high_task ?s (length ?bs - ?k) else []), m_outputBuffer := b, tc_poller := p\<rparr>)" by simp
  have i: "wf_buffer (retrieveAll (m_inputBuffer s))" "bufvec (retrieveAll (m_inputBuffer s)) = bufvec (m_inputBuffer s)"
    "readerIndex (retrieveAll (m_inputBuffer s)) = kCheapPrepend" "writerIndex (retrieveAll (m_inputBuffer s)) = kCheapPrepend"
    using retrieveAll_ok [OF s(4)] by (simp_all add: retrieveAll_def)
  have x: "(tc_wire s @ take ?k ?bs) @ contents b = tc_wire s @ contents (m_outputBuffer s) @ ?bs"
    using t(3) e by (cases "writing ?s") simp_all
  have o: "max kCheapPrepend (writerIndex b) \<le> max kCheapPrepend (writerIndex (m_outputBuffer s)) + 5"
    using t(4) l by simp linarith
  show ?thesis unfolding r
    by (rule exI, rule conjI, rule refl, rule conjI, unfold conversing_def, intro conjI, rule t(2))
      (use s i o x l in \<open>simp_all add: output_reach_def\<close>)
qed

lemma serve_read_ok:
  assumes r: "conversing s" and m: "rv = Rv_data bytes \<and> bytes \<noteq> [] \<or> rv = Rv_error err \<and> bytes = []"
    and bytes: "length bytes \<le> readv_capacity (m_inputBuffer s)" and room: "output_reach s + 5 \<le> max_size"
  shows "\<exists>t. serve_read rv k s = Inr ([bytes], t) \<and> conversing t \<and> output_reach t \<le> output_reach s + 5
    \<and> tc_wire t @ contents (m_outputBuffer t) = tc_wire s @ contents (m_outputBuffer s) @ text_bytes ''i be ''"
proof -
  from r have s: "wf_conn s" "m_stat s = KCONNECT" "m_msgCb s" "wf_buffer (m_inputBuffer s)"
    "writerIndex (m_inputBuffer s) = kCheapPrepend" "length (bufvec (m_inputBuffer s)) \<le> input_limit"
    and i: "contents (m_inputBuffer s) = []"
    by (simp_all add: conversing_def contents_def)
  obtain n e b where b: "readFd rv (m_inputBuffer s) = Inr (n, e, b)" "0 < nat (n mod 2 ^ 64)" "wf_buffer b"
    "length (bufvec b) \<le> input_limit" "contents b = bytes"
  proof (cases "rv = Rv_error err \<and> bytes = []")
    case True
    with s i that [of "-1" "Some err" "m_inputBuffer s"] show thesis by (simp add: readFd_def Let_def)
  next
    case False
    with m have rv: "rv = Rv_data bytes" "bytes \<noteq> []" by auto
    have "length (bufvec (m_inputBuffer s)) + extrabuf_size \<le> max_size"
      using s(6) by (simp add: input_limit_def extrabuf_size_def kCheapPrepend_def max_size_def)
    from readFd_ok [OF s(4) bytes this] obtain b where
      b: "readFd (Rv_data bytes) (m_inputBuffer s) = Inr (int (length bytes), None, b)" "wf_buffer b"
      "contents b = contents (m_inputBuffer s) @ bytes" by blast
    have "readv_capacity (m_inputBuffer s) < 2 ^ 64"
      using s(6) by (simp add: readv_capacity_def Let_def wf_observers [OF s(4)] s(5) input_limit_def extrabuf_size_def kCheapPrepend_def) arith
    with bytes rv(2) have "0 < nat (int (length bytes) mod 2 ^ 64)" by simp
    with b i readFd_length [OF s(4-6) bytes b(1)] rv(1) that show thesis by simp
  qed
  let ?s = "s\<lparr>m_inputBuffer := b, tc_calls := tc_calls s @ [Call_message]\<rparr>"
  have h: "conn_handleRead rv s = Inr ?s"
    using b(1,2) s(3) by (simp add: conn_handleRead_def call_cb_def Let_def)
  have "wf_conn ?s" "output_reach ?s + 5 \<le> max_size" using s(1) room by (simp_all add: wf_conn_def writing_def output_reach_def)
  from answer_ok [OF this(1) _ _ _ _ this(2), of "min k 5"] s b(3,4)
  have "\<exists>t. msgcallback DEBUG True (Wr_ok (min k 5)) ?s = Inr t \<and> conversing t \<and> tc_calls t = tc_calls ?s
    \<and> output_reach t \<le> output_reach ?s + 5
    \<and> tc_wire t @ contents (m_outputBuffer t) = tc_wire ?s @ contents (m_outputBuffer ?s) @ text_bytes ''i be ''" by simp
  then obtain t where t: "msgcallback DEBUG True (Wr_ok (min k 5)) ?s = Inr t" "conversing t" "output_reach t \<le> output_reach s + 5"
    "tc_wire t @ contents (m_outputBuffer t) = tc_wire s @ contents (m_outputBuffer s) @ text_bytes ''i be ''"
    by (auto simp: output_reach_def)
  have "serve_read rv k s = bindR (msgcallback DEBUG True (Wr_ok (min k 5)) ?s) (\<lambda>u. Inr ([contents b], u))"
    using h by (simp add: serve_read_def eval_nat_numeral)
  with t b(5) show ?thesis by simp
qed

text \<open>The part of the invariant that speaks of the bytes: all are read or in the socket, each call was answered.\<close>

definition talking :: "byte list \<Rightarrow> nat \<Rightarrow> talk \<Rightarrow> bool" where
  "talking sent turns x \<longleftrightarrow> conversing (tk_conn x) \<and> output_reach (tk_conn x) \<le> kCheapPrepend + 5 * turns
     \<and> concat (tk_seen x) @ tk_socket x = sent
     \<and> tc_wire (tk_conn x) @ contents (m_outputBuffer (tk_conn x)) = answers (tk_seen x)"

lemma capacity_pos: "extrabuf_size \<le> readv_capacity b"
  by (simp add: readv_capacity_def Let_def)

lemma readable_ok:
  assumes x: "talking sent turns x" and n: "0 < n" "tk_socket x \<noteq> []" and room: "kCheapPrepend + 5 * Suc turns \<le> max_size"
  shows "\<exists>y. converse (Readable n k) x = Inr y \<and> talking sent (Suc turns) y
    \<and> tk_seen y = tk_seen x @ [take (read_size n x) (tk_socket x)] \<and> tk_socket y = drop (read_size n x) (tk_socket x)"
proof -
  let ?m = "read_size n x" and ?s = "tk_conn x"
  have p: "0 < ?m" "?m \<le> readv_capacity (m_inputBuffer ?s)"
    using n(1) capacity_pos [of "m_inputBuffer ?s"] by (simp_all add: read_size_def extrabuf_size_def)
  have "take ?m (tk_socket x) \<noteq> []" "length (take ?m (tk_socket x)) \<le> readv_capacity (m_inputBuffer ?s)"
    using p n(2) by simp_all
  moreover have c: "conversing ?s" "output_reach ?s + 5 \<le> max_size"
    using x room unfolding talking_def by simp_all
  ultimately obtain t where t: "serve_read (Rv_data (take ?m (tk_socket x))) k ?s = Inr ([take ?m (tk_socket x)], t)" "conversing t"
    "output_reach t \<le> output_reach ?s + 5"
    "tc_wire t @ contents (m_outputBuffer t) = tc_wire ?s @ contents (m_outputBuffer ?s) @ text_bytes ''i be ''"
    using serve_read_ok [OF c(1)] by blast
  let ?y = "\<lparr>tk_conn = t, tk_socket = drop ?m (tk_socket x), tk_seen = tk_seen x @ [take ?m (tk_socket x)]\<rparr>"
  have w: "tc_wire ?s @ contents (m_outputBuffer ?s) = answers (tk_seen x)" "concat (tk_seen x) @ tk_socket x = sent"
    "output_reach ?s \<le> kCheapPrepend + 5 * turns" using x by (simp_all add: talking_def)
  have "tc_wire t @ contents (m_outputBuffer t) = answers (tk_seen ?y)"
    unfolding t(4) using arg_cong [OF w(1), of "\<lambda>z. z @ text_bytes ''i be ''"] by (simp add: answers_def)
  with t(2,3) w(2,3) have "talking sent (Suc turns) ?y" by (simp add: talking_def)
  with t(1) n(2) show ?thesis by (intro exI [of _ ?y]) simp
qed

lemma fails_ok:
  assumes x: "talking sent turns x" and room: "kCheapPrepend + 5 * Suc turns \<le> max_size"
  shows "\<exists>y. converse (Read_fails e k) x = Inr y \<and> talking sent (Suc turns) y"
proof -
  let ?s = "tk_conn x"
  have c: "conversing ?s" "output_reach ?s + 5 \<le> max_size"
    using x room unfolding talking_def by simp_all
  obtain t where t: "serve_read (Rv_error e) k ?s = Inr ([[]], t)" "conversing t" "output_reach t \<le> output_reach ?s + 5"
    "tc_wire t @ contents (m_outputBuffer t) = tc_wire ?s @ contents (m_outputBuffer ?s) @ text_bytes ''i be ''"
    using serve_read_ok [OF c(1) _ _ c(2), of "Rv_error e" "[]" e k] by auto
  let ?y = "x\<lparr>tk_conn := t, tk_seen := tk_seen x @ [[]]\<rparr>"
  have w: "tc_wire ?s @ contents (m_outputBuffer ?s) = answers (tk_seen x)" "concat (tk_seen x) @ tk_socket x = sent"
    "output_reach ?s \<le> kCheapPrepend + 5 * turns" using x by (simp_all add: talking_def)
  have "tc_wire t @ contents (m_outputBuffer t) = answers (tk_seen ?y)"
    unfolding t(4) using arg_cong [OF w(1), of "\<lambda>z. z @ text_bytes ''i be ''"] by (simp add: answers_def)
  with t(2,3) w(2,3) have "talking sent (Suc turns) ?y" by (simp add: talking_def)
  with t(1) show ?thesis by (intro exI [of _ ?y]) simp
qed

lemma takes_ok:
  assumes x: "talking sent turns x"
  shows "\<exists>y. converse (Client_takes k) x = Inr y \<and> talking sent (Suc turns) y"
proof -
  let ?s = "tk_conn x"
  from x have r: "conversing ?s" by (simp add: talking_def)
  then have s: "wf_conn ?s" "m_stat ?s \<noteq> KDISCONNECTED" by (simp_all add: conversing_def)
  let ?n = "min k (length (contents (m_outputBuffer ?s)))"
  show ?thesis
  proof (cases "\<not> writing ?s \<or> ?n = 0")
    case True
    from handleWrite_idle [OF s(1) this] x show ?thesis by (simp add: talking_def)
  next
    case False
    then have n: "writing ?s" "0 < ?n" by simp_all
    obtain b p where t: "handleWrite (Wr_ok ?n) ?s = Inr (?s\<lparr>tc_wire := tc_wire ?s @ take ?n (contents (m_outputBuffer ?s)),
      m_outputBuffer := b, tc_poller := p,
      tc_tasks := tc_tasks ?s @ (if ?n = length (contents (m_outputBuffer ?s)) then finish_task ?s else [])\<rparr>)"
      "wf_conn (?s\<lparr>tc_wire := tc_wire ?s @ take ?n (contents (m_outputBuffer ?s)), m_outputBuffer := b, tc_poller := p,
      tc_tasks := tc_tasks ?s @ (if ?n = length (contents (m_outputBuffer ?s)) then finish_task ?s else [])\<rparr>)"
      "contents b = drop ?n (contents (m_outputBuffer ?s))" "writerIndex b \<le> max kCheapPrepend (writerIndex (m_outputBuffer ?s))"
      by (rule handleWrite_ok [OF s(1) n min.cobounded2])
    define t' where "t' = ?s\<lparr>tc_wire := tc_wire ?s @ take ?n (contents (m_outputBuffer ?s)), m_outputBuffer := b, tc_poller := p,
      tc_tasks := tc_tasks ?s @ (if ?n = length (contents (m_outputBuffer ?s)) then finish_task ?s else [])\<rparr>"
    have h: "handleWrite (Wr_ok ?n) ?s = Inr t'" "wf_conn t'" using t(1,2) by (simp_all add: t'_def)
    have f: "m_stat t' = m_stat ?s" "m_msgCb t' = m_msgCb ?s" "m_inputBuffer t' = m_inputBuffer ?s" "m_outputBuffer t' = b"
      "tc_wire t' = tc_wire ?s @ take ?n (contents (m_outputBuffer ?s))" by (simp_all add: t'_def)
    have x': "tc_wire t' @ contents (m_outputBuffer t') = tc_wire ?s @ contents (m_outputBuffer ?s)"
      unfolding f(4,5) t(3) append_assoc append_take_drop_id ..
    have "output_reach t' \<le> output_reach ?s" using t(4) f(4) by (simp add: output_reach_def)
    moreover have "conversing t'" using r h(2) f unfolding conversing_def by simp
    ultimately have "talking sent (Suc turns) (x\<lparr>tk_conn := t'\<rparr>)" using x x' by (simp add: talking_def)
    with h(1) show ?thesis by (intro exI [of _ "x\<lparr>tk_conn := t'\<rparr>"]) simp
  qed
qed

lemma converse_ok:
  assumes x: "talking sent turns x" and e: "event_fine ev" and room: "kCheapPrepend + 5 * Suc turns \<le> max_size"
  shows "\<exists>y. converse ev x = Inr y \<and> talking (sent @ client_bytes ev) (Suc turns) y"
proof (cases ev)
  case (Client_sends bytes)
  with x show ?thesis by (auto simp: talking_def)
next
  case (Readable n k)
  show ?thesis
  proof (cases "tk_socket x = []")
    case True
    with x Readable show ?thesis by (simp add: talking_def)
  next
    case False
    with readable_ok [OF x _ False room, of n k] e Readable show ?thesis by auto
  qed
qed (use fails_ok [OF x room] takes_ok [OF x] in auto)

lemma conversation_ok:
  assumes "talking sent turns x" and "\<forall>ev \<in> set evs. event_fine ev" and "kCheapPrepend + 5 * (turns + length evs) \<le> max_size"
  shows "\<exists>y. foldR converse evs x = Inr y \<and> talking (sent @ concat (map client_bytes evs)) (turns + length evs) y"
  using assms
proof (induction evs arbitrary: x sent turns)
  case (Cons ev evs)
  from Cons.prems have e: "event_fine ev" "kCheapPrepend + 5 * Suc turns \<le> max_size" by auto
  from converse_ok [OF Cons.prems(1) e] obtain u where u: "converse ev x = Inr u" "talking (sent @ client_bytes ev) (Suc turns) u"
    by blast
  from Cons.IH [OF u(2)] Cons.prems(2,3) u(1) show ?case by auto
qed simp

section \<open>From the listening socket to the conversation\<close>

lemma established_conversing:
  assumes u: "unused a sockfd p" and n: "new_connection reading a sockfd p = Inr c"
  shows "\<exists>d. connectionEstablished this (setConnectionCbs c) = Inr d \<and> conversing d \<and> output_reach d = kCheapPrepend
    \<and> tc_wire d = [] \<and> contents (m_outputBuffer d) = []"
proof -
  let ?b = "\<lparr>bufvec = replicate (kCheapPrepend + kInitialSize) 0, readerIndex = kCheapPrepend, writerIndex = kCheapPrepend\<rparr>"
  let ?ch = "channel_tie this (setErrCb 3 (setCloseCb 2 (setWriteCb 1 (setReadCb 0 (new_channel sockfd)))))"
  have b: "newBuffer kInitialSize = Inr ?b" "wf_buffer ?b" "contents ?b = []"
    by (simp_all add: newBuffer_def buffer_observers wf_buffer_def contents_def kCheapPrepend_def kInitialSize_def max_size_def)
  have t: "ch_fd ?ch = sockfd" "ch_idxs ?ch = KNEW" "ch_events ?ch = 0"
    by (simp_all add: channel_tie_def setErrCb_def setCloseCb_def setWriteCb_def setReadCb_def new_channel_def k_defs)
  let ?p = "put_channel a ?ch p"
  have w: "wf_poller ?p" "usable a ?p" using put_unused [of a ?ch p] u t by simp_all
  obtain q where q: "enableRead a ?p = Inr q" "wf_poller q" "usable a q" "asked_events q a = asked_events ?p a OR KReadEvent"
    using set_events_wf [OF w, of "\<lambda>e. e OR KReadEvent"] unfolding enableRead_def by metis
  have "asked_events ?p a = 0" using t(3) by (simp add: asked_events_def put_channel_def)
  with q(4) have off: "\<not> bit (asked_events q a) 2" by (simp add: k_defs read_mask bit_numeral_rec)
  let ?d = "(setConnectionCbs c)\<lparr>m_stat := KCONNECT, tc_poller := q, tc_calls := [Call_connection]\<rparr>"
  have c: "tc_channel c = a" "m_inputBuffer c = ?b" "m_outputBuffer c = ?b" "tc_wire c = []" "m_stat c = KCONNECTING" "tc_calls c = []"
    "tie_channel this a (tc_poller c) = Inr ?p"
    using n by (auto simp: new_connection_def b(1) Let_def tie_channel_def get_channel_def put_channel_def)
  have "connectionEstablished this (setConnectionCbs c) = Inr ?d"
    using c q(1) by (simp add: connectionEstablished_def on_channel_def setState_def call_cb_def setConnectionCbs_def conn_setters)
  moreover have "conversing ?d"
    using b q(2,3) off c by (simp add: conversing_def wf_conn_def writing_def setConnectionCbs_def conn_setters
      input_limit_def extrabuf_size_def kInitialSize_def)
  ultimately show ?thesis using c b(3) by (simp add: output_reach_def setConnectionCbs_def conn_setters)
qed

lemma accept_conversing:
  assumes "ready s" "unused a sockfd p"
  shows "\<exists>s1 s2. accept_client reading a sockfd p s = Inr s1 \<and> run_next_task this s1 = Inr s2
    \<and> conversing (cs_conn s2) \<and> output_reach (cs_conn s2) = kCheapPrepend
    \<and> tc_wire (cs_conn s2) = [] \<and> contents (m_outputBuffer (cs_conn s2)) = []"
proof -
  obtain sv l where sv: "newConnection True s = Inr sv" "sv_tasks sv = [(l, False, Established (length (sv_conns s)))]"
    by (rule newConnection_ok [OF assms(1)])
  obtain c where c: "new_connection reading a sockfd p = Inr c" by (rule new_connection_ok [OF assms(2)])
  from established_conversing [OF assms(2) c, of this] sv c show ?thesis
    by (auto simp: accept_client_def run_next_task_def run_task_def)
qed

section \<open>Properties\<close>

text \<open>
  C3. The server of \<open>main\<close> answers each read once and loses no byte. A ready server accepts a client, and
  the next task of the loop establishes the connection. Then, through any sequence of arrivals of the
  client's bytes, of reads, of read errors, and of moments at which the client takes some of what is
  waiting for it, no assertion fails. The bytes that \<open>msgcallback\<close> found in the input buffer, call
  after call, followed by those still in the socket, are exactly what the client sent. What the kernel
  accepted followed by what waits in the output buffer is one \<open>i be \<close> for each of these calls, in spite
  of any partial write; a read error makes a call that finds nothing, and is answered too. The
  connection stays connected, its input buffer is empty after each turn and never grows beyond 131080
  bytes. The next read makes one call with what is stored by it, and leaves the rest in the socket for
  another read and another answer; there is room for 65536 bytes at least, so a message up to that
  size that arrives alone is answered once when \<open>readv\<close> stores all of it, and a larger one as often
  as it is read.
\<close>

theorem main_answers:
  assumes "ready s" "unused a sockfd p" and "\<forall>ev \<in> set evs. event_fine ev"
    and "kCheapPrepend + 5 * Suc (length evs) \<le> max_size"
  shows "\<exists>s1 s2 x. accept_client reading a sockfd p s = Inr s1 \<and> run_next_task this s1 = Inr s2
    \<and> foldR converse evs \<lparr>tk_conn = cs_conn s2, tk_socket = [], tk_seen = []\<rparr> = Inr x
    \<and> concat (tk_seen x) @ tk_socket x = concat (map client_bytes evs)
    \<and> tc_wire (tk_conn x) @ contents (m_outputBuffer (tk_conn x)) = answers (tk_seen x)
    \<and> m_stat (tk_conn x) = KCONNECT \<and> contents (m_inputBuffer (tk_conn x)) = []
    \<and> length (bufvec (m_inputBuffer (tk_conn x))) \<le> 131080
    \<and> 65536 \<le> readv_capacity (m_inputBuffer (tk_conn x))
    \<and> (tk_socket x \<noteq> [] \<longrightarrow> (\<forall>n k. 0 < n \<longrightarrow> (\<exists>y. converse (Readable n k) x = Inr y
          \<and> tk_seen y = tk_seen x @ [take (read_size n x) (tk_socket x)]
          \<and> tk_socket y = drop (read_size n x) (tk_socket x))))"
proof -
  from accept_conversing [OF assms(1,2)] obtain s1 s2 where s: "accept_client reading a sockfd p s = Inr s1"
    "run_next_task this s1 = Inr s2" "conversing (cs_conn s2)" "output_reach (cs_conn s2) = kCheapPrepend"
    "tc_wire (cs_conn s2) = []" "contents (m_outputBuffer (cs_conn s2)) = []" by blast
  let ?x = "\<lparr>tk_conn = cs_conn s2, tk_socket = [], tk_seen = []\<rparr>"
  have "talking [] 0 ?x" using s(3-6) by (simp add: talking_def answers_def)
  from conversation_ok [OF this assms(3)] assms(4) obtain x where x: "foldR converse evs ?x = Inr x"
    "talking (concat (map client_bytes evs)) (length evs) x" by auto
  have "conversing (tk_conn x)" using x(2) by (simp add: talking_def)
  then have c: "m_stat (tk_conn x) = KCONNECT" "contents (m_inputBuffer (tk_conn x)) = []" "length (bufvec (m_inputBuffer (tk_conn x))) \<le> 131080"
    by (simp_all add: conversing_def contents_def input_limit_def extrabuf_size_def kCheapPrepend_def)
  have b: "concat (tk_seen x) @ tk_socket x = concat (map client_bytes evs)"
    "tc_wire (tk_conn x) @ contents (m_outputBuffer (tk_conn x)) = answers (tk_seen x)"
    using x(2) by (simp_all add: talking_def)
  have "65536 \<le> readv_capacity (m_inputBuffer (tk_conn x))"
    using capacity_pos [of "m_inputBuffer (tk_conn x)"] by (simp add: extrabuf_size_def)
  with s(1,2) x(1) b c readable_ok [OF x(2) _ _ assms(4)] show ?thesis by blast
qed

text \<open>Four bytes arrive, are read in two parts and answered twice, and the client takes four bytes of the output.\<close>

lemma main_answers_witness:
  "\<exists>s1 s2 x. accept_client False 1 9 new_EpollPoller sample_server = Inr s1 \<and> run_next_task 5 s1 = Inr s2
    \<and> foldR converse [Client_sends [65, 66, 67, 68], Readable 3 2, Readable 3 2, Client_takes 4]
        \<lparr>tk_conn = cs_conn s2, tk_socket = [], tk_seen = []\<rparr> = Inr x
    \<and> concat (tk_seen x) @ tk_socket x = [65, 66, 67, 68]
    \<and> tc_wire (tk_conn x) @ contents (m_outputBuffer (tk_conn x)) = answers (tk_seen x)"
proof -
  have "ready sample_server" by (simp add: ready_def sample_server_def)
  moreover have "unused 1 9 new_EpollPoller" by (auto simp: unused_def wf_poller_def new_EpollPoller_def usable_def)
  moreover have "kCheapPrepend + 5 * Suc 4 \<le> max_size" by (simp add: kCheapPrepend_def max_size_def)
  ultimately show ?thesis
    using main_answers [of sample_server 1 9 new_EpollPoller
      "[Client_sends [65, 66, 67, 68], Readable 3 2, Readable 3 2, Client_takes 4]" False 5] by force
qed

end
