(* ===== verification/Spec2Isabelle.thy ===== *)
theory Spec2Isabelle
  imports StringPieces TimeZones TimerQueues TcpConnections AsyncLives BlockQueues Servers LstTimers WheelLinks Logs NumberTexts SecondsMath LoopLives Sockets StackTraces Callbacks Demos ClientLives Reactors TimerThreads LogRoutes SmallFiles Conversations
begin

text \<open>
  A verification development of CzyNetFrame, a C++ network library in the style of muduo: event
  loops over \<open>epoll\<close>, one per thread, TCP servers and connections on them, timers, and an asynchronous
  log. The sources are the files under \<open>src/src/base\<close> and \<open>src/src/net\<close>; a name in
  the text of a theory is that of the function, method or class of these files.

  \<^bold>\<open>The program and its parts.\<close> An \<open>EventLoop\<close> belongs to one thread. Its turn asks the
  \<open>Poller\<close> which file descriptors have events, lets their \<open>Channel\<close>s run callbacks, and then
  runs the functors other threads have queued; a write to an \<open>eventfd\<close> wakes it up. Its
  \<open>TimerQueue\<close> is one more channel, on a \<open>timerfd\<close>. A \<open>TcpServer\<close> owns an
  \<open>Acceptor\<close> on the main loop and a pool of \<open>EventLoopThread\<close>s; each accepted socket becomes a
  \<open>TcpConnection\<close>, given to the loops in turn, with a \<open>Buffer\<close> for each direction. Log lines are
  built in a \<open>LogStream\<close>, with the date and zone code, and go to an output function, usually the front end
  of \<open>AsyncLog\<close>, whose thread writes them to a \<open>LogFile\<close>.

  \<^bold>\<open>How the code is translated.\<close> An operation is a function from its arguments and the state of its
  object (a record with the members of the class) to the new state. One that can stop has the
  result type \<open>res\<close> of \<open>Prelude\<close>: a fault (a failed assertion, an exception, \<open>abort\<close>, a null
  pointer, other undefined behaviour) or a value; the build is a debug build, so assertions are checked.
  What the kernel, the C library or a client's callback answers is an argument. Parts that hold a mutex,
  or run on one thread without meeting another, are one step; threads interleave as sequences of steps or
  as inductive step relations. A pointer is a natural number into a store where aliasing matters
  (channels, timers, the nodes of the timer list and of the timer wheel) and an index into its vector in a buffer. Machine
  integers are unbounded integers with the cast, the wrap-around or the remainder of C++ written out
  (\<open>to_i32\<close>, \<open>i32_to_size\<close>, \<open>sz_sub\<close>, \<open>sdiv\<close>, \<open>smod\<close>), or words where the bits matter
  (byte order, event masks, ports).

  \<^bold>\<open>The theories.\<close>

  \<^item> \<open>Prelude\<close>: faults, results and their sequencing, casts, vectors. \<open>Formats\<close>: what the
    program uses of \<open>printf\<close> on integers. \<open>Doubles\<close> and \<open>FloatTexts\<close>: the rounding of
    \<open>double\<close> and \<open>%g\<close>. \<open>StdSets\<close>: \<open>std::set\<close> as a locale of what the program relies on, with sorted
    lists as its interpretation.
  \<^item> \<open>Endians\<close> (\<open>net/Endian.h\<close>), \<open>Buffers\<close> (\<open>net/Buffer\<close>), \<open>StringPieces\<close>
    (\<open>base/StringPiece.h\<close>): bytes. A buffer is shown to be a byte queue through its growing and sliding,
    integers to be read back as written, and the comparisons of pieces to be those of strings.
  \<^item> \<open>Channels\<close> (\<open>net/Channel\<close>, \<open>net/Poller\<close>, \<open>net/EpollPoller\<close>): what the kernel watches
    is what the channels ask for, which callbacks an event selects, and why removal always fails.
  \<^item> \<open>EventLoops\<close> (\<open>net/EventLoop\<close>): the turns of a loop with other threads around it; no
    functor waits unnoticed, each runs once and in order, and a turn runs exactly those it found.
  \<^item> \<open>TimerQueues\<close> (\<open>net/Timer\<close>, \<open>net/TimerId.h\<close>, \<open>net/TimerQueue\<close>): the two
    ordered sets agree and hold live timers only through every run, including callbacks that add and
    cancel; expiry, cancellation and the setting of the kernel timer are exact. \<open>TimerThreads\<close> lets other
    threads add and cancel, and shows the one place that may use a destroyed timer.
  \<^item> \<open>LoopLives\<close> (\<open>net/EventLoopThread\<close>, constructors and destructors of loop and timer queue):
    the handshake of \<open>startLoop\<close>, and the faults of every destruction.
  \<^item> \<open>TcpConnections\<close> (\<open>net/TcpConnection\<close>), \<open>Callbacks\<close> (\<open>net/WeakCallBack.h\<close>,
    \<open>base/Singleton.h\<close>): a connection refines a byte stream while the kernel reports no error; what
    reading, errors, closing and shutting down do. \<open>Reactors\<close> puts a connection on its loop and lets
    other threads use it: what a thread hands to \<open>send\<close> becomes functors with exactly these bytes, in the order of its
    calls, and what the functors send goes out once and in the order they were queued.
  \<^item> \<open>Addresses\<close> (\<open>net/InetAddress\<close>, address functions of \<open>net/SocketOps\<close>),
    \<open>Servers\<close> (\<open>net/Acceptor\<close>, \<open>net/EventLoopThreadPool\<close>, \<open>net/TcpServer\<close>),
    \<open>Sockets\<close> (\<open>net/Sockets\<close>, the other wrappers), \<open>Demos\<close> (\<open>main.cc\<close>): addresses
    and their text, the accounts of descriptors, connections, names and loops, socket options.
    \<open>ClientLives\<close> runs one client through server, connection and poller, to the assertion that fails
    when it goes away; \<open>Conversations\<close> runs the bytes of a client through its socket and the server of \<open>main.cc\<close>,
    which answers once for each read and loses none of them.
  \<^item> \<open>Dates\<close>, \<open>TimeStamps\<close>, \<open>SecondsMath\<close>, \<open>TimeZones\<close> (\<open>base/Date\<close>,
    \<open>base/TimeStamp\<close>, \<open>base/TimeZone\<close>): day numbers count the days of the Gregorian calendar, within the range in which their \<open>int\<close>
    arithmetic does not overflow, times break down and compose, the reader of TZif files inverts the format, the offset in force is found.
  \<^item> \<open>LogStreams\<close> and \<open>NumberTexts\<close> (\<open>base/LogStream\<close>), \<open>Logs\<close> (\<open>base/Log\<close>,
    \<open>base/CurrentThread\<close>), \<open>StackTraces\<close>: no stream overflows, and a log statement hands exactly the
    line it should to the output function, with the caches of the thread kept right.
  \<^item> \<open>AsyncLogs\<close>, \<open>LogFiles\<close>, \<open>SmallFiles\<close>, \<open>AsyncLives\<close> (\<open>base/AsyncLog\<close>, \<open>base/LogFile\<close>,
    \<open>base/FileUnit\<close>): front end and back end implement a specification without buffers under every
    interleaving, and what is logged reaches the files in order. \<open>LogRoutes\<close> joins them with \<open>Logs\<close>: the statements
    of all threads on their way to the files, and the fatal line that is lost.
  \<^item> \<open>BlockQueues\<close> (\<open>base/BlockQueue.h\<close>, \<open>base/BoundedBlockQueue.h\<close>, \<open>base/ThreadPool.h\<close>)
    and \<open>LstTimers\<close> and \<open>WheelLinks\<close> (\<open>base/LstTimer\<close>): the ring is a bounded FIFO queue whose waiting threads are
    never left behind, the pool can lose a notification, the linked timer list and the linked wheel
    refine lists, and the tick at which the wheel calls a timer.

  \<^bold>\<open>Interfaces.\<close> The contracts between components are locales, each interpreted on the
  definitions of the component that provides it: the ordered set of \<open>StdSets\<close> under \<open>TimerQueues\<close>,
  the byte queue of \<open>Buffers\<close>, the poller of \<open>Channels\<close> under the connections, the blocking queue of
  \<open>BlockQueues\<close>, and the invariant of a step relation (\<open>Prelude\<close>) under the loop, its
  handshake, the threads that wait at a queue and those of the thread pool. Every property stands outside
  them, over the translated code.

  \<^bold>\<open>Bounds and termination.\<close> Loops over data are structural recursions or have a measure. A loop that ends
  only with the answers of the kernel takes the list of these answers and has the value \<open>None\<close> while they
  do not end it (\<open>append\<close> of a file); lemmas say which answers end it and which never do.
  Vectors and strings stay below \<open>max_size\<close> (\<open>2 ^ 63 - 1\<close> bytes) and lengths that become \<open>int\<close> below
  \<open>2 ^ 31\<close>; these bounds are hypotheses where they matter, and what happens beyond is a fault of the model
  or a finding. The dates compute in \<open>int\<close> and check every operation (\<open>in_ints\<close>). Times in microseconds
  and seconds are \<open>int64_t\<close> and unbounded here. The log files are followed while \<open>m_threadSafe\<close>, which
  nothing initialises, is false and every file opens; \<open>handleRead\<close> of the timer queue is one step for other threads. \<open>double\<close> rounds to 53 bits; the exponent range is left out for \<open>timeDifference\<close>,
  \<open>formatSI\<close> and \<open>formatIEC\<close>, whose values lie between \<open>2 ^ -20\<close> and \<open>2 ^ 83\<close>.

  \<^bold>\<open>What the proofs found.\<close> Several properties state that the code fails: an established connection, a
  loop, its thread and the asynchronous log cannot be taken down without a failed assertion, a
  terminated program or an endless wait; a failing \<open>read\<close> or \<open>write\<close> is taken for a byte count;
  \<open>shutDown\<close> is inverted; the thread pool can lose a notification; the timer list is not
  sorted, the wheel calls long timers one turn early, and deleting a timer it has already called can bring
  another dead one back. They are stated as theorems of what the code does.

  \<^bold>\<open>Not modelled.\<close> The array constructor of \<open>SourceFile\<close> in \<open>base/Log.h\<close> (it does not compile when it is used,
  and nothing uses it); \<open>China\<close> of \<open>TimeZone\<close>, which has no definition; the trial classes
  of \<open>main.cc\<close> that only print; the alternatives for \<open>VALGRIND\<close> and for systems without \<open>accept4\<close>; getters that
  return a member, declarations, \<open>NonCopyAble\<close>, the type names of \<open>CallbackDefine.h\<close>, and the build files. Log
  lines inside the network classes are not kept, except where a fatal one ends the program.
\<close>

end
